(* ===== verification/Prelude.thy ===== *)
theory Prelude
  imports Main "HOL-Library.Word"
begin

text \<open>
  Shared vocabulary of the development.

  \<^item> machine integers: \<open>u8\<close>, \<open>u16\<close>, \<open>u32\<close>, \<open>u64\<close> are the unsigned types of
    \<^verbatim>\<open>kernel/types.h\<close>; a C \<open>int\<close> is an \<open>int\<close> kept in range by \<open>s32\<close>;
  \<^item> outcomes: a kernel function that may panic or go to sleep returns a value of \<open>res\<close>,
    sequenced by \<open>rbind\<close>; \<open>wpr\<close> is its weakest precondition for normal return;
  \<^item> sleep channels: the kernel addresses that \<open>sleep\<close> and \<open>wakeup\<close> compare;
  \<^item> physical memory as a byte-addressed function with little-endian accesses;
  \<^item> arrays of bytes as lists, with little-endian accesses.
\<close>

unbundle bit_operations_syntax

named_theorems wp \<open>weakest preconditions of the kernel operations\<close>

section \<open>Machine integers\<close>

type_synonym u8 = "8 word"
type_synonym u16 = "16 word"
type_synonym u32 = "32 word"
type_synonym u64 = "64 word"

text \<open>
  The value of a mathematical integer stored into a C \<open>int\<close>: two's complement, 32 bits
  (what the \<open>addw\<close>-family of RV64 instructions leaves in the register).
\<close>

definition s32 :: "int \<Rightarrow> int" where
  "s32 x = signed_take_bit 31 x"

lemma s32_id [simp]: "- (2 ^ 31) \<le> x \<Longrightarrow> x < 2 ^ 31 \<Longrightarrow> s32 x = x"
  by (simp add: s32_def signed_take_bit_int_eq_self)

lemma s32_range: "- (2 ^ 31) \<le> s32 x \<and> s32 x < 2 ^ 31"
  using signed_take_bit_int_greater_eq_minus_exp [of 31 x] signed_take_bit_int_less_exp [of 31 x]
  by (simp add: s32_def)

lemma s32_idem [simp]: "s32 (s32 x) = s32 x"
  by (simp add: s32_def)

section \<open>Outcomes of kernel functions\<close>

text \<open>
  The objects whose addresses serve as sleep channels. Distinct constructors stand for
  distinct addresses; \<open>NoChan\<close> is the null pointer of a process that is not sleeping.
\<close>

datatype chan =
    NoChan
  | ChanProc nat            \<comment> \<open>\<open>p\<close>: a parent in \<open>wait\<close>\<close>
  | ChanTicks               \<comment> \<open>\<open>&ticks\<close>\<close>
  | ChanLog                 \<comment> \<open>\<open>&log\<close>\<close>
  | ChanPipeRead u64        \<comment> \<open>\<open>&pi->nread\<close>\<close>
  | ChanPipeWrite u64       \<comment> \<open>\<open>&pi->nwrite\<close>\<close>
  | ChanBufLock nat         \<comment> \<open>\<open>&b->lock\<close>\<close>
  | ChanInodeLock nat       \<comment> \<open>\<open>&ip->lock\<close>\<close>
  | ChanCons                \<comment> \<open>\<open>&cons.r\<close>\<close>
  | ChanUart                \<comment> \<open>\<open>&uart_tx_r\<close>\<close>
  | ChanDiskFree            \<comment> \<open>\<open>&disk.free[0]\<close>\<close>
  | ChanBuf nat             \<comment> \<open>\<open>b\<close>: a buffer the disk owns\<close>

text \<open>
  A kernel function either returns a value and the new state, panics (the machine stops), or
  reaches a call of \<open>sleep\<close> on a channel, with the state it leaves to the other processes.
\<close>

datatype ('a, 's) res = Ret 'a 's | Panic string | Sleep chan 's

fun rbind :: "('a, 's) res \<Rightarrow> ('a \<Rightarrow> 's \<Rightarrow> ('b, 's) res) \<Rightarrow> ('b, 's) res" where
  "rbind (Ret a s) k = k a s"
| "rbind (Panic e) k = Panic e"
| "rbind (Sleep c s) k = Sleep c s"

lemma rbind_cong [fundef_cong]:
  "m = m' \<Longrightarrow> (\<And>a s. m' = Ret a s \<Longrightarrow> k a s = k' a s) \<Longrightarrow> rbind m k = rbind m' k'"
  by (cases m') auto

lemma rbind_eq_Ret:
  "rbind m k = Ret b t \<longleftrightarrow> (\<exists>a s. m = Ret a s \<and> k a s = Ret b t)"
  by (cases m) auto

lemma rbind_eq_Panic:
  "rbind m k = Panic e \<longleftrightarrow> m = Panic e \<or> (\<exists>a s. m = Ret a s \<and> k a s = Panic e)"
  by (cases m) auto

lemma rbind_assoc: "rbind (rbind m k) l = rbind m (\<lambda>a s. rbind (k a s) l)"
  by (cases m) auto

text \<open>\<open>wpr m Q\<close>: the computation returns normally, in a state and with a value that satisfy \<open>Q\<close>.\<close>

fun wpr :: "('a, 's) res \<Rightarrow> ('a \<Rightarrow> 's \<Rightarrow> bool) \<Rightarrow> bool" where
  "wpr (Ret a s) Q = Q a s"
| "wpr (Panic e) Q = False"
| "wpr (Sleep c s) Q = False"

lemma wpr_iff: "wpr m Q \<longleftrightarrow> (\<exists>a s. m = Ret a s \<and> Q a s)"
  by (cases m) auto

lemma wpr_rbind [simp]: "wpr (rbind m k) Q = wpr m (\<lambda>a s. wpr (k a s) Q)"
  by (cases m) auto

lemma wpr_mono: "wpr m P \<Longrightarrow> (\<And>a s. P a s \<Longrightarrow> Q a s) \<Longrightarrow> wpr m Q"
  by (cases m) auto

text \<open>Running a body once for each element of a list, as a counted \<open>for\<close> loop does.\<close>

fun rfor :: "'x list \<Rightarrow> ('x \<Rightarrow> 's \<Rightarrow> (unit, 's) res) \<Rightarrow> 's \<Rightarrow> (unit, 's) res" where
  "rfor [] f s = Ret () s"
| "rfor (x # xs) f s = rbind (f x s) (\<lambda>_ s. rfor xs f s)"

lemma rfor_cong [fundef_cong]:
  "xs = ys \<Longrightarrow> s = t \<Longrightarrow> (\<And>x u. x \<in> set ys \<Longrightarrow> f x u = g x u) \<Longrightarrow> rfor xs f s = rfor ys g t"
proof (induction xs arbitrary: ys s t)
  case (Cons x xs)
  then show ?case by (cases "g x t") auto
qed simp

lemma rfor_append: "rfor (xs @ ys) f s = rbind (rfor xs f s) (\<lambda>_ s. rfor ys f s)"
  by (induction xs arbitrary: s) (auto simp: rbind_assoc intro!: rbind_cong)

lemma rfor_invariant:
  assumes "I s" and "\<And>x u. x \<in> set xs \<Longrightarrow> I u \<Longrightarrow> wpr (f x u) (\<lambda>_ u'. I u')"
  shows "wpr (rfor xs f s) (\<lambda>_ t. I t)"
  using assms
proof (induction xs arbitrary: s)
  case (Cons x xs)
  from Cons.prems have "wpr (f x s) (\<lambda>_ u. I u)" by simp
  then show ?case
    by (simp, rule wpr_mono) (use Cons in auto)
qed simp

lemma rfor_upt:
  assumes "I 0 s" and "\<And>j u. j < n \<Longrightarrow> I j u \<Longrightarrow> wpr (f j u) (\<lambda>_ u'. I (Suc j) u')"
  shows "wpr (rfor [0..<n] f s) (\<lambda>_ t. I n t)"
  using assms
proof (induction n)
  case (Suc n)
  then have "wpr (rfor [0..<n] f s) (\<lambda>_ t. I n t)" by simp
  then obtain t where t: "rfor [0..<n] f s = Ret () t" "I n t" by (auto simp: wpr_iff)
  then obtain t' where "f n t = Ret () t'" "I (Suc n) t'" using Suc.prems(2) [of n t] by (auto simp: wpr_iff)
  with t show ?case by (simp add: rfor_append)
qed simp

lemma rfor_partial_invariant:
  assumes "rfor xs f s = Ret u t" and "I s"
    and "\<And>x s1 s2 v. x \<in> set xs \<Longrightarrow> I s1 \<Longrightarrow> f x s1 = Ret v s2 \<Longrightarrow> I s2"
  shows "I t"
  using assms
proof (induction xs arbitrary: s)
  case (Cons x xs)
  from Cons.prems(1) obtain s1 where "f x s = Ret () s1" "rfor xs f s1 = Ret u t"
    by (auto simp: rbind_eq_Ret)
  with Cons show ?case by (metis list.set_intros(1) list.set_intros(2))
qed simp

section \<open>Searching a table for its first match\<close>

text \<open>
  The index of the first element that satisfies a predicate: the shape of every scan of a
  kernel table that stops at the first hit.
\<close>

fun find_index :: "('a \<Rightarrow> bool) \<Rightarrow> 'a list \<Rightarrow> nat option" where
  "find_index P [] = None"
| "find_index P (x # xs) = (if P x then Some 0 else map_option Suc (find_index P xs))"

lemma find_index_Some:
  "find_index P xs = Some i \<longleftrightarrow> i < length xs \<and> P (xs ! i) \<and> (\<forall>j<i. \<not> P (xs ! j))"
proof (induction xs arbitrary: i)
  case (Cons x xs)
  then show ?case
    by (cases i) (auto simp: less_Suc_eq_0_disj)
qed simp

lemma find_index_None: "find_index P xs = None \<longleftrightarrow> (\<forall>x\<in>set xs. \<not> P x)"
  by (induction xs) auto

lemma find_index_lt: "find_index P xs = Some i \<Longrightarrow> i < length xs"
  by (simp add: find_index_Some)

text \<open>Following \<open>f\<close> from \<open>a\<close> leads through \<open>xs\<close> to \<open>z\<close>.\<close>

fun chain :: "(nat \<Rightarrow> nat) \<Rightarrow> nat \<Rightarrow> nat list \<Rightarrow> nat \<Rightarrow> bool" where
  "chain f a [] z = (f a = z)"
| "chain f a (x # xs) z = (f a = x \<and> chain f x xs z)"

lemma chain_cong: "(\<And>y. y \<in> set (a # xs) \<Longrightarrow> f y = g y) \<Longrightarrow> chain f a xs z = chain g a xs z"
  by (induction xs arbitrary: a) auto

lemma chain_append: "chain f a (xs @ y # ys) z \<longleftrightarrow> chain f a xs y \<and> chain f y ys z"
  by (induction xs arbitrary: a) auto

lemma chain_redirect:
  assumes "chain f a xs b" "distinct (a # xs)"
  shows "chain (f(List.last (a # xs) := z)) a xs z"
  using assms
proof (induction xs arbitrary: a)
  case (Cons x xs)
  then have "a \<noteq> List.last (x # xs)" by (metis distinct.simps(2) last_in_set list.distinct(1))
  with Cons show ?case by auto
qed simp

lemma chain_last: "chain f a xs b \<Longrightarrow> f (List.last (a # xs)) = b"
  by (induction xs arbitrary: a) (auto split: if_splits)

text \<open>The bytes of a string literal.\<close>

definition str :: "string \<Rightarrow> u8 list" where
  "str xs = map of_char xs"

section \<open>Little-endian words\<close>

text \<open>Byte \<open>i\<close> of a word, and the word made of \<open>n\<close> bytes.\<close>

definition le_byte :: "'a::len word \<Rightarrow> nat \<Rightarrow> u8" where
  "le_byte w i = ucast (drop_bit (8 * i) w)"

definition le_get :: "(nat \<Rightarrow> u8) \<Rightarrow> nat \<Rightarrow> 'a::len word" where
  "le_get f n = foldr (\<lambda>i w. push_bit (8 * i) (ucast (f i)) OR w) [0..<n] 0"

lemma bit_le_byte: "bit (le_byte w i) k \<longleftrightarrow> k < 8 \<and> bit w (8 * i + k)"
  by (auto simp: le_byte_def bit_simps dest: bit_imp_le_length)

lemma bit_foldr_or:
  "bit (foldr (\<lambda>i w. g i OR w) is (0::'a::len word)) k \<longleftrightarrow> (\<exists>i\<in>set is. bit (g i) k)"
  by (induction "is") (auto simp: bit_or_iff)

lemma bit_le_get:
  "bit (le_get f n :: 'a::len word) k \<longleftrightarrow>
     k < LENGTH('a) \<and> k < 8 * n \<and> bit (f (k div 8)) (k mod 8)"
proof -
  have "bit (push_bit (8 * i) (ucast (f i) :: 'a word)) k \<longleftrightarrow>
      k < LENGTH('a) \<and> k div 8 = i \<and> bit (f i) (k mod 8)" for i
  proof -
    have "8 * i \<le> k \<and> bit (f i) (k - 8 * i) \<longleftrightarrow> k div 8 = i \<and> bit (f i) (k mod 8)"
    proof (cases "k div 8 = i")
      case True
      then have "8 * i \<le> k" "k - 8 * i = k mod 8"
        by (auto simp: minus_mult_div_eq_mod)
      with True show ?thesis by simp
    next
      case False
      have "\<not> bit (f i) (k - 8 * i)" if "8 * i \<le> k"
      proof
        assume "bit (f i) (k - 8 * i)"
        then have "k - 8 * i < LENGTH(8)" by (rule bit_imp_le_length)
        with that have "k div 8 = i" by (intro div_nat_eqI) simp_all
        with False show False ..
      qed
      with False show ?thesis by auto
    qed
    then show ?thesis
      by (auto simp: bit_simps)
  qed
  moreover have "k div 8 < n \<longleftrightarrow> k < 8 * n" by (auto simp: div_less_iff_less_mult mult.commute)
  ultimately show ?thesis
    by (auto simp: le_get_def bit_foldr_or)
qed

lemma le_get_byte [simp]:
  "LENGTH('a) = 8 * n \<Longrightarrow> le_get (le_byte w) n = (w :: 'a::len word)"
  by (rule bit_eqI) (auto simp: bit_le_get bit_le_byte mult_div_mod_eq)

lemma le_byte_get [simp]:
  "i < n \<Longrightarrow> 8 * n \<le> LENGTH('a) \<Longrightarrow> le_byte (le_get f n :: 'a::len word) i = f i"
  by (rule bit_eqI) (auto simp: bit_le_get bit_le_byte dest: bit_imp_le_length)

lemma le_get_cong:
  "(\<And>i. i < n \<Longrightarrow> f i = g i) \<Longrightarrow> le_get f n = le_get g n"
  by (rule bit_eqI) (auto simp: bit_le_get)

lemma le_get_0 [simp]: "le_get (\<lambda>i. 0) n = 0"
  by (rule bit_eqI) (auto simp: bit_le_get)

section \<open>Physical memory\<close>

type_synonym mem = "u64 \<Rightarrow> u8"

definition load64 :: "mem \<Rightarrow> u64 \<Rightarrow> u64" where
  "load64 m a = le_get (\<lambda>i. m (a + of_nat i)) 8"

definition store64 :: "mem \<Rightarrow> u64 \<Rightarrow> u64 \<Rightarrow> mem" where
  "store64 m a v = (\<lambda>x. if unat (x - a) < 8 then le_byte v (unat (x - a)) else m x)"

lemma unat_of_nat_lt: "n < 2 ^ LENGTH('a) \<Longrightarrow> unat (of_nat n :: 'a::len word) = n"
  by (simp add: unat_of_nat take_bit_nat_eq_self)

lemma load64_store64_same [simp]: "load64 (store64 m a v) a = v"
proof -
  have "load64 (store64 m a v) a = le_get (le_byte v) 8"
    unfolding load64_def store64_def
    by (rule le_get_cong) (simp add: unat_of_nat_lt)
  then show ?thesis by simp
qed

lemma load64_cong:
  "(\<And>i. i < 8 \<Longrightarrow> m (a + of_nat i) = m' (a + of_nat i)) \<Longrightarrow> load64 m a = load64 m' a"
  unfolding load64_def by (rule le_get_cong) simp

section \<open>Byte arrays\<close>

text \<open>Overwriting part of an array, and reading or writing a 32- or 16-bit field of it.\<close>

definition blit :: "u8 list \<Rightarrow> nat \<Rightarrow> u8 list \<Rightarrow> u8 list" where
  "blit bs off xs = take off bs @ xs @ drop (off + length xs) bs"

definition get_le :: "u8 list \<Rightarrow> nat \<Rightarrow> nat \<Rightarrow> 'a::len word" where
  "get_le bs off n = le_get (\<lambda>i. bs ! (off + i)) n"

definition put_le :: "u8 list \<Rightarrow> nat \<Rightarrow> nat \<Rightarrow> 'a::len word \<Rightarrow> u8 list" where
  "put_le bs off n w = blit bs off (map (le_byte w) [0..<n])"

lemma length_blit [simp]: "off + length xs \<le> length bs \<Longrightarrow> length (blit bs off xs) = length bs"
  by (simp add: blit_def)

lemma nth_blit:
  "off + length xs \<le> length bs \<Longrightarrow> i < length bs \<Longrightarrow>
   blit bs off xs ! i = (if off \<le> i \<and> i < off + length xs then xs ! (i - off) else bs ! i)"
  by (auto simp: blit_def nth_append)

lemma length_put_le [simp]: "off + n \<le> length bs \<Longrightarrow> length (put_le bs off n w) = length bs"
  by (simp add: put_le_def)

lemma get_put_le_same [simp]:
  "off + n \<le> length bs \<Longrightarrow> LENGTH('a) = 8 * n \<Longrightarrow> get_le (put_le bs off n w) off n = (w :: 'a::len word)"
proof -
  assume a: "off + n \<le> length bs" "LENGTH('a) = 8 * n"
  have "get_le (put_le bs off n w) off n = (le_get (le_byte w) n :: 'a word)"
    unfolding get_le_def put_le_def
    by (rule le_get_cong) (use a in \<open>simp add: nth_blit\<close>)
  then show ?thesis using a by simp
qed

lemma get_put_le_other:
  "off + n \<le> length bs \<Longrightarrow> off' + n' \<le> length bs \<Longrightarrow> off' + n' \<le> off \<or> off + n \<le> off' \<Longrightarrow>
   get_le (put_le bs off n w) off' n' = get_le bs off' n'"
  unfolding get_le_def put_le_def by (rule le_get_cong) (auto simp: nth_blit)

end
