(* ===== verification/Hw.thy ===== *)
theory Hw
  imports Prelude
begin

text \<open>
  The constants and address macros of \<^verbatim>\<open>kernel/param.h\<close>, \<^verbatim>\<open>kernel/memlayout.h\<close> and
  \<^verbatim>\<open>kernel/riscv.h\<close>: page size and rounding, page-table entries, the three 9-bit
  page-table indices of an Sv39 virtual address, and the physical and virtual layouts.
\<close>

text \<open>Modes of \<^verbatim>\<open>kernel/fcntl.h\<close>.\<close>

definition O_RDONLY :: u32 where [simp]: "O_RDONLY = 0x000"
definition O_WRONLY :: u32 where [simp]: "O_WRONLY = 0x001"
definition O_RDWR :: u32 where [simp]: "O_RDWR = 0x002"
definition O_CREATE :: u32 where [simp]: "O_CREATE = 0x200"
definition O_TRUNC :: u32 where [simp]: "O_TRUNC = 0x400"

section \<open>Parameters\<close>

definition NPROC :: nat where [simp]: "NPROC = 64"
definition NCPU :: nat where [simp]: "NCPU = 8"
definition NOFILE :: nat where [simp]: "NOFILE = 16"
definition NFILE :: nat where [simp]: "NFILE = 100"
definition NINODE :: nat where [simp]: "NINODE = 50"
definition NDEV :: nat where [simp]: "NDEV = 10"
definition ROOTDEV :: u32 where [simp]: "ROOTDEV = 1"
definition MAXARG :: nat where [simp]: "MAXARG = 32"
definition MAXOPBLOCKS :: nat where [simp]: "MAXOPBLOCKS = 10"
definition LOGSIZE :: nat where [simp]: "LOGSIZE = MAXOPBLOCKS * 3"
definition NBUF :: nat where [simp]: "NBUF = MAXOPBLOCKS * 3"
definition FSSIZE :: nat where [simp]: "FSSIZE = 2000"
definition MAXPATH :: nat where [simp]: "MAXPATH = 128"

section \<open>Pages\<close>

definition PGSIZE :: u64 where [simp]: "PGSIZE = 4096"

definition PGROUNDUP :: "u64 \<Rightarrow> u64" where
  "PGROUNDUP sz = (sz + PGSIZE - 1) AND NOT (PGSIZE - 1)"

definition PGROUNDDOWN :: "u64 \<Rightarrow> u64" where
  "PGROUNDDOWN a = a AND NOT (PGSIZE - 1)"

section \<open>Page-table entries\<close>

definition PTE_V :: u64 where [simp]: "PTE_V = 1"
definition PTE_R :: u64 where [simp]: "PTE_R = 2"
definition PTE_W :: u64 where [simp]: "PTE_W = 4"
definition PTE_X :: u64 where [simp]: "PTE_X = 8"
definition PTE_U :: u64 where [simp]: "PTE_U = 16"

definition PA2PTE :: "u64 \<Rightarrow> u64" where
  "PA2PTE pa = push_bit 10 (drop_bit 12 pa)"

definition PTE2PA :: "u64 \<Rightarrow> u64" where
  "PTE2PA pte = push_bit 12 (drop_bit 10 pte)"

definition PTE_FLAGS :: "u64 \<Rightarrow> u64" where
  "PTE_FLAGS pte = pte AND 0x3FF"

definition PXSHIFT :: "nat \<Rightarrow> nat" where
  "PXSHIFT level = 12 + 9 * level"

definition PX :: "nat \<Rightarrow> u64 \<Rightarrow> u64" where
  "PX level va = drop_bit (PXSHIFT level) va AND 0x1FF"

definition MAXVA :: u64 where [simp]: "MAXVA = 0x4000000000"

text \<open>The value of the \<open>satp\<close> register for a page table: Sv39 mode and the page number.\<close>

definition MAKE_SATP :: "u64 \<Rightarrow> u64" where
  "MAKE_SATP pagetable = push_bit 60 8 OR drop_bit 12 pagetable"

section \<open>Address-space layout\<close>

definition UART0 :: u64 where [simp]: "UART0 = 0x10000000"
definition VIRTIO0 :: u64 where [simp]: "VIRTIO0 = 0x10001000"
definition PLIC :: u64 where [simp]: "PLIC = 0x0c000000"
definition KERNBASE :: u64 where [simp]: "KERNBASE = 0x80000000"
definition PHYSTOP :: u64 where "PHYSTOP = KERNBASE + 128 * 1024 * 1024"
definition TRAMPOLINE :: u64 where "TRAMPOLINE = MAXVA - PGSIZE"
definition TRAPFRAME :: u64 where "TRAPFRAME = TRAMPOLINE - PGSIZE"

definition KSTACK :: "nat \<Rightarrow> u64" where
  "KSTACK p = TRAMPOLINE - of_nat (p + 1) * 2 * PGSIZE"

lemma layout_values [simp]:
  "PHYSTOP = 0x88000000" "TRAMPOLINE = 0x3FFFFFF000" "TRAPFRAME = 0x3FFFFFE000"
  by (simp_all add: PHYSTOP_def TRAMPOLINE_def TRAPFRAME_def)

section \<open>Facts on pages and entries\<close>

definition page_aligned :: "u64 \<Rightarrow> bool" where
  "page_aligned a \<longleftrightarrow> a mod PGSIZE = 0"

lemma page_aligned_unat: "page_aligned a \<longleftrightarrow> unat a mod 4096 = 0"
proof -
  have "unat (a mod 4096) = unat a mod 4096" by (simp add: unat_mod_distrib)
  then show ?thesis by (metis PGSIZE_def page_aligned_def unat_eq_zero)
qed

lemma mask9: "(0x1FF :: u64) = mask 9"
  by (simp add: mask_eq_exp_minus_1)

lemma mask10: "(0x3FF :: u64) = mask 10"
  by (simp add: mask_eq_exp_minus_1)

lemma PGROUNDDOWN_mask: "PGROUNDDOWN a = a AND NOT (mask 12)"
  by (simp add: PGROUNDDOWN_def mask_eq_exp_minus_1)

text \<open>A word below a power of two has no bit at or above it.\<close>

lemma bit_less_exp:
  fixes w :: "'a::len word"
  assumes "unat w < 2 ^ n" and "bit w k"
  shows "k < n"
proof -
  have "take_bit n (unat w) = unat w" using assms(1) by (rule take_bit_nat_eq_self)
  moreover have "bit (unat w) k" using assms(2) by (simp add: bit_unsigned_iff)
  ultimately show ?thesis by (metis bit_take_bit_iff)
qed

lemma PGROUNDDOWN_shift: "PGROUNDDOWN a = push_bit 12 (drop_bit 12 a)"
  by (rule bit_eqI) (auto simp: PGROUNDDOWN_mask bit_simps)

lemma unat_PGROUNDDOWN: "unat (PGROUNDDOWN a) = unat a div 4096 * 4096"
proof -
  have "unat a div 4096 * 4096 < 2 ^ 64"
    using unsigned_less [of a, where ?'a = nat] by (simp add: order_le_less_trans [OF div_times_less_eq_dividend])
  then show ?thesis
    by (simp add: PGROUNDDOWN_shift push_bit_eq_mult unat_word_ariths unat_drop_bit_eq drop_bit_eq_div)
qed

lemma page_aligned_PGROUNDDOWN [simp]: "page_aligned (PGROUNDDOWN a)"
  by (simp add: page_aligned_unat unat_PGROUNDDOWN)

lemma PGROUNDDOWN_id [simp]: "page_aligned a \<Longrightarrow> PGROUNDDOWN a = a"
  by (rule word_unat_eq_iff [THEN iffD2]) (auto simp: unat_PGROUNDDOWN page_aligned_unat)

lemma PGROUNDDOWN_le: "PGROUNDDOWN a \<le> a"
  by (simp add: word_le_nat_alt unat_PGROUNDDOWN)

lemma PGROUNDUP_DOWN: "PGROUNDUP a = PGROUNDDOWN (a + 4095)"
  by (simp add: PGROUNDUP_def PGROUNDDOWN_def add.commute)

lemma unat_PGROUNDUP:
  "unat a + 4095 < 2 ^ 64 \<Longrightarrow> unat (PGROUNDUP a) = (unat a + 4095) div 4096 * 4096"
proof -
  assume a: "unat a + 4095 < 2 ^ 64"
  have "unat (a + 4095) = unat a + 4095"
    using a by (simp add: unat_word_ariths)
  then show ?thesis
    using unat_PGROUNDDOWN [of "a + 4095"] by (simp add: PGROUNDUP_DOWN)
qed

lemma page_aligned_PGROUNDUP [simp]: "page_aligned (PGROUNDUP a)"
  by (simp add: PGROUNDUP_DOWN)

lemma page_alignedE:
  assumes "page_aligned a"
  obtains k where "unat a = 4096 * k"
proof -
  have "4096 dvd unat a" using assms by (simp add: page_aligned_unat mod_eq_0_iff_dvd)
  then show ?thesis using that by (auto elim: dvdE)
qed

lemma PGROUNDUP_bounds:
  assumes "unat a + 4095 < 2 ^ 64"
  shows "unat a \<le> unat (PGROUNDUP a)" "unat (PGROUNDUP a) < unat a + 4096"
proof -
  let ?q = "(unat a + 4095) div 4096" and ?r = "(unat a + 4095) mod 4096"
  have "unat a + 4095 = ?q * 4096 + ?r" "?r < 4096" by simp_all
  then show "unat a \<le> unat (PGROUNDUP a)" "unat (PGROUNDUP a) < unat a + 4096"
    unfolding unat_PGROUNDUP [OF assms] by linarith+
qed

lemma PGROUNDUP_le_iff:
  assumes "unat a + 4095 < 2 ^ 64" "page_aligned q"
  shows "PGROUNDUP a \<le> q \<longleftrightarrow> a \<le> q"
proof -
  obtain j k where "unat q = 4096 * j" "unat (PGROUNDUP a) = 4096 * k"
    using assms(2) page_aligned_PGROUNDUP by (metis page_alignedE)
  with PGROUNDUP_bounds [OF assms(1)] show ?thesis by (auto simp: word_le_nat_alt)
qed

lemma PTE2PA_aligned [simp]: "page_aligned (PTE2PA pte)"
proof -
  have "PTE2PA pte = PGROUNDDOWN (PTE2PA pte)"
    by (rule bit_eqI) (auto simp: PTE2PA_def PGROUNDDOWN_shift bit_simps)
  then show ?thesis by (metis page_aligned_PGROUNDDOWN)
qed

text \<open>An entry made from an aligned physical address and flag bits gives both back.\<close>

lemma flags_bit_bound: "f < 1024 \<Longrightarrow> bit (f::u64) k \<Longrightarrow> k < 10"
  by (rule bit_less_exp [of f]) (simp_all add: word_less_nat_alt)

lemma PTE2PA_PA2PTE:
  assumes "page_aligned pa" and "f < 1024"
  shows "PTE2PA (PA2PTE pa OR f) = pa"
proof -
  have "bit (PTE2PA (PA2PTE pa OR f)) k = bit (PGROUNDDOWN pa) k" for k
    using flags_bit_bound [OF assms(2), of "k - 2"]
    by (auto simp: PTE2PA_def PA2PTE_def PGROUNDDOWN_shift bit_simps dest: flags_bit_bound [OF assms(2)])
  then have "PTE2PA (PA2PTE pa OR f) = PGROUNDDOWN pa" by (rule bit_eqI)
  with assms(1) show ?thesis by simp
qed

lemma PTE_FLAGS_PA2PTE:
  assumes "f < 1024"
  shows "PTE_FLAGS (PA2PTE pa OR f) = f"
  unfolding PTE_FLAGS_def mask10
  by (rule bit_eqI) (use flags_bit_bound [OF assms] in \<open>auto simp: PA2PTE_def bit_simps\<close>)

lemma PX_less: "unat (PX l va) < 512"
proof -
  have "PX l va \<le> 0x1FF" by (simp add: PX_def word_and_le1)
  then show ?thesis by (simp add: word_le_nat_alt)
qed

lemma bit_PX: "bit (PX l va) k \<longleftrightarrow> k < 9 \<and> bit va (12 + 9 * l + k)"
  unfolding PX_def PXSHIFT_def mask9 by (auto simp: bit_simps)

text \<open>Below \<open>MAXVA\<close> the three indices and the page offset determine an address.\<close>

lemma PX_inj:
  assumes "va < MAXVA" "vb < MAXVA"
    and "PX 2 va = PX 2 vb" "PX 1 va = PX 1 vb" "PX 0 va = PX 0 vb"
  shows "PGROUNDDOWN va = PGROUNDDOWN vb"
proof -
  have up: "\<not> bit va k" "\<not> bit vb k" if "39 \<le> k" for k
    using assms(1,2) that bit_less_exp [of va 38 k] bit_less_exp [of vb 38 k]
    by (auto simp: word_less_nat_alt)
  have hi: "bit va k = bit vb k" if "12 \<le> k" for k
  proof -
    consider "k < 21" | "21 \<le> k" "k < 30" | "30 \<le> k" "k < 39" | "39 \<le> k" by linarith
    then show ?thesis
    proof cases
      case 1 then show ?thesis
        using assms(5) that bit_PX [of 0 va "k - 12"] bit_PX [of 0 vb "k - 12"] by (simp, linarith)
    next
      case 2 then show ?thesis
        using assms(4) bit_PX [of 1 va "k - 21"] bit_PX [of 1 vb "k - 21"] by (simp, linarith)
    next
      case 3 then show ?thesis
        using assms(3) bit_PX [of 2 va "k - 30"] bit_PX [of 2 vb "k - 30"] by (simp, linarith)
    next
      case 4 then show ?thesis using up by simp
    qed
  qed
  show ?thesis
    by (rule bit_eqI) (use hi in \<open>auto simp: PGROUNDDOWN_shift bit_simps\<close>)
qed

end
