(* ===== verification/Cstring.thy ===== *)
theory Cstring
  imports Hw
begin

text \<open>
  The byte-string routines of \<^verbatim>\<open>kernel/string.c\<close> and \<^verbatim>\<open>user/ulib.c\<close>.

  Routines that write through a pointer take the memory and return it updated
  (\<open>memset\<close>, \<open>memmove\<close>). Routines that only read take a \<^emph>\<open>reader\<close>, the bytes found at
  successive offsets of a pointer (\<open>\<lambda>i. m (p + of_nat i)\<close> for memory, \<open>\<lambda>i. xs ! i\<close> for an
  array). The bounded copies \<open>strncpy\<close> and \<open>safestrcpy\<close> give the bytes they store at the
  destination. A plain \<open>char\<close> is unsigned on RISC-V.
\<close>

section \<open>Kernel routines\<close>

definition memset :: "mem \<Rightarrow> u64 \<Rightarrow> u8 \<Rightarrow> nat \<Rightarrow> mem" where
  "memset m dst c n = fold (\<lambda>i m. m(dst + of_nat i := c)) [0..<n] m"

fun memcmp :: "(nat \<Rightarrow> u8) \<Rightarrow> (nat \<Rightarrow> u8) \<Rightarrow> nat \<Rightarrow> nat \<Rightarrow> int" where
  "memcmp s1 s2 i 0 = 0"
| "memcmp s1 s2 i (Suc n) =
     (if s1 i \<noteq> s2 i then uint (s1 i) - uint (s2 i) else memcmp s1 s2 (Suc i) n)"

fun move_fwd :: "mem \<Rightarrow> u64 \<Rightarrow> u64 \<Rightarrow> nat \<Rightarrow> mem" where
  "move_fwd m d s 0 = m"
| "move_fwd m d s (Suc n) = move_fwd (m(d := m s)) (d + 1) (s + 1) n"

fun move_bwd :: "mem \<Rightarrow> u64 \<Rightarrow> u64 \<Rightarrow> nat \<Rightarrow> mem" where
  "move_bwd m d s 0 = m"
| "move_bwd m d s (Suc n) = move_bwd (m(d - 1 := m (s - 1))) (d - 1) (s - 1) n"

definition memmove :: "mem \<Rightarrow> u64 \<Rightarrow> u64 \<Rightarrow> nat \<Rightarrow> mem" where
  "memmove m dst src n =
     (if n = 0 then m
      else if src < dst \<and> src + of_nat n > dst
      then move_bwd m (dst + of_nat n) (src + of_nat n) n
      else move_fwd m dst src n)"

definition memcpy :: "mem \<Rightarrow> u64 \<Rightarrow> u64 \<Rightarrow> nat \<Rightarrow> mem" where
  "memcpy m dst src n = memmove m dst src n"

fun strncmp :: "(nat \<Rightarrow> u8) \<Rightarrow> (nat \<Rightarrow> u8) \<Rightarrow> nat \<Rightarrow> nat \<Rightarrow> int" where
  "strncmp p q i 0 = 0"
| "strncmp p q i (Suc n) =
     (if p i \<noteq> 0 \<and> p i = q i then strncmp p q (Suc i) n
      else uint (p i) - uint (q i))"

fun strncpy :: "(nat \<Rightarrow> u8) \<Rightarrow> nat \<Rightarrow> nat \<Rightarrow> u8 list" where
  "strncpy t i 0 = []"
| "strncpy t i (Suc n) = (if t i \<noteq> 0 then t i # strncpy t (Suc i) n else 0 # replicate n 0)"

fun safestrcpy :: "(nat \<Rightarrow> u8) \<Rightarrow> nat \<Rightarrow> nat \<Rightarrow> u8 list" where
  "safestrcpy t i 0 = []"
| "safestrcpy t i (Suc 0) = [0]"
| "safestrcpy t i (Suc (Suc n)) =
     (if t i \<noteq> 0 then t i # safestrcpy t (Suc i) (Suc n) else [0, 0])"

partial_function (option) strlen :: "(nat \<Rightarrow> u8) \<Rightarrow> nat \<Rightarrow> nat option" where
  "strlen s n = (if s n = 0 then Some n else strlen s (Suc n))"

section \<open>User-library routines\<close>

text \<open>
  \<open>memmove\<close> of \<^verbatim>\<open>ulib.c\<close> decides the direction by \<open>src > dst\<close> alone.
\<close>

definition umemmove :: "mem \<Rightarrow> u64 \<Rightarrow> u64 \<Rightarrow> nat \<Rightarrow> mem" where
  "umemmove m dst src n =
     (if src > dst then move_fwd m dst src n
      else move_bwd m (dst + of_nat n) (src + of_nat n) n)"

partial_function (option) strcpy :: "(nat \<Rightarrow> u8) \<Rightarrow> nat \<Rightarrow> u8 list \<Rightarrow> u8 list option" where
  "strcpy t i acc =
     (if t i \<noteq> 0 then strcpy t (Suc i) (acc @ [t i]) else Some (acc @ [0]))"

partial_function (option) strcmp :: "(nat \<Rightarrow> u8) \<Rightarrow> (nat \<Rightarrow> u8) \<Rightarrow> nat \<Rightarrow> int option" where
  "strcmp p q i =
     (if p i \<noteq> 0 \<and> p i = q i then strcmp p q (Suc i) else Some (uint (p i) - uint (q i)))"

text \<open>The offset of the first \<open>c\<close> before the terminator, or the null pointer.\<close>

partial_function (option) strchr :: "(nat \<Rightarrow> u8) \<Rightarrow> u8 \<Rightarrow> nat \<Rightarrow> nat option option" where
  "strchr s c i =
     (if s i = 0 then Some None else if s i = c then Some (Some i) else strchr s c (Suc i))"

partial_function (option) atoi :: "(nat \<Rightarrow> u8) \<Rightarrow> nat \<Rightarrow> int \<Rightarrow> int option" where
  "atoi s i n =
     (if 48 \<le> s i \<and> s i \<le> 57 then atoi s (Suc i) (s32 (n * 10 + uint (s i) - 48)) else Some n)"

section \<open>Block operations\<close>

text \<open>
  The loop of \<open>memset\<close> overwrites exactly the \<open>n\<close> bytes from \<open>dst\<close>, addresses taken modulo
  \<open>2 ^ 64\<close>.
\<close>

lemma word_eq_offset:
  fixes a d :: u64
  assumes "i < 2 ^ 64"
  shows "a = d + of_nat i \<longleftrightarrow> unat (a - d) = i"
proof
  assume "a = d + of_nat i"
  then have "a - d = of_nat i" by simp
  then show "unat (a - d) = i" using assms by (simp add: unat_of_nat_lt)
next
  assume "unat (a - d) = i"
  then have "of_nat i = a - d" by auto
  then show "a = d + of_nat i" by simp
qed

lemma memset_apply:
  "n \<le> 2 ^ 64 \<Longrightarrow> memset m d c n a = (if unat (a - d) < n then c else m a)"
proof (induction n)
  case (Suc n)
  then have "a = d + of_nat n \<longleftrightarrow> unat (a - d) = n"
    by (intro word_eq_offset) simp
  with Suc show ?case by (auto simp: memset_def less_Suc_eq)
qed (simp add: memset_def)

text \<open>Both copy loops, away from the overlap that would break them, copy the old bytes.\<close>

lemma unat_diff_Suc:
  fixes a d :: u64
  assumes "a \<noteq> d"
  shows "unat (a - (d + 1)) = unat (a - d) - 1"
proof -
  have "a - d \<noteq> 0" using assms by simp
  then have "unat (a - d - 1) = unat (a - d) - 1" by (simp add: unat_minus_one)
  then show ?thesis by (simp add: diff_diff_add)
qed

lemma move_fwd_apply:
  assumes "unat d + n \<le> 2 ^ 64" "unat s + n \<le> 2 ^ 64" "unat d \<le> unat s \<or> unat s + n \<le> unat d"
  shows "move_fwd m d s n a = (if unat (a - d) < n then m (s + (a - d)) else m a)"
  using assms
proof (induction n arbitrary: m d s)
  case (Suc n)
  let ?m = "m(d := m s)"
  have "move_fwd ?m (d + 1) (s + 1) n a =
      (if unat (a - (d + 1)) < n then ?m (s + 1 + (a - (d + 1))) else ?m a)"
  proof (cases "n = 0")
    case False
    with Suc.prems have "unat (d + 1) = unat d + 1" "unat (s + 1) = unat s + 1"
      by (simp_all add: unat_word_ariths)
    with Suc.prems False show ?thesis by (intro Suc.IH) auto
  qed simp
  also have "s + 1 + (a - (d + 1)) = s + (a - d)" by simp
  finally have eq: "move_fwd m d s (Suc n) a =
      (if unat (a - (d + 1)) < n then ?m (s + (a - d)) else ?m a)"
    by (simp only: move_fwd.simps)
  show ?case
  proof (cases "a = d")
    case True
    have "a - (d + 1) = - 1" using True by simp
    then have "unat (a - (d + 1)) = 2 ^ 64 - 1"
      by (simp add: unsigned_minus_1_eq_mask mask_eq_exp_minus_1)
    moreover have "n \<le> 2 ^ 64 - 1" using Suc.prems by simp
    ultimately show ?thesis using eq True by simp
  next
    case False
    have "s + (a - d) \<noteq> d" if "unat (a - d) < Suc n"
    proof
      assume *: "s + (a - d) = d"
      let ?k = "unat (a - d)"
      have "?k \<noteq> 0" using False by (simp add: unat_eq_zero)
      have "unat s + ?k < 2 ^ 64" using that Suc.prems(2) by simp
      then have "unat (s + (a - d)) = unat s + ?k" by (simp add: unat_word_ariths)
      with * have "unat d = unat s + ?k" by metis
      with that \<open>?k \<noteq> 0\<close> Suc.prems(3) show False by linarith
    qed
    moreover have "unat (a - (d + 1)) < n \<longleftrightarrow> unat (a - d) < Suc n"
      using unat_diff_Suc [OF False] False unat_eq_zero [of "a - d"] by auto
    ultimately show ?thesis using eq False by auto
  qed
qed simp

lemma move_bwd_apply:
  assumes "unat d + n \<le> 2 ^ 64" "unat s + n \<le> 2 ^ 64" "unat s \<le> unat d \<or> unat d + n \<le> unat s"
  shows "move_bwd m (d + of_nat n) (s + of_nat n) n a =
           (if unat (a - d) < n then m (s + (a - d)) else m a)"
  using assms
proof (induction n arbitrary: m)
  case (Suc n)
  let ?m = "m(d + of_nat n := m (s + of_nat n))"
  have eq: "move_bwd m (d + of_nat (Suc n)) (s + of_nat (Suc n)) (Suc n) a =
      (if unat (a - d) < n then ?m (s + (a - d)) else ?m a)"
  proof -
    have s1: "d + of_nat (Suc n) - 1 = d + of_nat n" "s + of_nat (Suc n) - 1 = s + of_nat n"
      by simp_all
    have "move_bwd ?m (d + of_nat n) (s + of_nat n) n a =
        (if unat (a - d) < n then ?m (s + (a - d)) else ?m a)"
      by (rule Suc.IH) (use Suc.prems in auto)
    then show ?thesis by (simp only: move_bwd.simps s1)
  qed
  have n: "a = d + of_nat n \<longleftrightarrow> unat (a - d) = n"
    by (rule word_eq_offset) (use Suc.prems in simp)
  have "s + (a - d) \<noteq> d + of_nat n" if "unat (a - d) < n"
  proof
    assume *: "s + (a - d) = d + of_nat n"
    have "unat s + unat (a - d) < 2 ^ 64" "unat d + n < 2 ^ 64" using that Suc.prems by auto
    then have "unat (s + (a - d)) = unat s + unat (a - d)" "unat (d + of_nat n) = unat d + n"
      by (simp_all add: unat_word_ariths unat_of_nat_lt)
    with * have "unat s + unat (a - d) = unat d + n" by metis
    with that Suc.prems(3) show False by linarith
  qed
  with eq n show ?case by (auto simp: less_Suc_eq)
qed simp

lemma memmove_apply:
  assumes "unat dst + n \<le> 2 ^ 64" "unat src + n \<le> 2 ^ 64"
  shows "memmove m dst src n a = (if unat (a - dst) < n then m (src + (a - dst)) else m a)"
proof (cases "src < dst \<and> src + of_nat n > dst")
  case True
  then show ?thesis
    using move_bwd_apply [OF assms] by (auto simp: memmove_def word_less_nat_alt)
next
  case no_overlap: False
  show ?thesis
  proof (cases "n = 0")
    case False
    have "unat dst \<le> unat src \<or> unat src + n \<le> unat dst"
    proof (cases "unat src + n = 2 ^ 64")
      case True
      with assms show ?thesis by simp
    next
      case False
      with assms have "unat (src + of_nat n) = unat src + n"
        by (simp add: unat_word_ariths unat_of_nat_lt)
      with no_overlap show ?thesis by (auto simp: word_less_nat_alt)
    qed
    then show ?thesis
      using move_fwd_apply [OF assms] no_overlap by (auto simp: memmove_def)
  qed (simp add: memmove_def)
qed

section \<open>Strings\<close>

text \<open>The string a reader holds within its first \<open>n\<close> bytes.\<close>

definition cstr :: "(nat \<Rightarrow> u8) \<Rightarrow> nat \<Rightarrow> nat \<Rightarrow> u8 list" where
  "cstr p i n = takeWhile (\<lambda>c. c \<noteq> 0) (map p [i..<i + n])"

lemma cstr_0 [simp]: "cstr p i 0 = []"
  by (simp add: cstr_def)

lemma cstr_Suc: "cstr p i (Suc n) = (if p i = 0 then [] else p i # cstr p (Suc i) n)"
  by (simp add: cstr_def upt_conv_Cons del: upt_Suc)

lemma cstr_length: "length (cstr p i n) \<le> n"
  by (simp add: cstr_def length_takeWhile_le [THEN order_trans])

lemma cstr_nonzero: "0 \<notin> set (cstr p i n)"
  by (auto simp: cstr_def dest: set_takeWhileD)

lemma strncmp_eq_0: "strncmp p q i n = 0 \<longleftrightarrow> cstr p i n = cstr q i n"
  by (induction n arbitrary: i) (auto simp: cstr_Suc uint_0_iff simp flip: word_uint_eq_iff)

lemma memcmp_eq_0: "memcmp p q i n = 0 \<longleftrightarrow> (\<forall>j<n. p (i + j) = q (i + j))"
proof (induction n arbitrary: i)
  case (Suc n)
  show ?case by (auto simp: Suc less_Suc_eq_0_disj simp flip: word_uint_eq_iff)
qed simp

lemma strncpy_cstr:
  "strncpy t i n = cstr t i n @ replicate (n - length (cstr t i n)) 0"
  by (induction n arbitrary: i) (auto simp: cstr_Suc)

lemma length_strncpy [simp]: "length (strncpy t i n) = n"
  using cstr_length [of t i n] by (simp add: strncpy_cstr)

lemma cstr_list: "length xs = n \<Longrightarrow> cstr (\<lambda>j. xs ! j) 0 n = takeWhile (\<lambda>c. c \<noteq> 0) xs"
  by (auto simp: cstr_def map_nth)

lemma cstr_strncpy: "cstr (\<lambda>j. strncpy t i n ! j) 0 n = cstr t i n"
proof -
  have "takeWhile (\<lambda>c. c \<noteq> 0) (cstr t i n @ replicate k 0) = cstr t i n" for k
    using cstr_nonzero [of t i n] by (subst takeWhile_append2) (auto simp: takeWhile_replicate)
  then show ?thesis by (simp add: cstr_list) (simp add: strncpy_cstr)
qed

lemma safestrcpy_length: "length (safestrcpy t i n) \<le> n"
  by (induction t i n rule: safestrcpy.induct) auto

lemma safestrcpy_cstr:
  "\<exists>zs. safestrcpy t i (Suc n) = cstr t i n @ 0 # zs \<and> set zs \<subseteq> {0}"
proof (induction n arbitrary: i)
  case (Suc n)
  then show ?case using Suc [of "Suc i"] by (auto simp: cstr_Suc)
qed simp

lemma strlen_terminates:
  "s (n + k) = 0 \<Longrightarrow> (\<forall>j<k. s (n + j) \<noteq> 0) \<Longrightarrow> strlen s n = Some (n + k)"
proof (induction k arbitrary: n)
  case 0
  then show ?case by (simp add: strlen.simps)
next
  case (Suc k)
  have "s n \<noteq> 0" using Suc.prems(2) by (metis add.right_neutral zero_less_Suc)
  moreover have "strlen s (Suc n) = Some (Suc n + k)"
    by (rule Suc.IH) (use Suc.prems in \<open>auto simp: less_Suc_eq_0_disj\<close>)
  ultimately show ?case by (subst strlen.simps) simp
qed

section \<open>Properties\<close>

text \<open>
  C16: \<open>memmove\<close> copies \<open>n\<close> bytes even when source and destination overlap: every byte of the
  destination gets the value the corresponding source byte had before the call, and no other
  byte changes, for regions that do not wrap around the address space.
\<close>

theorem memmove_correct:
  assumes "unat dst + n \<le> 2 ^ 64" "unat src + n \<le> 2 ^ 64"
  shows "memmove m dst src n a = (if unat (a - dst) < n then m (src + (a - dst)) else m a)"
  using assms by (rule memmove_apply)

theorem memmove_correct_witness:
  "memmove (\<lambda>a. ucast a) 0x1002 0x1000 8 0x1005 = (3 :: u8)"
  using memmove_correct [of "0x1002" 8 "0x1000" "\<lambda>a. ucast a" "0x1005"] by simp

text \<open>
  The user library's \<open>memmove\<close>, written differently (it decides the direction by comparing
  the pointers only), has the same effect as the kernel's.
\<close>

lemma umemmove_eq_memmove:
  assumes "unat dst + n \<le> 2 ^ 64" "unat src + n \<le> 2 ^ 64"
  shows "umemmove m dst src n = memmove m dst src n"
proof
  fix a
  show "umemmove m dst src n a = memmove m dst src n a"
    using move_fwd_apply [OF assms] move_bwd_apply [OF assms] memmove_apply [OF assms]
    by (cases "src > dst") (simp_all add: umemmove_def word_less_nat_alt not_less)
qed

end
