(* ===== verification/Kalloc.thy ===== *)
theory Kalloc
  imports Cstring
begin

text \<open>
  The physical page allocator of \<^verbatim>\<open>kernel/kalloc.c\<close>. The free list is threaded through the
  free pages themselves: the first eight bytes of a free page hold the address of the next one.
  \<open>kend\<close> is the linker symbol \<open>end\<close>, the first address after the kernel image. The section
  that \<open>kmem.lock\<close> protects runs without interruption.
\<close>

section \<open>State and operations\<close>

record kmem =
  memory :: mem
  freelist :: u64
  kend :: u64

definition kfree :: "u64 \<Rightarrow> 'a kmem_scheme \<Rightarrow> (unit, 'a kmem_scheme) res" where
  "kfree pa s =
     (if pa mod PGSIZE \<noteq> 0 \<or> pa < kend s \<or> pa \<ge> PHYSTOP then Panic ''kfree''
      else let s = s\<lparr>memory := memset (memory s) pa 1 4096\<rparr>;
               s = s\<lparr>memory := store64 (memory s) pa (freelist s)\<rparr>
           in Ret () (s\<lparr>freelist := pa\<rparr>))"

definition kalloc :: "'a kmem_scheme \<Rightarrow> (u64, 'a kmem_scheme) res" where
  "kalloc s =
     (let r = freelist s;
          s = (if r \<noteq> 0 then s\<lparr>freelist := load64 (memory s) r\<rparr> else s);
          s = (if r \<noteq> 0 then s\<lparr>memory := memset (memory s) r 5 4096\<rparr> else s)
      in Ret r s)"

function freerange_loop :: "u64 \<Rightarrow> u64 \<Rightarrow> 'a kmem_scheme \<Rightarrow> (unit, 'a kmem_scheme) res" where
  "freerange_loop p pa_end s =
     (if p + PGSIZE \<le> pa_end
      then rbind (kfree p s) (\<lambda>_ s. freerange_loop (p + PGSIZE) pa_end s)
      else Ret () s)"
  by pat_completeness auto
termination
proof (relation "measure (\<lambda>(p, e, s). unat e - unat p)", simp)
  fix p e :: u64 and s s' :: "'a kmem_scheme" and u
  assume le: "p + PGSIZE \<le> e" and "kfree p s = Ret u s'"
  then have "p < PHYSTOP" by (auto simp: kfree_def split: if_splits)
  then have "unat (p + 4096) = unat p + 4096"
    by (simp add: word_less_nat_alt unat_word_ariths)
  with le show "((p + PGSIZE, e, s'), p, e, s) \<in> measure (\<lambda>(p, e, s). unat e - unat p)"
    by (simp add: word_le_nat_alt)
qed

declare freerange_loop.simps [simp del]

definition freerange :: "u64 \<Rightarrow> u64 \<Rightarrow> 'a kmem_scheme \<Rightarrow> (unit, 'a kmem_scheme) res" where
  "freerange pa_start pa_end s = freerange_loop (PGROUNDUP pa_start) pa_end s"

definition kinit :: "'a kmem_scheme \<Rightarrow> (unit, 'a kmem_scheme) res" where
  "kinit s = freerange (kend s) PHYSTOP s"

section \<open>Memory accesses and pages\<close>

lemma page_aligned_room:
  assumes "page_aligned p"
  shows "unat p + 4096 \<le> 2 ^ 64"
proof -
  obtain k where "unat p = 4096 * k" using assms by (rule page_alignedE)
  moreover have "unat p < 18446744073709551616"
    using unsigned_less [of p, where ?'a = nat] by simp
  ultimately show ?thesis by simp
qed

lemma unat_page_offset:
  assumes "page_aligned p" and "i < 4096"
  shows "unat (p + of_nat i) = unat p + i"
  using page_aligned_room [OF assms(1)] assms(2) by (simp add: unat_word_ariths unat_of_nat_lt)

lemma PGROUNDDOWN_iff:
  assumes "page_aligned p"
  shows "PGROUNDDOWN a = p \<longleftrightarrow> unat (a - p) < 4096"
proof
  assume "PGROUNDDOWN a = p"
  then have "unat p = unat a div 4096 * 4096" by (simp add: unat_PGROUNDDOWN flip: \<open>PGROUNDDOWN a = p\<close>)
  then have "unat p \<le> unat a" "unat a - unat p < 4096" by auto
  then show "unat (a - p) < 4096" by (simp add: unat_sub_if')
next
  assume lt: "unat (a - p) < 4096"
  have "a = p + of_nat (unat (a - p))" by simp
  then have "unat a = unat p + unat (a - p)"
    using unat_page_offset [OF assms lt] by metis
  moreover obtain k where "unat p = 4096 * k" using assms by (rule page_alignedE)
  ultimately have "unat (PGROUNDDOWN a) = unat p"
    using lt by (simp add: unat_PGROUNDDOWN)
  then show "PGROUNDDOWN a = p" by (simp add: word_unat_eq_iff)
qed

lemma PGROUNDDOWN_offset [simp]:
  "page_aligned p \<Longrightarrow> i < 4096 \<Longrightarrow> PGROUNDDOWN (p + of_nat i) = p"
  by (simp add: PGROUNDDOWN_iff unat_of_nat_lt)

text \<open>Filling a page changes that page only.\<close>

lemma memset_page:
  "page_aligned p \<Longrightarrow> memset m p c 4096 = (\<lambda>a. if PGROUNDDOWN a = p then c else m a)"
  by (auto simp: memset_apply PGROUNDDOWN_iff)

text \<open>An eight-byte access at a multiple of eight stays within its page.\<close>

definition dword_aligned :: "u64 \<Rightarrow> bool" where
  "dword_aligned a \<longleftrightarrow> unat a mod 8 = 0"

lemma page_aligned_dword [simp]: "page_aligned p \<Longrightarrow> dword_aligned p"
  using dvd_trans [of 8 4096 "unat p"] by (simp add: page_aligned_unat dword_aligned_def mod_eq_0_iff_dvd)

lemma dword_alignedE:
  assumes "dword_aligned a"
  obtains q where "unat a = 8 * q"
proof -
  have "8 dvd unat a" using assms by (simp add: dword_aligned_def mod_eq_0_iff_dvd)
  then show ?thesis using that by (auto elim: dvdE)
qed

lemma dword_room:
  assumes "dword_aligned a" "i < 8"
  shows "unat (a + of_nat i) = unat a + i"
proof -
  obtain q where "unat a = 8 * q" using assms(1) by (rule dword_alignedE)
  moreover have "unat a < 18446744073709551616"
    using unsigned_less [of a, where ?'a = nat] by simp
  ultimately have "unat a + 8 \<le> 18446744073709551616" by simp
  with assms(2) show ?thesis by (simp add: unat_word_ariths unat_of_nat_lt)
qed

lemma dword_page: "dword_aligned a \<Longrightarrow> i < 8 \<Longrightarrow> PGROUNDDOWN (a + of_nat i) = PGROUNDDOWN a"
proof -
  assume a: "dword_aligned a" "i < 8"
  then obtain q where "unat a = 8 * q" by (auto elim: dword_alignedE)
  then have "(unat a + i) div 8 div 512 = unat a div 8 div 512" using a by simp
  then have "(unat a + i) div 4096 = unat a div 4096" by (simp flip: div_mult2_eq)
  then show ?thesis
    using a by (simp add: word_unat_eq_iff unat_PGROUNDDOWN dword_room)
qed

lemma load64_page_cong:
  assumes "dword_aligned a" and "\<And>b. PGROUNDDOWN b = PGROUNDDOWN a \<Longrightarrow> m b = m' b"
  shows "load64 m a = load64 m' a"
  by (rule load64_cong) (simp add: assms dword_page)

lemma dword_disjoint:
  assumes "dword_aligned a" "dword_aligned b" "a \<noteq> b" "i < 8"
  shows "\<not> unat (b + of_nat i - a) < 8"
proof
  assume lt: "unat (b + of_nat i - a) < 8"
  let ?j = "unat (b + of_nat i - a)"
  have "b + of_nat i = a + of_nat ?j" by simp
  then have "unat b + i = unat a + ?j"
    using dword_room [OF assms(2,4)] dword_room [OF assms(1) lt] by metis
  moreover obtain q r where "unat a = 8 * q" "unat b = 8 * r"
    using assms(1,2) by (auto elim!: dword_alignedE)
  ultimately have "unat a = unat b" using assms(4) lt by simp
  with assms(3) show False by (simp add: word_unat_eq_iff)
qed

lemma load64_store64_other [simp]:
  "dword_aligned a \<Longrightarrow> dword_aligned b \<Longrightarrow> a \<noteq> b \<Longrightarrow> load64 (store64 m a v) b = load64 m b"
  by (rule load64_cong) (simp add: store64_def dword_disjoint)

lemma store64_other_page:
  assumes "dword_aligned a" "PGROUNDDOWN b \<noteq> PGROUNDDOWN a"
  shows "store64 m a v b = m b"
proof -
  have "\<not> unat (b - a) < 8"
  proof
    assume lt: "unat (b - a) < 8"
    have "b = a + of_nat (unat (b - a))" by simp
    then show False using dword_page [OF assms(1) lt] assms(2) by metis
  qed
  then show ?thesis by (simp add: store64_def)
qed

section \<open>The free list\<close>

text \<open>\<open>free_chain m h xs\<close>: starting at \<open>h\<close>, the links stored in memory visit the pages \<open>xs\<close>.\<close>

fun free_chain :: "mem \<Rightarrow> u64 \<Rightarrow> u64 list \<Rightarrow> bool" where
  "free_chain m h [] = (h = 0)"
| "free_chain m h (x # xs) = (h = x \<and> x \<noteq> 0 \<and> free_chain m (load64 m x) xs)"

text \<open>A page the allocator may hand out: what \<open>kfree\<close> accepts.\<close>

definition kpage :: "'a kmem_scheme \<Rightarrow> u64 \<Rightarrow> bool" where
  "kpage s p \<longleftrightarrow> page_aligned p \<and> kend s \<le> p \<and> p < PHYSTOP"

definition kmem_wf :: "'a kmem_scheme \<Rightarrow> u64 list \<Rightarrow> bool" where
  "kmem_wf s fl \<longleftrightarrow>
     kend s \<noteq> 0 \<and> free_chain (memory s) (freelist s) fl \<and> distinct fl \<and> (\<forall>p\<in>set fl. kpage s p)"

lemma kpage_aligned [simp]: "kpage s p \<Longrightarrow> page_aligned p"
  by (simp add: kpage_def)

lemma kpage_nonzero: "kend s \<noteq> 0 \<Longrightarrow> kpage s p \<Longrightarrow> p \<noteq> 0"
  unfolding kpage_def by auto

lemma kpage_update [simp]:
  "kpage (s\<lparr>memory := m\<rparr>) = kpage s" "kpage (s\<lparr>freelist := f\<rparr>) = kpage s"
  by (simp_all add: kpage_def fun_eq_iff)

lemma free_chain_cong:
  assumes "\<And>p b. p \<in> set fl \<Longrightarrow> PGROUNDDOWN b = p \<Longrightarrow> m b = m' b"
    and "\<And>p. p \<in> set fl \<Longrightarrow> page_aligned p"
  shows "free_chain m h fl = free_chain m' h fl"
  using assms
proof (induction fl arbitrary: h)
  case (Cons x xs)
  have "load64 m x = load64 m' x"
    by (rule load64_page_cong) (use Cons.prems in auto)
  with Cons show ?case by auto
qed simp

text \<open>
  The allocator's contract, over the ghost list of free pages: allocation pops it, freeing
  pushes onto it, and only the page handed over changes.
\<close>

lemma kalloc_empty: "kmem_wf s [] \<Longrightarrow> kalloc s = Ret 0 s"
  by (simp add: kmem_wf_def kalloc_def Let_def)

lemma kalloc_Cons:
  assumes "kmem_wf s (p # fl)"
  shows "\<exists>f. let s' = s\<lparr>freelist := f, memory := \<lambda>a. if PGROUNDDOWN a = p then 5 else memory s a\<rparr>
           in kalloc s = Ret p s' \<and> kmem_wf s' fl \<and> kpage s p \<and> p \<notin> set fl"
proof -
  have p: "freelist s = p" "p \<noteq> 0" "kpage s p" "p \<notin> set fl" "page_aligned p"
    and rest: "free_chain (memory s) (load64 (memory s) p) fl" "distinct fl"
      "\<forall>q\<in>set fl. kpage s q" "kend s \<noteq> 0"
    using assms by (auto simp: kmem_wf_def)
  let ?m = "\<lambda>a. if PGROUNDDOWN a = p then 5 else memory s a"
  have "free_chain ?m (load64 (memory s) p) fl = free_chain (memory s) (load64 (memory s) p) fl"
    by (rule free_chain_cong) (use p rest in auto)
  then show ?thesis
    using p rest
    by (intro exI [of _ "load64 (memory s) p"]) (simp add: kalloc_def Let_def memset_page kmem_wf_def)
qed

lemma kfree_wf:
  assumes "kmem_wf s fl" "kpage s p" "p \<notin> set fl"
  shows "\<exists>m. let s' = s\<lparr>freelist := p, memory := m\<rparr>
           in kfree p s = Ret () s' \<and> kmem_wf s' (p # fl) \<and> (\<forall>a. PGROUNDDOWN a \<noteq> p \<longrightarrow> m a = memory s a)"
proof -
  have p: "page_aligned p" "p \<noteq> 0" "kend s \<noteq> 0"
    using assms by (auto simp: kmem_wf_def dest: kpage_nonzero)
  let ?m = "store64 (memset (memory s) p 1 4096) p (freelist s)"
  have same: "?m a = memory s a" if "PGROUNDDOWN a \<noteq> p" for a
    using p that by (simp add: store64_other_page memset_page)
  have "free_chain ?m (freelist s) fl = free_chain (memory s) (freelist s) fl"
    by (rule free_chain_cong) (use assms in \<open>auto simp: kmem_wf_def intro!: same\<close>)
  then have "kmem_wf (s\<lparr>freelist := p, memory := ?m\<rparr>) (p # fl)"
    using assms p by (simp add: kmem_wf_def)
  moreover have "kfree p s = Ret () (s\<lparr>freelist := p, memory := ?m\<rparr>)"
    using assms(2) by (auto simp: kfree_def kpage_def page_aligned_def Let_def not_less not_le)
  ultimately show ?thesis using same by (intro exI [of _ ?m]) (simp add: Let_def)
qed

section \<open>The allocator as an interface\<close>

text \<open>A run of \<open>n\<close> allocations, collecting the addresses.\<close>

fun alloc_seq :: "('s \<Rightarrow> (u64, 's) res) \<Rightarrow> nat \<Rightarrow> 's \<Rightarrow> (u64 list, 's) res" where
  "alloc_seq al 0 s = Ret [] s"
| "alloc_seq al (Suc n) s =
     rbind (al s) (\<lambda>p s. rbind (alloc_seq al n s) (\<lambda>ps s. Ret (p # ps) s))"

locale page_allocator =
  fixes al :: "'s \<Rightarrow> (u64, 's) res"
    and fr :: "u64 \<Rightarrow> 's \<Rightarrow> (unit, 's) res"
    and wf :: "'s \<Rightarrow> u64 list \<Rightarrow> bool"
    and page :: "'s \<Rightarrow> u64 \<Rightarrow> bool"
  assumes wf_distinct: "wf s fl \<Longrightarrow> distinct fl"
    and wf_nonnull: "wf s fl \<Longrightarrow> 0 \<notin> set fl"
    and al_empty: "wf s [] \<Longrightarrow> al s = Ret 0 s"
    and al_Cons: "wf s (p # fl) \<Longrightarrow> \<exists>s'. al s = Ret p s' \<and> wf s' fl \<and> page s' = page s"
    and fr_wf: "wf s fl \<Longrightarrow> page s p \<Longrightarrow> p \<notin> set fl \<Longrightarrow>
      \<exists>s'. fr p s = Ret () s' \<and> wf s' (p # fl) \<and> page s' = page s"
begin

lemma alloc_seq_ok:
  assumes "wf s fl" "n \<le> length fl"
  shows "\<exists>s'. alloc_seq al n s = Ret (take n fl) s' \<and> wf s' (drop n fl)"
  using assms
proof (induction n arbitrary: s fl)
  case (Suc n)
  then obtain p ps where fl: "fl = p # ps" by (cases fl) auto
  with Suc.prems al_Cons obtain s1 where "al s = Ret p s1" "wf s1 ps" by metis
  with Suc fl show ?case by fastforce
qed simp

lemma alloc_seq_distinct:
  assumes "wf s fl" "n \<le> length fl"
  shows "wpr (alloc_seq al n s) (\<lambda>ps s'. distinct ps \<and> 0 \<notin> set ps \<and> length ps = n \<and>
           (\<exists>fl'. wf s' fl' \<and> set ps \<inter> set fl' = {} \<and> set ps \<union> set fl' = set fl))"
proof -
  from alloc_seq_ok [OF assms] obtain s' where
    s': "alloc_seq al n s = Ret (take n fl) s'" "wf s' (drop n fl)" by blast
  have "distinct (take n fl @ drop n fl)" using wf_distinct [OF assms(1)] by simp
  moreover have "set (take n fl) \<union> set (drop n fl) = set fl" by (metis append_take_drop_id set_append)
  moreover have "0 \<notin> set (take n fl)" using wf_nonnull [OF assms(1)] by (meson in_set_takeD)
  ultimately show ?thesis
    using s' assms(2) by (auto simp: wpr_iff simp del: append_take_drop_id)
qed

lemma alloc_after_free:
  assumes "wf s fl" "page s p" "p \<notin> set fl"
  shows "wpr (rbind (fr p s) (\<lambda>_ s. al s)) (\<lambda>q s'. q = p \<and> wf s' fl)"
proof -
  from fr_wf [OF assms] obtain s1 where "fr p s = Ret () s1" "wf s1 (p # fl)" by blast
  then show ?thesis using al_Cons by fastforce
qed

end

interpretation km: page_allocator kalloc kfree kmem_wf kpage
proof unfold_locales
  fix s :: "'a kmem_scheme" and p fl
  show "kmem_wf s fl \<Longrightarrow> distinct fl" by (simp add: kmem_wf_def)
  show "kmem_wf s fl \<Longrightarrow> 0 \<notin> set fl" by (auto simp: kmem_wf_def dest: kpage_nonzero)
  show "kmem_wf s [] \<Longrightarrow> kalloc s = Ret 0 s" by (rule kalloc_empty)
  show "kmem_wf s (p # fl) \<Longrightarrow> \<exists>s'. kalloc s = Ret p s' \<and> kmem_wf s' fl \<and> kpage s' = kpage s"
    using kalloc_Cons [of s p fl] by (auto simp: Let_def)
  show "kmem_wf s fl \<Longrightarrow> kpage s p \<Longrightarrow> p \<notin> set fl \<Longrightarrow>
      \<exists>s'. kfree p s = Ret () s' \<and> kmem_wf s' (p # fl) \<and> kpage s' = kpage s"
    using kfree_wf [of s fl p] by (auto simp: Let_def)
qed

section \<open>Initialisation\<close>

text \<open>The page addresses from \<open>p\<close> on, \<open>n\<close> of them.\<close>

definition page_list :: "u64 \<Rightarrow> nat \<Rightarrow> u64 list" where
  "page_list p n = map (\<lambda>i. p + of_nat i * 4096) [0..<n]"

lemma page_list_Suc: "page_list p (Suc n) = p # page_list (p + 4096) n"
  unfolding page_list_def
  by (simp add: upt_conv_Cons map_Suc_upt [symmetric] algebra_simps del: upt_Suc)

lemma freerange_loop_wf:
  assumes "kmem_wf s fl" "page_aligned p" "kend s \<le> p" "unat p + 4096 * n = unat PHYSTOP"
    and "\<forall>q\<in>set fl. q < p"
  shows "\<exists>s'. freerange_loop p PHYSTOP s = Ret () s' \<and> kmem_wf s' (rev (page_list p n) @ fl) \<and>
           kend s' = kend s"
  using assms
proof (induction n arbitrary: p s fl)
  case 0
  then have "\<not> p + PGSIZE \<le> PHYSTOP" by (simp add: word_le_nat_alt unat_word_ariths)
  then show ?case using 0 by (subst freerange_loop.simps) (simp add: page_list_def)
next
  case (Suc n)
  have un: "unat (p + 4096) = unat p + 4096"
    using Suc.prems(4) by (simp add: unat_word_ariths)
  have "kpage s p" unfolding kpage_def using Suc.prems(2-4) by (simp add: word_less_nat_alt)
  moreover have "p \<notin> set fl" using Suc.prems(5) by auto
  ultimately obtain s1 m where s1: "kfree p s = Ret () s1" "kmem_wf s1 (p # fl)"
      "s1 = s\<lparr>freelist := p, memory := m\<rparr>"
    using kfree_wf [OF Suc.prems(1)] unfolding Let_def by blast
  have "page_aligned (p + 4096)"
    using Suc.prems(2) by (simp add: page_aligned_unat un)
  moreover have "kend s1 \<le> p + 4096" "\<forall>q\<in>set (p # fl). q < p + 4096"
    using Suc.prems(3,5) s1(3) un by (auto simp: word_le_nat_alt word_less_nat_alt)
  ultimately obtain s' where s': "freerange_loop (p + 4096) PHYSTOP s1 = Ret () s'"
      "kmem_wf s' (rev (page_list (p + 4096) n) @ p # fl)" "kend s' = kend s1"
    using Suc.IH [OF s1(2), of "p + 4096"] Suc.prems(4) un by auto
  have "p + PGSIZE \<le> PHYSTOP" using Suc.prems(4) un by (simp add: word_le_nat_alt)
  then show ?case using s1 s' by (subst freerange_loop.simps) (simp add: page_list_Suc)
qed

lemma set_page_list:
  assumes "page_aligned p" "unat p + 4096 * n < 2 ^ 64"
  shows "set (page_list p n) = {q. page_aligned q \<and> p \<le> q \<and> unat q < unat p + 4096 * n}"
proof -
  have un: "unat (p + of_nat i * 4096) = unat p + 4096 * i" if "i < n" for i
    using assms(2) that by (simp add: unat_word_ariths unat_of_nat)
  obtain k where k: "unat p = 4096 * k" using assms(1) by (rule page_alignedE)
  show ?thesis
  proof (intro set_eqI iffI)
    fix q assume "q \<in> set (page_list p n)"
    then obtain i where "i < n" "q = p + of_nat i * 4096" by (auto simp: page_list_def)
    with un [of i] k show "q \<in> {q. page_aligned q \<and> p \<le> q \<and> unat q < unat p + 4096 * n}"
      by (simp add: page_aligned_unat word_le_nat_alt)
  next
    fix q assume q: "q \<in> {q. page_aligned q \<and> p \<le> q \<and> unat q < unat p + 4096 * n}"
    then obtain j where j: "unat q = 4096 * j" by (auto elim: page_alignedE)
    with q k have i: "j - k < n" "unat q = unat p + 4096 * (j - k)"
      by (auto simp: word_le_nat_alt)
    then have "q = p + of_nat (j - k) * 4096" using un [of "j - k"] by (simp add: word_unat_eq_iff)
    with i show "q \<in> set (page_list p n)" by (auto simp: page_list_def)
  qed
qed

text \<open>
  C13: \<open>kinit\<close> succeeds and puts every whole page between the end of the kernel image and
  \<open>PHYSTOP\<close> on the free list, each exactly once.
\<close>

theorem kinit_frees_all:
  assumes "KERNBASE \<le> kend s" "kend s < PHYSTOP" "freelist s = 0"
  shows "wpr (kinit s) (\<lambda>_ s'. \<exists>fl. kmem_wf s' fl \<and> set fl = {p. kpage s p})"
proof -
  let ?p = "PGROUNDUP (kend s)"
  have lt: "unat (kend s) < 0x88000000" "unat (kend s) \<ge> 0x80000000"
    using assms by (simp_all add: word_less_nat_alt word_le_nat_alt)
  then have ok: "unat (kend s) + 4095 < 2 ^ 64" by simp
  note ge = PGROUNDUP_bounds(1) [OF ok]
  have le: "unat ?p \<le> 0x88000000"
    using PGROUNDUP_le_iff [OF ok, of PHYSTOP] assms(2)
    by (simp add: word_le_nat_alt word_less_nat_alt page_aligned_unat)
  obtain k where k: "unat ?p = 4096 * k"
    using page_aligned_PGROUNDUP [of "kend s"] by (rule page_alignedE)
  define n where "n = 0x88000 - k"
  have n: "unat ?p + 4096 * n = unat PHYSTOP" using k le by (simp add: n_def)
  have "kmem_wf s []" using assms by (auto simp: kmem_wf_def)
  then obtain s' where s': "freerange_loop ?p PHYSTOP s = Ret () s'"
      "kmem_wf s' (rev (page_list ?p n))"
    using freerange_loop_wf [of s "[]" ?p n] n ge by (auto simp: word_le_nat_alt)
  have "set (page_list ?p n) = {q. page_aligned q \<and> ?p \<le> q \<and> unat q < unat PHYSTOP}"
    using set_page_list [of ?p n] n by simp
  also have "\<dots> = {p. kpage s p}"
    unfolding kpage_def using PGROUNDUP_le_iff [OF ok] by (simp add: word_less_nat_alt cong: conj_cong)
  finally show ?thesis using s' by (auto simp: kinit_def freerange_def wpr_iff)
qed

section \<open>Guarantees to the callers\<close>

text \<open>One empty page-table page at the last page but one, the last page free.\<close>

definition machine0 :: kmem where
  "machine0 = \<lparr>memory = \<lambda>_. 0, freelist = 0x87fff000, kend = 0x80022000\<rparr>"

lemma load64_zero [simp]: "load64 (\<lambda>_. 0) a = 0"
  by (simp add: load64_def)

lemma concrete_aligned [simp]:
  "page_aligned 0" "page_aligned 0x1000" "page_aligned 0x87fff000" "page_aligned 0x87ffe000"
  "page_aligned 0x87ffd000" "page_aligned 0x87ffc000" "page_aligned 0x87ffb000"
  by (simp_all add: page_aligned_unat)

lemma machine0_kmem_wf: "kmem_wf machine0 [0x87fff000]"
  by (simp add: kmem_wf_def machine0_def kpage_def)

theorem kinit_frees_all_witness:
  "wpr (kinit (machine0\<lparr>freelist := 0\<rparr>)) (\<lambda>_ s'. \<exists>fl. kmem_wf s' fl \<and> set fl = {p. kpage machine0 p})"
  using kinit_frees_all [of "machine0\<lparr>freelist := 0\<rparr>"] by (simp add: machine0_def kpage_def)

text \<open>
  C14: as long as the free list is long enough, \<open>n\<close> calls of \<open>kalloc\<close> return \<open>n\<close> different
  non-null pages, none of which stays on the free list, and no page is lost.
\<close>

theorem kalloc_distinct:
  assumes "kmem_wf s fl" "n \<le> length fl"
  shows "wpr (alloc_seq kalloc n s) (\<lambda>ps s'. distinct ps \<and> 0 \<notin> set ps \<and> length ps = n \<and>
           (\<exists>fl'. kmem_wf s' fl' \<and> set ps \<inter> set fl' = {} \<and> set ps \<union> set fl' = set fl))"
  using assms by (rule km.alloc_seq_distinct)

theorem kalloc_distinct_witness:
  "wpr (alloc_seq kalloc 1 machine0) (\<lambda>ps s'. distinct ps \<and> 0 \<notin> set ps \<and> length ps = 1 \<and>
           (\<exists>fl'. kmem_wf s' fl' \<and> set ps \<inter> set fl' = {} \<and> set ps \<union> set fl' = {0x87fff000}))"
  using kalloc_distinct [OF machine0_kmem_wf, of 1] by simp

text \<open>
  C15: a page that is freed can be allocated again: \<open>kfree\<close> accepts any page of the allocator's
  range that is not free already, and the next \<open>kalloc\<close> returns it and restores the free list.
\<close>

theorem kfree_kalloc:
  assumes "kmem_wf s fl" "kpage s p" "p \<notin> set fl"
  shows "wpr (rbind (kfree p s) (\<lambda>_ s. kalloc s)) (\<lambda>q s'. q = p \<and> kmem_wf s' fl)"
  using assms by (rule km.alloc_after_free)

theorem kfree_kalloc_witness:
  "wpr (rbind (kfree 0x87ffe000 machine0) (\<lambda>_ s. kalloc s)) (\<lambda>q s'. q = 0x87ffe000 \<and> kmem_wf s' [0x87fff000])"
  using kfree_kalloc [OF machine0_kmem_wf, of "0x87ffe000"] by (simp add: kpage_def machine0_def)

end
