(* ===== verification/Asm.thy ===== *)
theory Asm
  imports Kalloc
begin

text \<open>
  The assembly of the kernel: the trampoline, \<^verbatim>\<open>kernel/trampoline.S\<close>, the context switch,
  \<^verbatim>\<open>kernel/swtch.S\<close>, the kernel and timer trap vectors, \<^verbatim>\<open>kernel/kernelvec.S\<close>, and the boot code,
  \<^verbatim>\<open>kernel/entry.S\<close> with \<^verbatim>\<open>kernel/start.c\<close>. Each routine is the list of its instructions, run by an
  interpreter of the few RISC-V instructions that occur; the jump at its end is part of the result.
  Address translation is a parameter \<open>mmu\<close>, from the \<open>satp\<close> register and a virtual address.
\<close>

section \<open>Instructions\<close>

datatype reg = Rra | Rsp | Rgp | Rtp | Rt0 | Rt1 | Rt2 | Rs0 | Rs1 | Ra0 | Ra1 | Ra2 | Ra3 | Ra4 | Ra5 | Ra6 | Ra7
  | Rs2 | Rs3 | Rs4 | Rs5 | Rs6 | Rs7 | Rs8 | Rs9 | Rs10 | Rs11 | Rt3 | Rt4 | Rt5 | Rt6

datatype csr_name = Csscratch | Csatp | Cmscratch | Csip | Cmhartid | Cmstatus | Cmepc | Cmedeleg | Cmideleg | Csie
  | Cpmpaddr0 | Cpmpcfg0 | Cmtvec | Cmie

datatype instr = Sd reg nat reg | Ld reg nat reg | Addi reg reg int | Add reg reg reg | Mul reg reg reg | Li reg u64
  | Csrw csr_name reg | Csrr reg csr_name | Csrrw reg csr_name reg | Sfence_vma

record hw =
  hw_reg :: "reg \<Rightarrow> u64"
  hw_csr :: "csr_name \<Rightarrow> u64"
  hw_mem :: mem

definition setr :: "reg \<Rightarrow> u64 \<Rightarrow> hw \<Rightarrow> hw" where
  "setr r v s = s\<lparr>hw_reg := (hw_reg s)(r := v)\<rparr>"

definition setc :: "csr_name \<Rightarrow> u64 \<Rightarrow> hw \<Rightarrow> hw" where
  "setc c v s = s\<lparr>hw_csr := (hw_csr s)(c := v)\<rparr>"

type_synonym mmu = "u64 \<Rightarrow> u64 \<Rightarrow> u64"

definition ea :: "mmu \<Rightarrow> reg \<Rightarrow> nat \<Rightarrow> hw \<Rightarrow> u64" where
  "ea mmu b off s = mmu (hw_csr s Csatp) (hw_reg s b + of_nat off)"

fun exec1 :: "mmu \<Rightarrow> instr \<Rightarrow> hw \<Rightarrow> hw" where
  "exec1 mmu (Sd r off b) s = s\<lparr>hw_mem := store64 (hw_mem s) (ea mmu b off s) (hw_reg s r)\<rparr>"
| "exec1 mmu (Ld r off b) s = setr r (load64 (hw_mem s) (ea mmu b off s)) s"
| "exec1 mmu (Addi rd rs i) s = setr rd (hw_reg s rs + of_int i) s"
| "exec1 mmu (Add rd r1 r2) s = setr rd (hw_reg s r1 + hw_reg s r2) s"
| "exec1 mmu (Mul rd r1 r2) s = setr rd (hw_reg s r1 * hw_reg s r2) s"
| "exec1 mmu (Li rd v) s = setr rd v s"
| "exec1 mmu (Csrw c r) s = setc c (hw_reg s r) s"
| "exec1 mmu (Csrr rd c) s = setr rd (hw_csr s c) s"
| "exec1 mmu (Csrrw rd c r) s = setr rd (hw_csr s c) (setc c (hw_reg s r) s)"
| "exec1 mmu Sfence_vma s = s"

definition run_code :: "mmu \<Rightarrow> instr list \<Rightarrow> hw \<Rightarrow> hw" where
  "run_code mmu p s = fold (exec1 mmu) p s"

section \<open>The trampoline\<close>

definition uservec_code :: "instr list" where
  "uservec_code =
    [Csrw Csscratch Ra0, Li Ra0 TRAPFRAME, Sd Rra 40 Ra0, Sd Rsp 48 Ra0, Sd Rgp 56 Ra0, Sd Rtp 64 Ra0, Sd Rt0 72 Ra0,
     Sd Rt1 80 Ra0, Sd Rt2 88 Ra0, Sd Rs0 96 Ra0, Sd Rs1 104 Ra0, Sd Ra1 120 Ra0, Sd Ra2 128 Ra0, Sd Ra3 136 Ra0,
     Sd Ra4 144 Ra0, Sd Ra5 152 Ra0, Sd Ra6 160 Ra0, Sd Ra7 168 Ra0, Sd Rs2 176 Ra0, Sd Rs3 184 Ra0, Sd Rs4 192 Ra0,
     Sd Rs5 200 Ra0, Sd Rs6 208 Ra0, Sd Rs7 216 Ra0, Sd Rs8 224 Ra0, Sd Rs9 232 Ra0, Sd Rs10 240 Ra0, Sd Rs11 248 Ra0,
     Sd Rt3 256 Ra0, Sd Rt4 264 Ra0, Sd Rt5 272 Ra0, Sd Rt6 280 Ra0, Csrr Rt0 Csscratch, Sd Rt0 112 Ra0, Ld Rsp 8 Ra0,
     Ld Rtp 32 Ra0, Ld Rt0 16 Ra0, Ld Rt1 0 Ra0, Sfence_vma, Csrw Csatp Rt1, Sfence_vma]"

text \<open>The jump to the address in \<open>t0\<close>.\<close>

definition uservec :: "mmu \<Rightarrow> hw \<Rightarrow> u64 \<times> hw" where
  "uservec mmu s = (let s = run_code mmu uservec_code s in (hw_reg s Rt0, s))"

definition userret_code :: "instr list" where
  "userret_code =
    [Sfence_vma, Csrw Csatp Ra0, Sfence_vma, Li Ra0 TRAPFRAME, Ld Rra 40 Ra0, Ld Rsp 48 Ra0, Ld Rgp 56 Ra0, Ld Rtp 64 Ra0,
     Ld Rt0 72 Ra0, Ld Rt1 80 Ra0, Ld Rt2 88 Ra0, Ld Rs0 96 Ra0, Ld Rs1 104 Ra0, Ld Ra1 120 Ra0, Ld Ra2 128 Ra0,
     Ld Ra3 136 Ra0, Ld Ra4 144 Ra0, Ld Ra5 152 Ra0, Ld Ra6 160 Ra0, Ld Ra7 168 Ra0, Ld Rs2 176 Ra0, Ld Rs3 184 Ra0,
     Ld Rs4 192 Ra0, Ld Rs5 200 Ra0, Ld Rs6 208 Ra0, Ld Rs7 216 Ra0, Ld Rs8 224 Ra0, Ld Rs9 232 Ra0, Ld Rs10 240 Ra0,
     Ld Rs11 248 Ra0, Ld Rt3 256 Ra0, Ld Rt4 264 Ra0, Ld Rt5 272 Ra0, Ld Rt6 280 Ra0, Ld Ra0 112 Ra0]"

text \<open>Up to the \<open>sret\<close>, which leaves the registers alone.\<close>

definition userret :: "mmu \<Rightarrow> hw \<Rightarrow> hw" where
  "userret mmu s = run_code mmu userret_code s"

section \<open>Context switch\<close>

definition swtch_code :: "instr list" where
  "swtch_code =
    [Sd Rra 0 Ra0, Sd Rsp 8 Ra0, Sd Rs0 16 Ra0, Sd Rs1 24 Ra0, Sd Rs2 32 Ra0, Sd Rs3 40 Ra0, Sd Rs4 48 Ra0, Sd Rs5 56 Ra0,
     Sd Rs6 64 Ra0, Sd Rs7 72 Ra0, Sd Rs8 80 Ra0, Sd Rs9 88 Ra0, Sd Rs10 96 Ra0, Sd Rs11 104 Ra0, Ld Rra 0 Ra1,
     Ld Rsp 8 Ra1, Ld Rs0 16 Ra1, Ld Rs1 24 Ra1, Ld Rs2 32 Ra1, Ld Rs3 40 Ra1, Ld Rs4 48 Ra1, Ld Rs5 56 Ra1, Ld Rs6 64 Ra1,
     Ld Rs7 72 Ra1, Ld Rs8 80 Ra1, Ld Rs9 88 Ra1, Ld Rs10 96 Ra1, Ld Rs11 104 Ra1]"

text \<open>The \<open>ret\<close> jumps to the loaded \<open>ra\<close>.\<close>

definition swtch :: "mmu \<Rightarrow> hw \<Rightarrow> u64 \<times> hw" where
  "swtch mmu s = (let s = run_code mmu swtch_code s in (hw_reg s Rra, s))"

section \<open>Traps in the kernel\<close>

definition kernelvec_save_code :: "instr list" where
  "kernelvec_save_code =
    [Addi Rsp Rsp (-256), Sd Rra 0 Rsp, Sd Rsp 8 Rsp, Sd Rgp 16 Rsp, Sd Rtp 24 Rsp, Sd Rt0 32 Rsp, Sd Rt1 40 Rsp,
     Sd Rt2 48 Rsp, Sd Rs0 56 Rsp, Sd Rs1 64 Rsp, Sd Ra0 72 Rsp, Sd Ra1 80 Rsp, Sd Ra2 88 Rsp, Sd Ra3 96 Rsp,
     Sd Ra4 104 Rsp, Sd Ra5 112 Rsp, Sd Ra6 120 Rsp, Sd Ra7 128 Rsp, Sd Rs2 136 Rsp, Sd Rs3 144 Rsp, Sd Rs4 152 Rsp,
     Sd Rs5 160 Rsp, Sd Rs6 168 Rsp, Sd Rs7 176 Rsp, Sd Rs8 184 Rsp, Sd Rs9 192 Rsp, Sd Rs10 200 Rsp, Sd Rs11 208 Rsp,
     Sd Rt3 216 Rsp, Sd Rt4 224 Rsp, Sd Rt5 232 Rsp, Sd Rt6 240 Rsp]"

definition kernelvec_restore_code :: "instr list" where
  "kernelvec_restore_code =
    [Ld Rra 0 Rsp, Ld Rsp 8 Rsp, Ld Rgp 16 Rsp, Ld Rt0 32 Rsp, Ld Rt1 40 Rsp, Ld Rt2 48 Rsp, Ld Rs0 56 Rsp, Ld Rs1 64 Rsp,
     Ld Ra0 72 Rsp, Ld Ra1 80 Rsp, Ld Ra2 88 Rsp, Ld Ra3 96 Rsp, Ld Ra4 104 Rsp, Ld Ra5 112 Rsp, Ld Ra6 120 Rsp,
     Ld Ra7 128 Rsp, Ld Rs2 136 Rsp, Ld Rs3 144 Rsp, Ld Rs4 152 Rsp, Ld Rs5 160 Rsp, Ld Rs6 168 Rsp, Ld Rs7 176 Rsp,
     Ld Rs8 184 Rsp, Ld Rs9 192 Rsp, Ld Rs10 200 Rsp, Ld Rs11 208 Rsp, Ld Rt3 216 Rsp, Ld Rt4 224 Rsp, Ld Rt5 232 Rsp,
     Ld Rt6 240 Rsp, Addi Rsp Rsp 256]"

text \<open>\<open>kt\<close> is the effect of the call to \<open>kerneltrap\<close>; \<open>call\<close> itself overwrites \<open>ra\<close>.\<close>

definition kernelvec :: "mmu \<Rightarrow> (hw \<Rightarrow> hw) \<Rightarrow> hw \<Rightarrow> hw" where
  "kernelvec mmu kt s = run_code mmu kernelvec_restore_code (kt (run_code mmu kernelvec_save_code s))"

text \<open>Machine mode does not translate addresses.\<close>

definition bare :: mmu where
  "bare satp a = a"

definition timervec_code :: "instr list" where
  "timervec_code =
    [Csrrw Ra0 Cmscratch Ra0, Sd Ra1 0 Ra0, Sd Ra2 8 Ra0, Sd Ra3 16 Ra0, Ld Ra1 24 Ra0, Ld Ra2 32 Ra0, Ld Ra3 0 Ra1,
     Add Ra3 Ra3 Ra2, Sd Ra3 0 Ra1, Li Ra1 2, Csrw Csip Ra1, Ld Ra3 16 Ra0, Ld Ra2 8 Ra0, Ld Ra1 0 Ra0,
     Csrrw Ra0 Cmscratch Ra0]"

definition timervec :: "hw \<Rightarrow> hw" where
  "timervec s = run_code bare timervec_code s"

section \<open>Boot\<close>

definition entry_code :: "u64 \<Rightarrow> instr list" where
  "entry_code stack0 =
    [Li Rsp stack0, Li Ra0 4096, Csrr Ra1 Cmhartid, Addi Ra1 Ra1 1, Mul Ra0 Ra0 Ra1, Add Rsp Rsp Ra0]"

definition entry :: "u64 \<Rightarrow> hw \<Rightarrow> hw" where
  "entry stack0 s = run_code bare (entry_code stack0) s"

definition MSTATUS_MPP_MASK :: u64 where [simp]: "MSTATUS_MPP_MASK = push_bit 11 3"
definition MSTATUS_MPP_S :: u64 where [simp]: "MSTATUS_MPP_S = push_bit 11 1"
definition MSTATUS_MIE :: u64 where [simp]: "MSTATUS_MIE = push_bit 3 1"
definition SIE_SEIE :: u64 where [simp]: "SIE_SEIE = push_bit 9 1"
definition SIE_STIE :: u64 where [simp]: "SIE_STIE = push_bit 5 1"
definition SIE_SSIE :: u64 where [simp]: "SIE_SSIE = push_bit 1 1"
definition MIE_MTIE :: u64 where [simp]: "MIE_MTIE = push_bit 7 1"
definition CLINT :: u64 where [simp]: "CLINT = 0x2000000"
definition CLINT_MTIME :: u64 where "CLINT_MTIME = CLINT + 0xBFF8"

definition CLINT_MTIMECMP :: "u64 \<Rightarrow> u64" where
  "CLINT_MTIMECMP hartid = CLINT + 0x4000 + 8 * hartid"

text \<open>\<open>timer_scratch\<close> is the address of the scratch area; the row of a hart is 5 words.\<close>

definition timerinit :: "u64 \<Rightarrow> u64 \<Rightarrow> hw \<Rightarrow> hw" where
  "timerinit timervec_addr timer_scratch s =
     (let hid = scast (ucast (hw_csr s Cmhartid) :: u32) :: u64;
          interval = 1000000;
          s = s\<lparr>hw_mem := store64 (hw_mem s) (CLINT_MTIMECMP hid) (load64 (hw_mem s) CLINT_MTIME + interval)\<rparr>;
          scratch = timer_scratch + 40 * hid;
          s = s\<lparr>hw_mem := store64 (hw_mem s) (scratch + 24) (CLINT_MTIMECMP hid)\<rparr>;
          s = s\<lparr>hw_mem := store64 (hw_mem s) (scratch + 32) interval\<rparr>;
          s = setc Cmscratch scratch s;
          s = setc Cmtvec timervec_addr s;
          s = setc Cmstatus (hw_csr s Cmstatus OR MSTATUS_MIE) s
      in setc Cmie (hw_csr s Cmie OR MIE_MTIE) s)"

text \<open>Up to the \<open>mret\<close>, which enters the mode in \<open>MPP\<close> at the address in \<open>mepc\<close>.\<close>

definition start :: "u64 \<Rightarrow> u64 \<Rightarrow> u64 \<Rightarrow> hw \<Rightarrow> hw" where
  "start main_addr timervec_addr timer_scratch s =
     (let x = hw_csr s Cmstatus; x = x AND NOT MSTATUS_MPP_MASK; x = x OR MSTATUS_MPP_S;
          s = setc Cmstatus x s;
          s = setc Cmepc main_addr s;
          s = setc Csatp 0 s;
          s = setc Cmedeleg 0xffff s;
          s = setc Cmideleg 0xffff s;
          s = setc Csie (hw_csr s Csie OR SIE_SEIE OR SIE_STIE OR SIE_SSIE) s;
          s = setc Cpmpaddr0 0x3fffffffffffff s;
          s = setc Cpmpcfg0 0xf s;
          s = timerinit timervec_addr timer_scratch s;
          hid = scast (ucast (hw_csr s Cmhartid) :: u32) :: u64
      in setr Rtp hid s)"

definition mret_mode :: "hw \<Rightarrow> u64" where
  "mret_mode s = drop_bit 11 (hw_csr s Cmstatus) AND 3"

end
