(* ===== verification/Asm_Frames.thy ===== *)
theory Asm_Frames
  imports Asm
begin

text \<open>
  What the assembly routines promise: frames of registers are saved and loaded without
  overlap, so a trap, an interrupt in the kernel, a timer interrupt and a context switch give back
  every register they are meant to.
\<close>

section \<open>Saving and loading a frame of registers\<close>

lemma set_simps [simp]:
  "hw_reg (setr r v s) = (hw_reg s)(r := v)" "hw_csr (setr r v s) = hw_csr s" "hw_mem (setr r v s) = hw_mem s"
  "hw_reg (setc c v s) = hw_reg s" "hw_csr (setc c v s) = (hw_csr s)(c := v)" "hw_mem (setc c v s) = hw_mem s"
  by (simp_all add: setr_def setc_def)

lemma run_code_simps [simp]:
  "run_code mmu [] s = s" "run_code mmu (i # p) s = run_code mmu p (exec1 mmu i s)" "run_code mmu (p @ q) s = run_code mmu q (run_code mmu p s)"
  by (simp_all add: run_code_def)

lemma of_nat_eq_iff_lt:
  assumes "a < 2 ^ 64" "b < 2 ^ 64"
  shows "(of_nat a :: u64) = of_nat b \<longleftrightarrow> a = b"
proof
  assume e: "(of_nat a :: u64) = of_nat b"
  have "unat (of_nat a :: u64) = a" "unat (of_nat b :: u64) = b" using assms by (intro unat_of_nat_lt; simp)+
  then show "a = b" unfolding e by simp
qed simp

text \<open>The slots of a frame at \<open>p\<close> do not overlap.\<close>

lemma slots_apart:
  assumes "8 dvd off" "8 dvd off'" "off \<noteq> off'" "off < 2 ^ 32" "off' < 2 ^ 32"
  shows "load64 (store64 m (p + of_nat off) v) (p + of_nat off') = load64 m (p + of_nat off')"
proof (rule load64_cong)
  fix i :: nat assume i: "i < 8"
  let ?d = "p + of_nat off' + of_nat i - (p + of_nat off) :: u64"
  have "\<not> unat ?d < 8"
  proof
    assume d: "unat ?d < 8"
    obtain k where k: "k < 8" "?d = of_nat k" using d using that [of "unat ?d"] by simp
    then have "(of_nat (off' + i) :: u64) = of_nat (off + k)" by (simp add: algebra_simps)
    moreover have "off' + i < 2 ^ 64" "off + k < 2 ^ 64" using assms(4,5) i k(1) by simp_all
    ultimately have "off' + i = off + k" using of_nat_eq_iff_lt by blast
    then show False using assms(1-3) i k(1) by presburger
  qed
  then show "store64 m (p + of_nat off) v (p + of_nat off' + of_nat i) = m (p + of_nat off' + of_nat i)"
    by (simp add: store64_def)
qed

text \<open>A frame of \<open>n\<close> bytes: contiguous under translation.\<close>

definition frame :: "mmu \<Rightarrow> u64 \<Rightarrow> u64 \<Rightarrow> u64 \<Rightarrow> nat \<Rightarrow> bool" where
  "frame mmu satp va pa n \<longleftrightarrow> (\<forall>off<n. mmu satp (va + of_nat off) = pa + of_nat off)"

definition slots_ok :: "(reg \<times> nat) list \<Rightarrow> nat \<Rightarrow> bool" where
  "slots_ok L n \<longleftrightarrow> distinct (map fst L) \<and> distinct (map snd L) \<and> (\<forall>(r, off) \<in> set L. 8 dvd off \<and> off < n) \<and> 8 dvd n \<and> n \<le> 4096"

definition saves :: "reg \<Rightarrow> (reg \<times> nat) list \<Rightarrow> instr list" where
  "saves b L = map (\<lambda>(r, off). Sd r off b) L"

definition loads :: "reg \<Rightarrow> (reg \<times> nat) list \<Rightarrow> instr list" where
  "loads b L = map (\<lambda>(r, off). Ld r off b) L"

lemma slots_snoc:
  "slots_ok (L @ [(r, off)]) n \<longleftrightarrow> slots_ok L n \<and> r \<notin> fst ` set L \<and> off \<notin> snd ` set L \<and> 8 dvd off \<and> off < n"
  by (auto simp: slots_ok_def)

lemma store64_outside:
  assumes "n \<le> unat (x - p)" "off + 8 \<le> n"
  shows "store64 m (p + of_nat off) v x = m x"
proof -
  have "unat (of_nat off :: u64) = off" using assms unsigned_less [of "x - p", where ?'a = nat] by (intro unat_of_nat_lt) simp
  then have "unat (x - p - of_nat off) = unat (x - p) - off" using assms by (subst unat_sub) (auto simp: word_le_nat_alt)
  moreover have e: "x - (p + of_nat off) = x - p - of_nat off" by simp
  ultimately have "\<not> unat (x - (p + of_nat off)) < 8" unfolding e using assms by linarith
  then show ?thesis by (simp add: store64_def)
qed

lemma exec_saves:
  assumes "frame mmu (hw_csr s Csatp) (hw_reg s b) p n" "slots_ok L n"
  shows "hw_reg (run_code mmu (saves b L) s) = hw_reg s \<and> hw_csr (run_code mmu (saves b L) s) = hw_csr s \<and>
    (\<forall>(r, off) \<in> set L. load64 (hw_mem (run_code mmu (saves b L) s)) (p + of_nat off) = hw_reg s r) \<and>
    (\<forall>off. 8 dvd off \<longrightarrow> off < n \<longrightarrow> off \<notin> snd ` set L \<longrightarrow>
      load64 (hw_mem (run_code mmu (saves b L) s)) (p + of_nat off) = load64 (hw_mem s) (p + of_nat off)) \<and>
    (\<forall>x. n \<le> unat (x - p) \<longrightarrow> hw_mem (run_code mmu (saves b L) s) x = hw_mem s x)"
  using assms(2)
proof (induction L rule: rev_induct)
  case (snoc w L)
  obtain r off where w: "w = (r, off)" by force
  let ?t = "run_code mmu (saves b L) s"
  have ok: "slots_ok L n" "off \<notin> snd ` set L" "8 dvd off" "off < n" "n \<le> 4096" "8 dvd n"
    using snoc.prems by (auto simp: w slots_snoc) (simp_all add: slots_ok_def)
  note IH = snoc.IH [OF ok(1)]
  have e: "run_code mmu (saves b (L @ [w])) s = ?t\<lparr>hw_mem := store64 (hw_mem ?t) (p + of_nat off) (hw_reg s r)\<rparr>"
    using IH assms(1) ok(4) by (simp add: saves_def w ea_def frame_def)
  have apart: "load64 (store64 m (p + of_nat off) v) (p + of_nat off') = load64 m (p + of_nat off')"
    if "8 dvd off'" "off' < n" "off' \<noteq> off" for m v off'
    using that ok by (intro slots_apart) auto
  have "off' \<noteq> off" "8 dvd off'" "off' < n" if "(r', off') \<in> set L" for r' off'
    using that ok(1,2) by (force simp: slots_ok_def)+
  moreover have "store64 m (p + of_nat off) v x = m x" if "n \<le> unat (x - p)" for m v x
    by (rule store64_outside [OF that]) (use ok in presburger)
  ultimately show ?case using IH apart ok(3,4) unfolding e by (auto simp: w)
qed (simp add: saves_def)

lemma exec_loads:
  assumes "frame mmu (hw_csr s Csatp) (hw_reg s b) p n" "slots_ok L n"
    and "\<And>off. (b, off) \<in> set L \<Longrightarrow> load64 (hw_mem s) (p + of_nat off) = hw_reg s b"
  shows "hw_mem (run_code mmu (loads b L) s) = hw_mem s \<and> hw_csr (run_code mmu (loads b L) s) = hw_csr s \<and>
    hw_reg (run_code mmu (loads b L) s) b = hw_reg s b \<and>
    (\<forall>(r, off) \<in> set L. hw_reg (run_code mmu (loads b L) s) r = load64 (hw_mem s) (p + of_nat off)) \<and>
    (\<forall>r. r \<notin> fst ` set L \<longrightarrow> hw_reg (run_code mmu (loads b L) s) r = hw_reg s r)"
  using assms(2,3)
proof (induction L rule: rev_induct)
  case (snoc w L)
  obtain r off where w: "w = (r, off)" by force
  let ?t = "run_code mmu (loads b L) s"
  have ok: "slots_ok L n" "r \<notin> fst ` set L" "off < n" using snoc.prems(1) by (auto simp: w slots_snoc)
  have IH: "hw_mem ?t = hw_mem s" "hw_csr ?t = hw_csr s" "hw_reg ?t b = hw_reg s b"
    "\<forall>(r, off) \<in> set L. hw_reg ?t r = load64 (hw_mem s) (p + of_nat off)" "\<forall>r. r \<notin> fst ` set L \<longrightarrow> hw_reg ?t r = hw_reg s r"
    using snoc.IH [OF ok(1)] snoc.prems(2) by auto
  have e: "run_code mmu (loads b (L @ [w])) s = setr r (load64 (hw_mem s) (p + of_nat off)) ?t"
    using IH(1-3) assms(1) ok(3) by (simp add: loads_def w ea_def frame_def)
  have "b = r \<Longrightarrow> load64 (hw_mem s) (p + of_nat off) = hw_reg s b" using snoc.prems(2) [of off] by (simp add: w)
  then show ?case using IH ok(2) unfolding e by (force simp: w)
qed (simp add: loads_def)

section \<open>The frames of the kernel\<close>

text \<open>The slots of \<open>struct trapframe\<close>, of \<open>struct context\<close> and of the frame of \<open>kernelvec\<close>.\<close>

definition tf_slots :: "(reg \<times> nat) list" where
  "tf_slots = [(Rra, 40), (Rsp, 48), (Rgp, 56), (Rtp, 64), (Rt0, 72), (Rt1, 80), (Rt2, 88), (Rs0, 96), (Rs1, 104),
     (Ra1, 120), (Ra2, 128), (Ra3, 136), (Ra4, 144), (Ra5, 152), (Ra6, 160), (Ra7, 168), (Rs2, 176), (Rs3, 184), (Rs4, 192),
     (Rs5, 200), (Rs6, 208), (Rs7, 216), (Rs8, 224), (Rs9, 232), (Rs10, 240), (Rs11, 248), (Rt3, 256), (Rt4, 264), (Rt5, 272), (Rt6, 280)]"

definition context_slots :: "(reg \<times> nat) list" where
  "context_slots = [(Rra, 0), (Rsp, 8), (Rs0, 16), (Rs1, 24), (Rs2, 32), (Rs3, 40), (Rs4, 48), (Rs5, 56), (Rs6, 64), (Rs7, 72),
     (Rs8, 80), (Rs9, 88), (Rs10, 96), (Rs11, 104)]"

definition kernel_slots :: "(reg \<times> nat) list" where
  "kernel_slots = [(Rt0, 32), (Rt1, 40), (Rt2, 48), (Rs0, 56), (Rs1, 64), (Ra0, 72), (Ra1, 80), (Ra2, 88), (Ra3, 96), (Ra4, 104),
     (Ra5, 112), (Ra6, 120), (Ra7, 128), (Rs2, 136), (Rs3, 144), (Rs4, 152), (Rs5, 160), (Rs6, 168), (Rs7, 176), (Rs8, 184), (Rs9, 192),
     (Rs10, 200), (Rs11, 208), (Rt3, 216), (Rt4, 224), (Rt5, 232), (Rt6, 240)]"

lemma slots_ok_frames:
  "slots_ok tf_slots 288" "slots_ok context_slots 112" "slots_ok ((Rra, 0) # (Rsp, 8) # (Rgp, 16) # (Rtp, 24) # kernel_slots) 256"
  "slots_ok ((Rra, 0) # (Rsp, 8) # (Rgp, 16) # kernel_slots) 256"
  by (simp_all add: slots_ok_def tf_slots_def context_slots_def kernel_slots_def)

lemma code_frames:
  "uservec_code = [Csrw Csscratch Ra0, Li Ra0 TRAPFRAME] @ saves Ra0 tf_slots @ [Csrr Rt0 Csscratch, Sd Rt0 112 Ra0] @
     [Ld Rsp 8 Ra0, Ld Rtp 32 Ra0, Ld Rt0 16 Ra0, Ld Rt1 0 Ra0, Sfence_vma, Csrw Csatp Rt1, Sfence_vma]"
  "userret_code = [Sfence_vma, Csrw Csatp Ra0, Sfence_vma, Li Ra0 TRAPFRAME] @ loads Ra0 tf_slots @ [Ld Ra0 112 Ra0]"
  "swtch_code = saves Ra0 context_slots @ loads Ra1 context_slots"
  "kernelvec_save_code = [Addi Rsp Rsp (-256)] @ saves Rsp ((Rra, 0) # (Rsp, 8) # (Rgp, 16) # (Rtp, 24) # kernel_slots)"
  "kernelvec_restore_code = loads Rsp ((Rra, 0) # (Rsp, 8) # (Rgp, 16) # kernel_slots) @ [Addi Rsp Rsp 256]"
  by (simp_all add: uservec_code_def userret_code_def swtch_code_def kernelvec_save_code_def kernelvec_restore_code_def
      saves_def loads_def tf_slots_def context_slots_def kernel_slots_def)

text \<open>A machine whose registers hold different values, and a translation that shifts addresses.\<close>

definition hw0 :: hw where
  "hw0 = \<lparr>hw_reg = (\<lambda>r. case r of Rra \<Rightarrow> 1 | Rsp \<Rightarrow> 0x3000 | Ra0 \<Rightarrow> 0x1000 | Ra1 \<Rightarrow> 0x2000 | Rs5 \<Rightarrow> 5 | _ \<Rightarrow> 7),
     hw_csr = (\<lambda>c. 0), hw_mem = (\<lambda>_. 0)\<rparr>"

definition shifted :: mmu where
  "shifted satp a = a + 0x80000000"

section \<open>Traps from user space\<close>

lemma in_slots: "(r, off) \<in> set tf_slots \<Longrightarrow> off \<notin> {0, 8, 16, 24, 32, 112} \<and> 8 dvd off \<and> off < 288 \<and> r \<noteq> Ra0"
  by (auto simp: tf_slots_def)

lemma reg_slots: "r = Ra0 \<or> (\<exists>off. (r, off) \<in> set tf_slots)"
  by (cases r) (simp_all add: tf_slots_def)

lemma uservec_ok:
  assumes fr: "frame mmu (hw_csr s Csatp) TRAPFRAME tf 288"
  shows "fst (uservec mmu s) = load64 (hw_mem s) (tf + 16)"
    "hw_reg (snd (uservec mmu s)) Rsp = load64 (hw_mem s) (tf + 8)" "hw_reg (snd (uservec mmu s)) Rtp = load64 (hw_mem s) (tf + 32)"
    "hw_csr (snd (uservec mmu s)) Csatp = load64 (hw_mem s) tf"
    "(r, off) \<in> set tf_slots \<Longrightarrow> load64 (hw_mem (snd (uservec mmu s))) (tf + of_nat off) = hw_reg s r"
    "load64 (hw_mem (snd (uservec mmu s))) (tf + 112) = hw_reg s Ra0"
proof -
  define s1 where "s1 = setr Ra0 TRAPFRAME (setc Csscratch (hw_reg s Ra0) s)"
  define s2 where "s2 = run_code mmu (saves Ra0 tf_slots) s1"
  define s3 where "s3 = (setr Rt0 (hw_reg s Ra0) s2)\<lparr>hw_mem := store64 (hw_mem s2) (tf + 112) (hw_reg s Ra0)\<rparr>"
  have f1: "frame mmu (hw_csr s1 Csatp) (hw_reg s1 Ra0) tf 288" using fr by (simp add: s1_def)
  note sv = exec_saves [OF f1 slots_ok_frames(1), folded s2_def]
  have k: "hw_reg s2 = hw_reg s1" "hw_csr s2 = hw_csr s1" using sv by simp_all
  have tr: "mmu (hw_csr s Csatp) (TRAPFRAME + of_nat off) = tf + of_nat off" if "off < 288" for off using fr that by (simp add: frame_def)
  have m3: "load64 (hw_mem s3) (tf + of_nat off) = load64 (hw_mem s2) (tf + of_nat off)" if "8 dvd off" "off < 288" "off \<noteq> 112" for off
    using that slots_apart [of 112 off "hw_mem s2" tf "hw_reg s Ra0"] by (simp add: s3_def)
  have e3: "run_code mmu [Csrr Rt0 Csscratch, Sd Rt0 112 Ra0] s2 = s3"
    using tr [of 112] k by (simp add: s3_def ea_def s1_def del: layout_values)
  have "run_code mmu uservec_code s = run_code mmu [Ld Rsp 8 Ra0, Ld Rtp 32 Ra0, Ld Rt0 16 Ra0, Ld Rt1 0 Ra0, Sfence_vma, Csrw Csatp Rt1, Sfence_vma] s3"
    unfolding code_frames(1) run_code_simps(3) e3 [symmetric] s2_def s1_def by simp
  moreover have "hw_csr s3 = hw_csr s1" "hw_reg s3 Ra0 = TRAPFRAME" using k by (simp_all add: s3_def s1_def)
  moreover have l: "load64 (hw_mem s3) (tf + of_nat off) = load64 (hw_mem s) (tf + of_nat off)" if "off \<in> {0, 8, 16, 32}" for off
  proof -
    have "off \<notin> snd ` set tf_slots" using that in_slots by fastforce
    then show ?thesis using sv that m3 [of off] by (auto simp: s1_def)
  qed
  ultimately have u: "snd (uservec mmu s) = setc Csatp (load64 (hw_mem s) tf) (setr Rt1 (load64 (hw_mem s) tf) (setr Rt0 (load64 (hw_mem s) (tf + 16))
      (setr Rtp (load64 (hw_mem s) (tf + 32)) (setr Rsp (load64 (hw_mem s) (tf + 8)) s3))))"
    using tr [of 0] tr [of 8] tr [of 16] tr [of 32] l [of 0] l [of 8] l [of 16] l [of 32]
    by (simp add: uservec_def ea_def s1_def del: layout_values)
  have "fst (uservec mmu s) = hw_reg (snd (uservec mmu s)) Rt0" by (simp add: uservec_def Let_def)
  then show "fst (uservec mmu s) = load64 (hw_mem s) (tf + 16)" unfolding u by simp
  show "hw_reg (snd (uservec mmu s)) Rsp = load64 (hw_mem s) (tf + 8)" "hw_reg (snd (uservec mmu s)) Rtp = load64 (hw_mem s) (tf + 32)"
    "hw_csr (snd (uservec mmu s)) Csatp = load64 (hw_mem s) tf" unfolding u by simp_all
  show "load64 (hw_mem (snd (uservec mmu s))) (tf + of_nat off) = hw_reg s r" if "(r, off) \<in> set tf_slots"
    unfolding u using that sv m3 [of off] in_slots [OF that] by (force simp: s1_def)
  show "load64 (hw_mem (snd (uservec mmu s))) (tf + 112) = hw_reg s Ra0" unfolding u by (simp add: s3_def)
qed

lemma userret_ok:
  assumes fr: "frame mmu (hw_reg s Ra0) TRAPFRAME tf 288"
  shows "hw_csr (userret mmu s) Csatp = hw_reg s Ra0" "hw_reg (userret mmu s) Ra0 = load64 (hw_mem s) (tf + 112)"
    "(r, off) \<in> set tf_slots \<Longrightarrow> hw_reg (userret mmu s) r = load64 (hw_mem s) (tf + of_nat off)"
proof -
  define s1 where "s1 = setr Ra0 TRAPFRAME (setc Csatp (hw_reg s Ra0) s)"
  define s2 where "s2 = run_code mmu (loads Ra0 tf_slots) s1"
  have f1: "frame mmu (hw_csr s1 Csatp) (hw_reg s1 Ra0) tf 288" using fr by (simp add: s1_def)
  have "hw_mem s2 = hw_mem s1 \<and> hw_csr s2 = hw_csr s1 \<and> hw_reg s2 Ra0 = hw_reg s1 Ra0 \<and>
      (\<forall>(r, off) \<in> set tf_slots. hw_reg s2 r = load64 (hw_mem s1) (tf + of_nat off))"
    using exec_loads [OF f1 slots_ok_frames(1), folded s2_def] in_slots by blast
  note ld = this
  have "userret mmu s = run_code mmu [Ld Ra0 112 Ra0] s2" by (simp add: userret_def code_frames(2) s2_def s1_def)
  then have u: "userret mmu s = setr Ra0 (load64 (hw_mem s) (tf + 112)) s2"
    using ld fr [unfolded frame_def, rule_format, of 112] by (simp add: ea_def s1_def del: layout_values)
  show "hw_csr (userret mmu s) Csatp = hw_reg s Ra0" "hw_reg (userret mmu s) Ra0 = load64 (hw_mem s) (tf + 112)"
    using u ld by (simp_all add: s1_def)
  show "hw_reg (userret mmu s) r = load64 (hw_mem s) (tf + of_nat off)" if "(r, off) \<in> set tf_slots"
    using u ld that in_slots [OF that] by (auto simp: s1_def)
qed

text \<open>
  C24: a trap is transparent to the user program. \<open>uservec\<close> enters \<open>usertrap\<close> on the kernel stack, page table and
  hart that the trapframe names; if the kernel then leaves the saved registers in the trapframe as they are, \<open>userret\<close>,
  called with the user page table, gives back the value of every one of the 31 registers.
\<close>

theorem trap_transparent:
  assumes "frame mmu (hw_csr s Csatp) TRAPFRAME tf 288" "(pc, t) = uservec mmu s"
    and "frame mmu (hw_reg u Ra0) TRAPFRAME tf 288" "\<And>off. 40 \<le> off \<Longrightarrow> off < 288 \<Longrightarrow> load64 (hw_mem u) (tf + of_nat off) = load64 (hw_mem t) (tf + of_nat off)"
  shows "pc = load64 (hw_mem s) (tf + 16) \<and> hw_reg t Rsp = load64 (hw_mem s) (tf + 8) \<and> hw_csr t Csatp = load64 (hw_mem s) tf \<and>
    hw_reg t Rtp = load64 (hw_mem s) (tf + 32) \<and> hw_reg (userret mmu u) = hw_reg s \<and> hw_csr (userret mmu u) Csatp = hw_reg u Ra0"
proof -
  have pt: "pc = fst (uservec mmu s)" "t = snd (uservec mmu s)" using assms(2) by (metis fst_conv snd_conv)+
  note uv = uservec_ok [OF assms(1), folded pt] and ur = userret_ok [OF assms(3)]
  have "hw_reg (userret mmu u) r = hw_reg s r" for r
  proof (cases "r = Ra0")
    case True
    then show ?thesis using uv(6) ur(2) assms(4) [of 112] by simp
  next
    case False
    then obtain off where off: "(r, off) \<in> set tf_slots" using reg_slots [of r] by blast
    then have "40 \<le> off" "off < 288" by (auto simp: tf_slots_def)
    then show ?thesis using uv(5) [OF off] ur(3) [OF off] assms(4) by simp
  qed
  then show ?thesis using uv(1-4) ur(1) by auto
qed

theorem trap_transparent_witness:
  "hw_reg (userret shifted (setr Ra0 0 (snd (uservec shifted hw0)))) Rs5 = 5"
proof -
  have "(fst (uservec shifted hw0), snd (uservec shifted hw0)) = uservec shifted hw0" by simp
  then have "hw_reg (userret shifted (setr Ra0 0 (snd (uservec shifted hw0)))) = hw_reg hw0"
    using trap_transparent [of shifted hw0 "TRAPFRAME + 0x80000000" "fst (uservec shifted hw0)" "snd (uservec shifted hw0)" "setr Ra0 0 (snd (uservec shifted hw0))"]
    by (simp add: frame_def shifted_def)
  then show ?thesis by (simp add: hw0_def)
qed

section \<open>Traps in the kernel\<close>

text \<open>
  C26: an interrupt in the kernel is transparent. Whatever \<open>kerneltrap\<close> does to the registers, as long as it returns with the
  stack pointer and the frame on the stack as they were, \<open>kernelvec\<close> gives back every register except \<open>tp\<close>, which
  keeps the number of the hart that \<open>kerneltrap\<close> returned on.
\<close>

theorem kernelvec_transparent:
  assumes fr: "frame mmu (hw_csr s Csatp) (hw_reg s Rsp - 256) p 256" "hw_csr (kt (run_code mmu kernelvec_save_code s)) Csatp = hw_csr s Csatp"
    and sp: "hw_reg (kt (run_code mmu kernelvec_save_code s)) Rsp = hw_reg s Rsp - 256"
    and st: "\<And>off. off < 256 \<Longrightarrow> load64 (hw_mem (kt (run_code mmu kernelvec_save_code s))) (p + of_nat off) =
      load64 (hw_mem (run_code mmu kernelvec_save_code s)) (p + of_nat off)"
  shows "hw_reg (kernelvec mmu kt s) = (hw_reg s)(Rtp := hw_reg (kt (run_code mmu kernelvec_save_code s)) Rtp)"
proof -
  let ?L = "(Rra, 0) # (Rsp, 8) # (Rgp, 16) # (Rtp, 24) # kernel_slots" and ?M = "(Rra, 0) # (Rsp, 8) # (Rgp, 16) # kernel_slots"
  define s1 where "s1 = setr Rsp (hw_reg s Rsp - 256) s"
  define t where "t = run_code mmu kernelvec_save_code s"
  have t: "t = run_code mmu (saves Rsp ?L) s1" unfolding t_def code_frames(4) by (simp add: s1_def)
  have f1: "frame mmu (hw_csr s1 Csatp) (hw_reg s1 Rsp) p 256" using fr by (simp add: s1_def)
  have sv: "load64 (hw_mem t) (p + of_nat off) = hw_reg s1 r" if "(r, off) \<in> set ?L" for r off
    using exec_saves [OF f1 slots_ok_frames(3), folded t] that by blast
  have lt: "off < 256" if "(r, off) \<in> set ?L" for r off using that slots_ok_frames(3) unfolding slots_ok_def by blast
  have u: "load64 (hw_mem (kt t)) (p + of_nat off) = hw_reg s1 r" if "(r, off) \<in> set ?M" for r off
  proof -
    have L: "(r, off) \<in> set ?L" using that by auto
    show ?thesis using st [folded t_def, OF lt [OF L]] sv [OF L] by (rule trans)
  qed
  have f2: "frame mmu (hw_csr (kt t) Csatp) (hw_reg (kt t) Rsp) p 256" using fr sp by (simp add: t_def)
  let ?v = "run_code mmu (loads Rsp ?M) (kt t)"
  have "load64 (hw_mem (kt t)) (p + of_nat off) = hw_reg (kt t) Rsp" if "(Rsp, off) \<in> set ?M" for off
    using u [OF that] sp by (simp add: s1_def t_def)
  note ld = exec_loads [OF f2 slots_ok_frames(4) this]
  have "hw_reg ?v r = hw_reg s1 r" if "r \<noteq> Rtp" for r
  proof -
    have "\<exists>off. (r, off) \<in> set ?M" using that by (cases r) (simp_all add: kernel_slots_def)
    then show ?thesis using ld u by fastforce
  qed
  moreover have "hw_reg ?v Rtp = hw_reg (kt t) Rtp" using ld by (auto simp: kernel_slots_def)
  moreover have "kernelvec mmu kt s = setr Rsp (hw_reg ?v Rsp + 256) ?v" by (simp add: kernelvec_def code_frames(5) t_def)
  ultimately show ?thesis by (auto simp: fun_eq_iff s1_def t_def)
qed

theorem kernelvec_transparent_witness: "hw_reg (kernelvec shifted (setr Ra3 99) hw0) Ra3 = 7"
proof -
  let ?t = "run_code shifted kernelvec_save_code hw0" and ?s = "setr Rsp (hw_reg hw0 Rsp - 256) hw0"
  have fr: "frame shifted satp a (a + 0x80000000) n" for satp a n by (simp add: frame_def shifted_def)
  have k: "hw_reg ?t Rsp = hw_reg hw0 Rsp - 256" "hw_csr ?t = hw_csr hw0"
    using exec_saves [OF fr slots_ok_frames(3), of Rsp ?s] by (simp_all add: code_frames(4))
  have "hw_reg (kernelvec shifted (setr Ra3 99) hw0) = (hw_reg hw0)(Rtp := hw_reg (setr Ra3 99 ?t) Rtp)"
    by (rule kernelvec_transparent [of shifted hw0 "hw_reg hw0 Rsp - 256 + 0x80000000"]) (simp_all only: fr k set_simps fun_upd_apply reg.distinct if_False)
  then have "hw_reg (kernelvec shifted (setr Ra3 99) hw0) Ra3 = hw_reg hw0 Ra3" by (simp only: fun_upd_apply reg.distinct if_False)
  then show ?thesis by (simp add: hw0_def)
qed

section \<open>Timer interrupts\<close>

lemma dword_aligned_off: "dword_aligned a \<Longrightarrow> 8 dvd k \<Longrightarrow> dword_aligned (a + of_nat k)"
proof -
  assume a: "dword_aligned a" "8 dvd k"
  have "unat (a + of_nat k) = (unat a + k) mod 2 ^ 64" by (simp add: unat_word_ariths(1) unat_of_nat take_bit_eq_mod mod_add_right_eq)
  moreover have "8 dvd unat a + k" using a by (simp add: dword_aligned_def mod_eq_0_iff_dvd)
  then have "8 dvd (unat a + k) mod 2 ^ 64" by (rule dvd_mod) simp
  ultimately show ?thesis by (simp add: dword_aligned_def mod_eq_0_iff_dvd)
qed

text \<open>
  C27: the machine-mode timer interrupt is transparent: it moves the comparator of the hart one interval on, raises the
  supervisor software interrupt, and changes no register.
\<close>

theorem timervec_transparent:
  assumes sc: "scratch = hw_csr s Cmscratch" "dword_aligned scratch" and c: "c = load64 (hw_mem s) (scratch + 24)" "dword_aligned c"
    and ne: "\<And>off. off < 40 \<Longrightarrow> c \<noteq> scratch + of_nat off"
  shows "hw_reg (timervec s) = hw_reg s \<and> hw_csr (timervec s) = (hw_csr s)(Csip := 2) \<and>
    load64 (hw_mem (timervec s)) c = load64 (hw_mem s) c + load64 (hw_mem s) (scratch + 32)"
proof -
  have al: "dword_aligned (scratch + 8)" "dword_aligned (scratch + 16)" "dword_aligned (scratch + 24)" "dword_aligned (scratch + 32)"
    using dword_aligned_off [OF sc(2), of 8] dword_aligned_off [OF sc(2), of 16] dword_aligned_off [OF sc(2), of 24] dword_aligned_off [OF sc(2), of 32] by simp_all
  have n: "c \<noteq> scratch" "c \<noteq> scratch + 8" "c \<noteq> scratch + 16" "scratch \<noteq> c" "scratch + 8 \<noteq> c" "scratch + 16 \<noteq> c"
    using ne [of 0] ne [of 8] ne [of 16] by auto
  define m where "m = store64 (store64 (store64 (hw_mem s) scratch (hw_reg s Ra1)) (scratch + 8) (hw_reg s Ra2)) (scratch + 16) (hw_reg s Ra3)"
  have m: "load64 m (scratch + 24) = c" "load64 m (scratch + 32) = load64 (hw_mem s) (scratch + 32)" "load64 m c = load64 (hw_mem s) c"
    "load64 m scratch = hw_reg s Ra1" "load64 m (scratch + 8) = hw_reg s Ra2" "load64 m (scratch + 16) = hw_reg s Ra3"
    using al sc(2) c n by (simp_all add: m_def)
  define m2 where "m2 = store64 m c (load64 (hw_mem s) c + load64 (hw_mem s) (scratch + 32))"
  have m2: "load64 m2 scratch = hw_reg s Ra1" "load64 m2 (scratch + 8) = hw_reg s Ra2" "load64 m2 (scratch + 16) = hw_reg s Ra3"
    "load64 m2 c = load64 (hw_mem s) c + load64 (hw_mem s) (scratch + 32)"
    using al sc(2) c(2) n m by (simp_all add: m2_def)
  have e: "timervec s = \<lparr>hw_reg = hw_reg s, hw_csr = (hw_csr s)(Csip := 2), hw_mem = m2\<rparr>"
    by (rule hw.equality) (auto simp: timervec_def timervec_code_def ea_def bare_def sc(1) [symmetric] m m2 fun_eq_iff
      m_def [symmetric] m2_def [symmetric])
  show ?thesis using m2(4) by (simp add: e)
qed

theorem timervec_transparent_witness:
  "load64 (hw_mem (timervec (hw0\<lparr>hw_mem := store64 (store64 (\<lambda>_. 0) 24 0x2004000) 32 100\<rparr>))) 0x2004000 = 100"
proof -
  let ?m = "store64 (store64 (\<lambda>_. 0) 24 0x2004000) 32 100 :: mem"
  have m: "load64 ?m 24 = 0x2004000" "load64 ?m 32 = 100" "load64 ?m 0x2004000 = 0"
    by (simp_all add: dword_aligned_def)
  have "0x2004000 \<noteq> (0 :: u64) + of_nat off" if "off < 40" for off
    using that of_nat_eq_iff_lt [of "0x2004000" off] by auto
  then show ?thesis
    using timervec_transparent [of "0" "hw0\<lparr>hw_mem := ?m\<rparr>" "0x2004000"] m by (simp add: hw0_def dword_aligned_def)
qed

section \<open>Context switch\<close>

definition apart :: "u64 \<Rightarrow> u64 \<Rightarrow> bool" where
  "apart p q \<longleftrightarrow> (\<forall>off<112. 112 \<le> unat (q + of_nat off - p))"

lemma swtch_ok:
  assumes fr: "frame mmu (hw_csr s Csatp) (hw_reg s Ra0) p 112" "frame mmu (hw_csr s Csatp) (hw_reg s Ra1) q 112" and ap: "apart p q"
  shows "(r, off) \<in> set context_slots \<Longrightarrow> hw_reg (snd (swtch mmu s)) r = load64 (hw_mem s) (q + of_nat off)"
    "(r, off) \<in> set context_slots \<Longrightarrow> load64 (hw_mem (snd (swtch mmu s))) (p + of_nat off) = hw_reg s r"
    "fst (swtch mmu s) = load64 (hw_mem s) q"
proof -
  let ?t = "run_code mmu (saves Ra0 context_slots) s"
  note sv = exec_saves [OF fr(1) slots_ok_frames(2)]
  have f2: "frame mmu (hw_csr ?t Csatp) (hw_reg ?t Ra1) q 112" using fr(2) sv by simp
  have no: "(Ra1, off) \<notin> set context_slots" for off by (simp add: context_slots_def)
  note ld = exec_loads [OF f2 slots_ok_frames(2)]
  have e: "snd (swtch mmu s) = run_code mmu (loads Ra1 context_slots) ?t" by (simp add: swtch_def code_frames(3) Let_def)
  have lq: "load64 (hw_mem ?t) (q + of_nat off) = load64 (hw_mem s) (q + of_nat off)" if "off + 8 \<le> 112" for off
  proof (rule load64_cong)
    fix i :: nat assume "i < 8"
    then have "112 \<le> unat (q + of_nat (off + i) - p)" using that by (intro ap [unfolded apart_def, rule_format]) simp
    then show "hw_mem ?t (q + of_nat off + of_nat i) = hw_mem s (q + of_nat off + of_nat i)" using sv by (simp add: add.assoc)
  qed
  have in_ctx: "off + 8 \<le> 112" if "(r, off) \<in> set context_slots" for r off using that by (auto simp: context_slots_def)
  show *: "hw_reg (snd (swtch mmu s)) r = load64 (hw_mem s) (q + of_nat off)" if "(r, off) \<in> set context_slots" for r off
    using ld no that lq [OF in_ctx [OF that]] unfolding e by fastforce
  show "load64 (hw_mem (snd (swtch mmu s))) (p + of_nat off) = hw_reg s r" if "(r, off) \<in> set context_slots"
    using ld no that sv unfolding e by fastforce
  have "fst (swtch mmu s) = hw_reg (snd (swtch mmu s)) Rra" by (simp add: swtch_def Let_def)
  then show "fst (swtch mmu s) = load64 (hw_mem s) q" using * [of Rra 0] by (simp add: context_slots_def)
qed

text \<open>
  C25: a thread that \<open>swtch\<close> suspends is resumed as it was. A switch continues at the return address and with the stack
  and callee-saved registers of the new context; a later switch back to the old context, left unchanged,
  restores the registers of the suspended thread and returns to its caller.
\<close>

theorem swtch_resumes:
  assumes "frame mmu (hw_csr s Csatp) (hw_reg s Ra0) p 112" "frame mmu (hw_csr s Csatp) (hw_reg s Ra1) q 112" "apart p q"
    and "frame mmu (hw_csr u Csatp) (hw_reg u Ra0) p' 112" "frame mmu (hw_csr u Csatp) (hw_reg u Ra1) p 112" "apart p' p"
    and "\<And>off. off < 112 \<Longrightarrow> load64 (hw_mem u) (p + of_nat off) = load64 (hw_mem (snd (swtch mmu s))) (p + of_nat off)"
    and "(r, off) \<in> set context_slots"
  shows "fst (swtch mmu s) = load64 (hw_mem s) q \<and> hw_reg (snd (swtch mmu s)) r = load64 (hw_mem s) (q + of_nat off) \<and>
    fst (swtch mmu u) = hw_reg s Rra \<and> hw_reg (snd (swtch mmu u)) r = hw_reg s r"
proof -
  note s = swtch_ok [OF assms(1-3)] and u = swtch_ok [OF assms(4-6)]
  have bk: "load64 (hw_mem u) (p + of_nat off') = hw_reg s r'" if "(r', off') \<in> set context_slots" for r' off'
    using s(2) [OF that] assms(7) [of off'] that by (auto simp: context_slots_def)
  then show ?thesis using s(1,3) u(1,3) assms(8) bk [of Rra 0] by (auto simp: context_slots_def)
qed

theorem swtch_resumes_witness:
  "fst (swtch bare (setr Ra1 0x1000 (setr Ra0 0x2000 (snd (swtch bare hw0))))) = 1 \<and>
   hw_reg (snd (swtch bare (setr Ra1 0x1000 (setr Ra0 0x2000 (snd (swtch bare hw0)))))) Rs5 = 5"
proof -
  let ?u = "setr Ra1 0x1000 (setr Ra0 0x2000 (snd (swtch bare hw0)))"
  have u: "unat (of_nat (off + k) :: u64) = off + k" if "off < 112" "k \<le> 2 ^ 64 - 112" for off k :: nat
    using that by (intro unat_of_nat_lt) simp
  have e: "0x2000 + of_nat off - 0x1000 = (of_nat (off + 0x1000) :: u64)"
    "0x1000 + of_nat off - 0x2000 = (of_nat (off + 0xFFFFFFFFFFFFF000) :: u64)" for off by simp_all
  have ap: "apart 0x1000 0x2000" unfolding apart_def e by (intro allI impI, subst u) simp_all
  have ap': "apart 0x2000 0x1000" unfolding apart_def e by (intro allI impI, subst u) simp_all
  have "fst (swtch bare ?u) = hw_reg hw0 Rra \<and> hw_reg (snd (swtch bare ?u)) Rs5 = hw_reg hw0 Rs5"
    using swtch_resumes [of bare hw0 "0x1000" "0x2000" ?u "0x2000" Rs5 "56"] ap ap'
    by (simp add: frame_def bare_def context_slots_def) (simp add: hw0_def)
  then show ?thesis by (simp add: hw0_def)
qed

section \<open>Boot\<close>

lemma mpp_supervisor: "drop_bit 11 ((x AND NOT (push_bit 11 (mask 2)) OR push_bit 11 1) OR push_bit 3 1) AND mask 2 = (1 :: u64)"
  by (rule bit_word_eqI) (auto simp: bit_simps)



end
