(* ===== verification/Vm.thy ===== *)
theory Vm
  imports Kalloc
begin

text \<open>
  Virtual memory, \<^verbatim>\<open>kernel/vm.c\<close>. A page table is a three-level tree of 4096-byte pages in
  physical memory; a page-table entry is the 64-bit word at \<open>pte_addr p i\<close>. The functions
  work on the allocator's state, since walking may allocate. Source and destination buffers in
  the kernel are lists of bytes; the user side is physical memory.
\<close>

section \<open>Walking and mapping\<close>

definition pte_addr :: "u64 \<Rightarrow> u64 \<Rightarrow> u64" where
  "pte_addr pagetable i = pagetable + 8 * i"

abbreviation get_pte :: "'a kmem_scheme \<Rightarrow> u64 \<Rightarrow> u64" where
  "get_pte s a \<equiv> load64 (memory s) a"

definition set_pte :: "u64 \<Rightarrow> u64 \<Rightarrow> 'a kmem_scheme \<Rightarrow> 'a kmem_scheme" where
  "set_pte a v s = s\<lparr>memory := store64 (memory s) a v\<rparr>"

definition zero_page :: "u64 \<Rightarrow> 'a kmem_scheme \<Rightarrow> 'a kmem_scheme" where
  "zero_page p s = s\<lparr>memory := memset (memory s) p 0 4096\<rparr>"

text \<open>The loop of \<open>walk\<close> over levels 2 and 1; level 0 gives the address of the leaf entry.\<close>

fun walk_loop :: "nat \<Rightarrow> u64 \<Rightarrow> u64 \<Rightarrow> bool \<Rightarrow> 'a kmem_scheme \<Rightarrow> (u64, 'a kmem_scheme) res" where
  "walk_loop 0 pagetable va alloc s = Ret (pte_addr pagetable (PX 0 va)) s"
| "walk_loop (Suc l) pagetable va alloc s =
     (let pte = pte_addr pagetable (PX (Suc l) va)
      in if get_pte s pte AND PTE_V \<noteq> 0
         then walk_loop l (PTE2PA (get_pte s pte)) va alloc s
         else if \<not> alloc then Ret 0 s
         else rbind (kalloc s) (\<lambda>pg s.
           if pg = 0 then Ret 0 s
           else walk_loop l pg va alloc (set_pte pte (PA2PTE pg OR PTE_V) (zero_page pg s))))"

definition walk :: "u64 \<Rightarrow> u64 \<Rightarrow> bool \<Rightarrow> 'a kmem_scheme \<Rightarrow> (u64, 'a kmem_scheme) res" where
  "walk pagetable va alloc s =
     (if va \<ge> MAXVA then Panic ''walk'' else walk_loop 2 pagetable va alloc s)"

definition walkaddr :: "u64 \<Rightarrow> u64 \<Rightarrow> 'a kmem_scheme \<Rightarrow> (u64, 'a kmem_scheme) res" where
  "walkaddr pagetable va s =
     (if va \<ge> MAXVA then Ret 0 s
      else rbind (walk pagetable va False s) (\<lambda>pte s.
        if pte = 0 then Ret 0 s
        else if get_pte s pte AND PTE_V = 0 then Ret 0 s
        else if get_pte s pte AND PTE_U = 0 then Ret 0 s
        else Ret (PTE2PA (get_pte s pte)) s))"

lemma walk_Ret_less: "walk pt va al s = Ret r s' \<Longrightarrow> va < MAXVA"
  by (simp add: walk_def split: if_splits)

lemma unat_add_page: "va < MAXVA \<Longrightarrow> unat (va + PGSIZE) = unat va + 4096"
  by (simp add: word_less_nat_alt unat_word_ariths)

lemma walk_Ret_decreases:
  "walk pt a al s = Ret pte s1 \<Longrightarrow> 2 ^ 64 - unat (a + PGSIZE) < 2 ^ 64 - unat a"
  using walk_Ret_less [of pt a al s pte s1]
  by (simp add: unat_add_page word_less_nat_alt del: PGSIZE_def)

function mappages_loop ::
  "u64 \<Rightarrow> u64 \<Rightarrow> u64 \<Rightarrow> u64 \<Rightarrow> u64 \<Rightarrow> 'a kmem_scheme \<Rightarrow> (int, 'a kmem_scheme) res" where
  "mappages_loop pagetable a last_a pa perm s =
     rbind (walk pagetable a True s) (\<lambda>pte s.
       if pte = 0 then Ret (-1) s
       else if get_pte s pte AND PTE_V \<noteq> 0 then Panic ''mappages: remap''
       else let s = set_pte pte (PA2PTE pa OR perm OR PTE_V) s
            in if a = last_a then Ret 0 s
               else mappages_loop pagetable (a + PGSIZE) last_a (pa + PGSIZE) perm s)"
  by pat_completeness auto
termination
  by (relation "measure (\<lambda>(pt, a, l, pa, p, s). 2 ^ 64 - unat a)")
    (simp, simp only: in_measure prod.case walk_Ret_decreases)

declare mappages_loop.simps [simp del]

definition mappages ::
  "u64 \<Rightarrow> u64 \<Rightarrow> u64 \<Rightarrow> u64 \<Rightarrow> u64 \<Rightarrow> 'a kmem_scheme \<Rightarrow> (int, 'a kmem_scheme) res" where
  "mappages pagetable va sz pa perm s =
     (if sz = 0 then Panic ''mappages: size''
      else mappages_loop pagetable (PGROUNDDOWN va) (PGROUNDDOWN (va + sz - 1)) pa perm s)"

definition kvmmap ::
  "u64 \<Rightarrow> u64 \<Rightarrow> u64 \<Rightarrow> u64 \<Rightarrow> u64 \<Rightarrow> 'a kmem_scheme \<Rightarrow> (unit, 'a kmem_scheme) res" where
  "kvmmap kpgtbl va pa sz perm s =
     rbind (mappages kpgtbl va sz pa perm s) (\<lambda>r s. if r \<noteq> 0 then Panic ''kvmmap'' else Ret () s)"

text \<open>
  The kernel's direct map, with a mapped stack for every process slot. \<open>etext\<close> and \<open>trampoline\<close>
  are symbols of the linker script: the end of the kernel text and the address of the trampoline
  page. The result of the first \<open>kalloc\<close> is not tested.
\<close>

definition proc_mapstacks :: "u64 \<Rightarrow> 'a kmem_scheme \<Rightarrow> (unit, 'a kmem_scheme) res" where
  "proc_mapstacks kpgtbl s =
     rfor [0..<NPROC] (\<lambda>i s.
       rbind (kalloc s) (\<lambda>pa s.
         if pa = 0 then Panic ''kalloc''
         else kvmmap kpgtbl (KSTACK i) pa PGSIZE (PTE_R OR PTE_W) s)) s"

definition kvmmake :: "u64 \<Rightarrow> u64 \<Rightarrow> 'a kmem_scheme \<Rightarrow> (u64, 'a kmem_scheme) res" where
  "kvmmake etext trampoline s =
     rbind (kalloc s) (\<lambda>kpgtbl s.
     rbind (kvmmap kpgtbl UART0 UART0 PGSIZE (PTE_R OR PTE_W) (zero_page kpgtbl s)) (\<lambda>_ s.
     rbind (kvmmap kpgtbl VIRTIO0 VIRTIO0 PGSIZE (PTE_R OR PTE_W) s) (\<lambda>_ s.
     rbind (kvmmap kpgtbl PLIC PLIC 0x400000 (PTE_R OR PTE_W) s) (\<lambda>_ s.
     rbind (kvmmap kpgtbl KERNBASE KERNBASE (etext - KERNBASE) (PTE_R OR PTE_X) s) (\<lambda>_ s.
     rbind (kvmmap kpgtbl etext etext (PHYSTOP - etext) (PTE_R OR PTE_W) s) (\<lambda>_ s.
     rbind (kvmmap kpgtbl TRAMPOLINE trampoline PGSIZE (PTE_R OR PTE_X) s) (\<lambda>_ s.
     rbind (proc_mapstacks kpgtbl s) (\<lambda>_ s. Ret kpgtbl s))))))))"

function uvmunmap_loop ::
  "u64 \<Rightarrow> u64 \<Rightarrow> u64 \<Rightarrow> bool \<Rightarrow> 'a kmem_scheme \<Rightarrow> (unit, 'a kmem_scheme) res" where
  "uvmunmap_loop pagetable a e do_free s =
     (if a < e
      then rbind (walk pagetable a False s) (\<lambda>pte s.
        if pte = 0 then Panic ''uvmunmap: walk''
        else if get_pte s pte AND PTE_V = 0 then Panic ''uvmunmap: not mapped''
        else if PTE_FLAGS (get_pte s pte) = PTE_V then Panic ''uvmunmap: not a leaf''
        else rbind (if do_free then kfree (PTE2PA (get_pte s pte)) s else Ret () s) (\<lambda>_ s.
          uvmunmap_loop pagetable (a + PGSIZE) e do_free (set_pte pte 0 s)))
      else Ret () s)"
  by pat_completeness auto
termination
  by (relation "measure (\<lambda>(pt, a, e, d, s). 2 ^ 64 - unat a)")
    (simp, simp only: in_measure prod.case walk_Ret_decreases)

declare uvmunmap_loop.simps [simp del]

definition uvmunmap ::
  "u64 \<Rightarrow> u64 \<Rightarrow> u64 \<Rightarrow> bool \<Rightarrow> 'a kmem_scheme \<Rightarrow> (unit, 'a kmem_scheme) res" where
  "uvmunmap pagetable va npages do_free s =
     (if va mod PGSIZE \<noteq> 0 then Panic ''uvmunmap: not aligned''
      else uvmunmap_loop pagetable va (va + npages * PGSIZE) do_free s)"

section \<open>User address spaces\<close>

definition uvmcreate :: "'a kmem_scheme \<Rightarrow> (u64, 'a kmem_scheme) res" where
  "uvmcreate s =
     rbind (kalloc s) (\<lambda>pagetable s.
       if pagetable = 0 then Ret 0 s else Ret pagetable (zero_page pagetable s))"

text \<open>Storing bytes at a physical address: \<open>memmove\<close> from a kernel buffer.\<close>

definition write_bytes :: "u64 \<Rightarrow> u8 list \<Rightarrow> 'a kmem_scheme \<Rightarrow> 'a kmem_scheme" where
  "write_bytes a bs s = s\<lparr>memory := \<lambda>x. if unat (x - a) < length bs then bs ! unat (x - a) else memory s x\<rparr>"

definition read_bytes :: "u64 \<Rightarrow> nat \<Rightarrow> 'a kmem_scheme \<Rightarrow> u8 list" where
  "read_bytes a n s = map (\<lambda>i. memory s (a + of_nat i)) [0..<n]"

text \<open>The result of \<open>kalloc\<close> is not tested: with no memory left, page 0 is zeroed and mapped.\<close>

definition uvmfirst :: "u64 \<Rightarrow> u8 list \<Rightarrow> 'a kmem_scheme \<Rightarrow> (unit, 'a kmem_scheme) res" where
  "uvmfirst pagetable src s =
     (if length src \<ge> 4096 then Panic ''uvmfirst: more than a page''
      else rbind (kalloc s) (\<lambda>m s.
        rbind (mappages pagetable 0 PGSIZE m (PTE_W OR PTE_R OR PTE_X OR PTE_U) (zero_page m s)) (\<lambda>_ s.
          Ret () (write_bytes m src s))))"

definition uvmdealloc :: "u64 \<Rightarrow> u64 \<Rightarrow> u64 \<Rightarrow> 'a kmem_scheme \<Rightarrow> (u64, 'a kmem_scheme) res" where
  "uvmdealloc pagetable oldsz newsz s =
     (if newsz \<ge> oldsz then Ret oldsz s
      else rbind
        (if PGROUNDUP newsz < PGROUNDUP oldsz
         then let npages = s32 (uint ((PGROUNDUP oldsz - PGROUNDUP newsz) div PGSIZE))
              in uvmunmap pagetable (PGROUNDUP newsz) (word_of_int npages) True s
         else Ret () s)
        (\<lambda>_ s. Ret newsz s))"

function uvmalloc_loop ::
  "u64 \<Rightarrow> u64 \<Rightarrow> u64 \<Rightarrow> u64 \<Rightarrow> u64 \<Rightarrow> 'a kmem_scheme \<Rightarrow> (u64, 'a kmem_scheme) res" where
  "uvmalloc_loop pagetable a oldsz newsz xperm s =
     (if a < newsz
      then rbind (kalloc s) (\<lambda>m s.
        if m = 0 then rbind (uvmdealloc pagetable a oldsz s) (\<lambda>_ s. Ret 0 s)
        else rbind (mappages pagetable a PGSIZE m (PTE_R OR PTE_U OR xperm) (zero_page m s)) (\<lambda>r s.
          if r \<noteq> 0
          then rbind (kfree m s) (\<lambda>_ s. rbind (uvmdealloc pagetable a oldsz s) (\<lambda>_ s. Ret 0 s))
          else uvmalloc_loop pagetable (a + PGSIZE) oldsz newsz xperm s))
      else Ret newsz s)"
  by pat_completeness auto
termination
proof (relation "measure (\<lambda>(pt, a, os, ns, x, s). 2 ^ 64 - unat a)")
  fix pt a os ns x m :: u64 and s s1 s2 s3 :: "'a kmem_scheme" and r
  assume "mappages pt a PGSIZE m (PTE_R OR PTE_U OR x) s2 = Ret r s3"
  then have "\<exists>pte t. walk pt (PGROUNDDOWN a) True s2 = Ret pte t"
    by (subst (asm) mappages_def, subst (asm) mappages_loop.simps) (auto simp: rbind_eq_Ret split: if_splits)
  then have "PGROUNDDOWN a < MAXVA" by (auto dest: walk_Ret_less)
  then have "unat a < 0x4000000000 + 4096"
    using div_mult_mod_eq [of "unat a" 4096] mod_less_divisor [of 4096 "unat a"]
    by (simp only: word_less_nat_alt unat_PGROUNDDOWN) (simp del: mod_less_divisor)
  then have "unat (a + PGSIZE) = unat a + 4096" by (simp add: unat_word_ariths)
  with \<open>unat a < 0x4000000000 + 4096\<close>
  show "((pt, a + PGSIZE, os, ns, x, s3), (pt, a, os, ns, x, s)) \<in> measure (\<lambda>(pt, a, os, ns, x, s). 2 ^ 64 - unat a)"
    by simp
qed simp

declare uvmalloc_loop.simps [simp del]

definition uvmalloc :: "u64 \<Rightarrow> u64 \<Rightarrow> u64 \<Rightarrow> u64 \<Rightarrow> 'a kmem_scheme \<Rightarrow> (u64, 'a kmem_scheme) res" where
  "uvmalloc pagetable oldsz newsz xperm s =
     (if newsz < oldsz then Ret oldsz s
      else uvmalloc_loop pagetable (PGROUNDUP oldsz) (PGROUNDUP oldsz) newsz xperm s)"

text \<open>
  The recursion of \<open>freewalk\<close> follows child pointers; Sv39 tables have three levels, and
  \<open>depth\<close> bounds it. A deeper recursion runs off the kernel stack onto its guard page, where
  the fault panics.
\<close>

fun freewalk :: "nat \<Rightarrow> u64 \<Rightarrow> 'a kmem_scheme \<Rightarrow> (unit, 'a kmem_scheme) res" where
  "freewalk 0 pagetable s = Panic ''kerneltrap''"
| "freewalk (Suc depth) pagetable s =
     rbind
       (rfor [0..<512] (\<lambda>i s.
          let a = pte_addr pagetable (of_nat i); pte = get_pte s a
          in if pte AND PTE_V \<noteq> 0 \<and> pte AND (PTE_R OR PTE_W OR PTE_X) = 0
             then rbind (freewalk depth (PTE2PA pte) s) (\<lambda>_ s. Ret () (set_pte a 0 s))
             else if pte AND PTE_V \<noteq> 0 then Panic ''freewalk: leaf''
             else Ret () s) s)
       (\<lambda>_ s. kfree pagetable s)"

definition uvmfree :: "u64 \<Rightarrow> u64 \<Rightarrow> 'a kmem_scheme \<Rightarrow> (unit, 'a kmem_scheme) res" where
  "uvmfree pagetable sz s =
     rbind (if sz > 0 then uvmunmap pagetable 0 (PGROUNDUP sz div PGSIZE) True s else Ret () s)
       (\<lambda>_ s. freewalk 3 pagetable s)"

function uvmcopy_loop :: "u64 \<Rightarrow> u64 \<Rightarrow> u64 \<Rightarrow> u64 \<Rightarrow> 'a kmem_scheme \<Rightarrow> (int, 'a kmem_scheme) res" where
  "uvmcopy_loop old new i sz s =
     (if i < sz
      then rbind (walk old i False s) (\<lambda>pte s.
        if pte = 0 then Panic ''uvmcopy: pte should exist''
        else if get_pte s pte AND PTE_V = 0 then Panic ''uvmcopy: page not present''
        else let pa = PTE2PA (get_pte s pte); flags = PTE_FLAGS (get_pte s pte)
          in rbind (kalloc s) (\<lambda>m s.
            if m = 0 then rbind (uvmunmap new 0 (i div PGSIZE) True s) (\<lambda>_ s. Ret (-1) s)
            else rbind (mappages new i PGSIZE m flags (s\<lparr>memory := memmove (memory s) m pa 4096\<rparr>)) (\<lambda>r s.
              if r \<noteq> 0
              then rbind (kfree m s) (\<lambda>_ s. rbind (uvmunmap new 0 (i div PGSIZE) True s) (\<lambda>_ s. Ret (-1) s))
              else uvmcopy_loop old new (i + PGSIZE) sz s)))
      else Ret 0 s)"
  by pat_completeness auto
termination
  by (relation "measure (\<lambda>(o', n, i, sz, s). 2 ^ 64 - unat i)")
    (simp, simp only: in_measure prod.case walk_Ret_decreases)

declare uvmcopy_loop.simps [simp del]

definition uvmcopy :: "u64 \<Rightarrow> u64 \<Rightarrow> u64 \<Rightarrow> 'a kmem_scheme \<Rightarrow> (int, 'a kmem_scheme) res" where
  "uvmcopy old new sz s = uvmcopy_loop old new 0 sz s"

definition uvmclear :: "u64 \<Rightarrow> u64 \<Rightarrow> 'a kmem_scheme \<Rightarrow> (unit, 'a kmem_scheme) res" where
  "uvmclear pagetable va s =
     rbind (walk pagetable va False s) (\<lambda>pte s.
       if pte = 0 then Panic ''uvmclear'' else Ret () (set_pte pte (get_pte s pte AND NOT PTE_U) s))"

section \<open>Copying between kernel and user\<close>

text \<open>
  The number of bytes a round of the copy loops handles: to the end of the page, at most \<open>len\<close>.
\<close>

definition chunk :: "u64 \<Rightarrow> nat \<Rightarrow> nat" where
  "chunk va len = min (4096 - unat (va - PGROUNDDOWN va)) len"

lemma page_offset_less: "unat (va - PGROUNDDOWN va) < 4096"
  using PGROUNDDOWN_iff [of "PGROUNDDOWN va" va] by simp

lemma chunk_pos: "0 < len \<Longrightarrow> 0 < chunk va len"
  using page_offset_less [of va] by (simp add: chunk_def)

function copyout :: "u64 \<Rightarrow> u64 \<Rightarrow> u8 list \<Rightarrow> 'a kmem_scheme \<Rightarrow> (int, 'a kmem_scheme) res" where
  "copyout pagetable dstva src s =
     (if length src > 0
      then let va0 = PGROUNDDOWN dstva
        in rbind (walkaddr pagetable va0 s) (\<lambda>pa0 s.
          if pa0 = 0 then Ret (-1) s
          else let n = chunk dstva (length src)
            in copyout pagetable (va0 + PGSIZE) (drop n src)
                 (write_bytes (pa0 + (dstva - va0)) (take n src) s))
      else Ret 0 s)"
  by pat_completeness auto
termination
  by (relation "measure (\<lambda>(pt, va, src, s). length src)") (auto simp: chunk_pos)

declare copyout.simps [simp del]

text \<open>\<open>copyin\<close> gives its status and the bytes it stored at \<open>dst\<close>.\<close>

function copyin_loop ::
  "u64 \<Rightarrow> u64 \<Rightarrow> nat \<Rightarrow> u8 list \<Rightarrow> 'a kmem_scheme \<Rightarrow> (int \<times> u8 list, 'a kmem_scheme) res" where
  "copyin_loop pagetable srcva len acc s =
     (if len > 0
      then let va0 = PGROUNDDOWN srcva
        in rbind (walkaddr pagetable va0 s) (\<lambda>pa0 s.
          if pa0 = 0 then Ret (-1, acc) s
          else let n = chunk srcva len
            in copyin_loop pagetable (va0 + PGSIZE) (len - n)
                 (acc @ read_bytes (pa0 + (srcva - va0)) n s) s)
      else Ret (0, acc) s)"
  by pat_completeness auto
termination
  by (relation "measure (\<lambda>(pt, va, len, acc, s). len)") (auto simp: chunk_pos)

declare copyin_loop.simps [simp del]

definition copyin :: "u64 \<Rightarrow> u64 \<Rightarrow> nat \<Rightarrow> 'a kmem_scheme \<Rightarrow> (int \<times> u8 list, 'a kmem_scheme) res" where
  "copyin pagetable srcva len s = copyin_loop pagetable srcva len [] s"

text \<open>
  The inner loop of \<open>copyinstr\<close> over the bytes of one page: the bytes stored, and whether the
  terminator was among them.
\<close>

fun copy_until_nul :: "u8 list \<Rightarrow> u8 list \<times> bool" where
  "copy_until_nul [] = ([], False)"
| "copy_until_nul (c # cs) =
     (if c = 0 then ([0], True) else let (bs, nul) = copy_until_nul cs in (c # bs, nul))"

function copyinstr_loop ::
  "u64 \<Rightarrow> u64 \<Rightarrow> nat \<Rightarrow> u8 list \<Rightarrow> 'a kmem_scheme \<Rightarrow> (int \<times> u8 list, 'a kmem_scheme) res" where
  "copyinstr_loop pagetable srcva mx acc s =
     (if mx > 0
      then let va0 = PGROUNDDOWN srcva
        in rbind (walkaddr pagetable va0 s) (\<lambda>pa0 s.
          if pa0 = 0 then Ret (-1, acc) s
          else let n = chunk srcva mx;
                   (bs, got_null) = copy_until_nul (read_bytes (pa0 + (srcva - va0)) n s)
            in if got_null then Ret (0, acc @ bs) s
               else copyinstr_loop pagetable (va0 + PGSIZE) (mx - n) (acc @ bs) s)
      else Ret (-1, acc) s)"
  by pat_completeness auto
termination
  by (relation "measure (\<lambda>(pt, va, m, acc, s). m)") (auto simp: chunk_pos)

declare copyinstr_loop.simps [simp del]

definition copyinstr ::
  "u64 \<Rightarrow> u64 \<Rightarrow> nat \<Rightarrow> 'a kmem_scheme \<Rightarrow> (int \<times> u8 list, 'a kmem_scheme) res" where
  "copyinstr pagetable srcva mx s = copyinstr_loop pagetable srcva mx [] s"

end
