(* ===== verification/Spinlock.thy ===== *)
theory Spinlock
  imports Hw
begin

text \<open>
  Spin locks and interrupt disabling, \<^verbatim>\<open>kernel/spinlock.c\<close>. A hart is the per-CPU part of the
  state (\<open>struct cpu\<close> without the saved context) with its interrupt-enable flag. The
  sequential functions are those of the file; \<open>acquire\<close> on a lock that another hart holds does
  not get past its loop, the outcome \<open>Sleep NoChan\<close>. The second part composes the atomic
  steps of several harts into a transition system and shows mutual exclusion.
\<close>

section \<open>State and operations\<close>

record spinlock =
  lk_locked :: bool
  lk_name :: string
  lk_cpu :: "nat option"

record hart =
  c_proc :: "nat option"
  c_noff :: int
  c_intena :: bool
  sie :: bool

definition initlock :: "string \<Rightarrow> spinlock \<Rightarrow> spinlock" where
  "initlock nm lk = lk\<lparr>lk_name := nm, lk_locked := False, lk_cpu := None\<rparr>"

definition intr_get :: "hart \<Rightarrow> bool" where
  "intr_get h = sie h"

definition intr_off :: "hart \<Rightarrow> hart" where
  "intr_off h = h\<lparr>sie := False\<rparr>"

definition intr_on :: "hart \<Rightarrow> hart" where
  "intr_on h = h\<lparr>sie := True\<rparr>"

definition push_off :: "hart \<Rightarrow> hart" where
  "push_off h =
     (let old = intr_get h; h = intr_off h;
          h = (if c_noff h = 0 then h\<lparr>c_intena := old\<rparr> else h)
      in h\<lparr>c_noff := s32 (c_noff h + 1)\<rparr>)"

definition pop_off :: "hart \<Rightarrow> (unit, hart) res" where
  "pop_off h =
     (if intr_get h then Panic ''pop_off - interruptible''
      else if c_noff h < 1 then Panic ''pop_off''
      else let h = h\<lparr>c_noff := s32 (c_noff h - 1)\<rparr>
           in Ret () (if c_noff h = 0 \<and> c_intena h then intr_on h else h))"

definition holding :: "nat \<Rightarrow> spinlock \<Rightarrow> bool" where
  "holding me lk \<longleftrightarrow> lk_locked lk \<and> lk_cpu lk = Some me"

definition acquire :: "nat \<Rightarrow> hart \<times> spinlock \<Rightarrow> (unit, hart \<times> spinlock) res" where
  "acquire me = (\<lambda>(h, lk).
     let h = push_off h
     in if holding me lk then Panic ''acquire''
        else if lk_locked lk then Sleep NoChan (h, lk)
        else Ret () (h, lk\<lparr>lk_locked := True, lk_cpu := Some me\<rparr>))"

definition release :: "nat \<Rightarrow> hart \<times> spinlock \<Rightarrow> (unit, hart \<times> spinlock) res" where
  "release me = (\<lambda>(h, lk).
     if \<not> holding me lk then Panic ''release''
     else let lk = lk\<lparr>lk_cpu := None\<rparr>; lk = lk\<lparr>lk_locked := False\<rparr>
          in case pop_off h of
               Ret _ h \<Rightarrow> Ret () (h, lk)
             | Panic e \<Rightarrow> Panic e
             | Sleep c h \<Rightarrow> Sleep c (h, lk))"

section \<open>Nesting of interrupt disabling\<close>

text \<open>A hart between kernel sections: interrupts in any state, no \<open>push_off\<close> outstanding.\<close>

definition off_depth :: "nat \<Rightarrow> bool \<Rightarrow> hart \<Rightarrow> bool" where
  "off_depth n en h \<longleftrightarrow>
     c_noff h = int n \<and> n < 2 ^ 30 \<and> (if n = 0 then sie h = en else \<not> sie h \<and> c_intena h = en)"

lemma off_depth_push: "off_depth n en h \<Longrightarrow> Suc n < 2 ^ 30 \<Longrightarrow> off_depth (Suc n) en (push_off h)"
  by (auto simp: off_depth_def push_off_def Let_def intr_get_def intr_off_def split: if_splits)

lemma off_depth_pop:
  "off_depth (Suc n) en h \<Longrightarrow> \<exists>h'. pop_off h = Ret () h' \<and> off_depth n en h' \<and> c_proc h' = c_proc h"
  by (auto simp: off_depth_def pop_off_def Let_def intr_get_def intr_on_def split: if_splits)

fun pops :: "nat \<Rightarrow> hart \<Rightarrow> (unit, hart) res" where
  "pops 0 h = Ret () h"
| "pops (Suc n) h = rbind (pop_off h) (\<lambda>_ h. pops n h)"

lemma off_depth_pops: "off_depth n en h \<Longrightarrow> \<exists>h'. pops n h = Ret () h' \<and> off_depth 0 en h'"
proof (induction n arbitrary: h)
  case (Suc n)
  from off_depth_pop [OF Suc.prems] obtain h1 where "pop_off h = Ret () h1" "off_depth n en h1" by blast
  with Suc.IH show ?case by simp
qed simp

lemma off_depth_pushes: "off_depth 0 en h \<Longrightarrow> n < 2 ^ 30 \<Longrightarrow> off_depth n en ((push_off ^^ n) h)"
  by (induction n) (auto simp: off_depth_push)

section \<open>Several harts\<close>

text \<open>
  Where a hart is in \<open>acquire\<close> and \<open>release\<close>: outside, spinning on the atomic swap, owner of
  the lock before recording itself, in the critical section, and owner after clearing
  \<open>lk->cpu\<close>.
\<close>

datatype pc = Out | Spin | Got | Crit | Rel

record machine =
  m_lock :: spinlock
  m_hart :: "nat \<Rightarrow> hart"
  m_pc :: "nat \<Rightarrow> pc"
  m_panic :: bool

text \<open>
  One atomic step of hart \<open>i\<close>. The panics of \<open>acquire\<close> and \<open>release\<close> are steps to a state
  with \<open>m_panic\<close> set.
\<close>

inductive lock_step :: "machine \<Rightarrow> machine \<Rightarrow> bool" where
  begin_acquire: "m_pc m i = Out \<Longrightarrow> \<not> holding i (m_lock m) \<Longrightarrow>
    lock_step m (m\<lparr>m_hart := (m_hart m)(i := push_off (m_hart m i)), m_pc := (m_pc m)(i := Spin)\<rparr>)"
| acquire_panic: "m_pc m i = Out \<Longrightarrow> holding i (m_lock m) \<Longrightarrow> lock_step m (m\<lparr>m_panic := True\<rparr>)"
| swap_fails: "m_pc m i = Spin \<Longrightarrow> lk_locked (m_lock m) \<Longrightarrow> lock_step m m"
| swap_gets: "m_pc m i = Spin \<Longrightarrow> \<not> lk_locked (m_lock m) \<Longrightarrow>
    lock_step m (m\<lparr>m_lock := (m_lock m)\<lparr>lk_locked := True\<rparr>, m_pc := (m_pc m)(i := Got)\<rparr>)"
| record_cpu: "m_pc m i = Got \<Longrightarrow>
    lock_step m (m\<lparr>m_lock := (m_lock m)\<lparr>lk_cpu := Some i\<rparr>, m_pc := (m_pc m)(i := Crit)\<rparr>)"
| begin_release: "m_pc m i = Crit \<Longrightarrow> holding i (m_lock m) \<Longrightarrow>
    lock_step m (m\<lparr>m_lock := (m_lock m)\<lparr>lk_cpu := None\<rparr>, m_pc := (m_pc m)(i := Rel)\<rparr>)"
| release_panic: "m_pc m i = Crit \<Longrightarrow> \<not> holding i (m_lock m) \<Longrightarrow> lock_step m (m\<lparr>m_panic := True\<rparr>)"
| unlock: "m_pc m i = Rel \<Longrightarrow> pop_off (m_hart m i) = Ret () h \<Longrightarrow>
    lock_step m (m\<lparr>m_lock := (m_lock m)\<lparr>lk_locked := False\<rparr>, m_hart := (m_hart m)(i := h), m_pc := (m_pc m)(i := Out)\<rparr>)"
| pop_panic: "m_pc m i = Rel \<Longrightarrow> pop_off (m_hart m i) = Panic e \<Longrightarrow> lock_step m (m\<lparr>m_panic := True\<rparr>)"

inductive lock_run :: "machine \<Rightarrow> machine \<Rightarrow> bool" where
  lock_run_refl: "lock_run m m"
| lock_run_step: "lock_run m m1 \<Longrightarrow> lock_step m1 m2 \<Longrightarrow> lock_run m m2"

inductive_cases lock_stepE: "lock_step m m'"

definition lock_init :: "(nat \<Rightarrow> bool) \<Rightarrow> machine \<Rightarrow> bool" where
  "lock_init en m \<longleftrightarrow> \<not> lk_locked (m_lock m) \<and> lk_cpu (m_lock m) = None \<and> \<not> m_panic m \<and>
     (\<forall>i. m_pc m i = Out \<and> off_depth 0 (en i) (m_hart m i))"

definition owner :: "pc \<Rightarrow> bool" where
  "owner p \<longleftrightarrow> p \<in> {Got, Crit, Rel}"

text \<open>
  The lock word is set exactly while one hart is past the swap; that hart alone is recorded in
  \<open>lk->cpu\<close>, and only between the two assignments; every hart that is not outside has
  interrupts disabled, one level deep.
\<close>

definition lock_inv :: "(nat \<Rightarrow> bool) \<Rightarrow> machine \<Rightarrow> bool" where
  "lock_inv en m \<longleftrightarrow>
     (\<exists>w. (\<forall>i. owner (m_pc m i) \<longleftrightarrow> w = Some i) \<and> lk_locked (m_lock m) = (w \<noteq> None)) \<and>
     (\<forall>i. lk_cpu (m_lock m) = Some i \<longleftrightarrow> m_pc m i = Crit) \<and>
     (\<forall>i. off_depth (if m_pc m i = Out then 0 else 1) (en i) (m_hart m i)) \<and> \<not> m_panic m"

lemma owner_simps [simp]: "\<not> owner Out" "\<not> owner Spin" "owner Got" "owner Crit" "owner Rel"
  by (simp_all add: owner_def)

lemma lock_invD:
  assumes "lock_inv en m"
  shows "owner (m_pc m i) \<Longrightarrow> owner (m_pc m j) \<Longrightarrow> i = j"
    and "owner (m_pc m i) \<Longrightarrow> lk_locked (m_lock m)"
    and "lk_cpu (m_lock m) = Some i \<longleftrightarrow> m_pc m i = Crit"
    and "m_pc m i = Out \<Longrightarrow> off_depth 0 (en i) (m_hart m i)"
    and "m_pc m i \<noteq> Out \<Longrightarrow> off_depth 1 (en i) (m_hart m i)"
    and "\<not> m_panic m"
proof -
  obtain w where w: "\<forall>i. owner (m_pc m i) \<longleftrightarrow> w = Some i" "lk_locked (m_lock m) = (w \<noteq> None)"
    using assms unfolding lock_inv_def by blast
  show "owner (m_pc m i) \<Longrightarrow> owner (m_pc m j) \<Longrightarrow> i = j" "owner (m_pc m i) \<Longrightarrow> lk_locked (m_lock m)"
    using w by auto
  show "lk_cpu (m_lock m) = Some i \<longleftrightarrow> m_pc m i = Crit" "\<not> m_panic m"
    using assms unfolding lock_inv_def by blast+
  have "off_depth (if m_pc m i = Out then 0 else 1) (en i) (m_hart m i)" using assms unfolding lock_inv_def by blast
  then show "m_pc m i = Out \<Longrightarrow> off_depth 0 (en i) (m_hart m i)" "m_pc m i \<noteq> Out \<Longrightarrow> off_depth 1 (en i) (m_hart m i)"
    by simp_all
qed

lemma lock_inv_init: "lock_init en m \<Longrightarrow> lock_inv en m"
  by (auto simp: lock_init_def lock_inv_def)

text \<open>A hart that becomes or stops being the owner.\<close>

lemma lock_inv_move:
  assumes inv: "lock_inv en m"
    and m': "m_pc m' = (m_pc m)(i := p)" "m_hart m' = (m_hart m)(i := h)" "m_panic m' = m_panic m"
    and own: "\<And>j. owner (if j = i then p else m_pc m j) \<longleftrightarrow> w = Some j" "lk_locked (m_lock m') = (w \<noteq> None)"
    and cpu: "\<And>j. lk_cpu (m_lock m') = Some j \<longleftrightarrow> (if j = i then p else m_pc m j) = Crit"
    and off: "off_depth (if p = Out then 0 else 1) (en i) h"
  shows "lock_inv en m'"
proof -
  have "m_pc m' j = (if j = i then p else m_pc m j)" for j by (simp add: m')
  then have "\<forall>j. owner (m_pc m' j) \<longleftrightarrow> w = Some j" "\<forall>j. lk_cpu (m_lock m') = Some j \<longleftrightarrow> m_pc m' j = Crit"
    using own cpu by presburger+
  moreover have "off_depth (if m_pc m' j = Out then 0 else 1) (en j) (m_hart m' j)" for j
    using inv off unfolding lock_inv_def m' by (cases "j = i") auto
  ultimately show ?thesis using own(2) inv m'(3) unfolding lock_inv_def by blast
qed

lemma lock_inv_step:
  assumes inv: "lock_inv en m" and "lock_step m m'"
  shows "lock_inv en m'"
  using assms(2)
proof cases
  case (begin_acquire i)
  obtain w where w: "\<forall>j. owner (m_pc m j) \<longleftrightarrow> w = Some j" "lk_locked (m_lock m) = (w \<noteq> None)"
    using inv unfolding lock_inv_def by blast
  have off: "off_depth 1 (en i) (push_off (m_hart m i))"
    using off_depth_push [of 0] lock_invD(4) [OF inv begin_acquire(2)] by simp
  show ?thesis
  proof (rule lock_inv_move [OF inv, where i = i and p = Spin and w = w])
    show "owner (if j = i then Spin else m_pc m j) \<longleftrightarrow> w = Some j" for j
      using w(1) [rule_format, of j] begin_acquire(2) by auto
    show "lk_cpu (m_lock m') = Some j \<longleftrightarrow> (if j = i then Spin else m_pc m j) = Crit" for j
      using lock_invD(3) [OF inv, of j] begin_acquire by auto
  qed (use begin_acquire w off in simp_all)
next
  case (acquire_panic i)
  then show ?thesis using lock_invD(3) [OF inv, of i] by (simp add: holding_def)
next
  case (swap_gets i)
  then have no: "\<not> owner (m_pc m j)" for j using lock_invD(2) [OF inv, of j] by blast
  then have nc: "m_pc m j \<noteq> Crit" for j by (metis owner_simps(4))
  then have "lk_cpu (m_lock m) = None" using lock_invD(3) [OF inv] by (metis not_None_eq)
  then show ?thesis
    using no nc lock_invD(5) [OF inv, of i] swap_gets
    by (intro lock_inv_move [OF inv, where i = i and p = Got and w = "Some i" and h = "m_hart m i"]) auto
next
  case (record_cpu i)
  then have no: "\<not> owner (m_pc m j)" if "j \<noteq> i" for j using lock_invD(1) [OF inv, of i j] that by auto
  then have "m_pc m j \<noteq> Crit" if "j \<noteq> i" for j using that by (metis owner_simps(4))
  then show ?thesis
    using no lock_invD(2,5) [OF inv, of i] record_cpu
    by (intro lock_inv_move [OF inv, where i = i and p = Crit and w = "Some i" and h = "m_hart m i"]) auto
next
  case (begin_release i)
  then have no: "\<not> owner (m_pc m j)" if "j \<noteq> i" for j using lock_invD(1) [OF inv, of i j] that by auto
  then have "m_pc m j \<noteq> Crit" if "j \<noteq> i" for j using that by (metis owner_simps(4))
  then show ?thesis
    using no lock_invD(2,5) [OF inv, of i] begin_release
    by (intro lock_inv_move [OF inv, where i = i and p = Rel and w = "Some i" and h = "m_hart m i"]) auto
next
  case (release_panic i)
  then show ?thesis using lock_invD(2,3) [OF inv, of i] by (simp add: holding_def)
next
  case (unlock i h)
  then have no: "\<not> owner (m_pc m j)" if "j \<noteq> i" for j using lock_invD(1) [OF inv, of i j] that by auto
  then have nc: "m_pc m j \<noteq> Crit" for j using unlock(2) by (cases "j = i") (simp, metis owner_simps(4))
  then have "lk_cpu (m_lock m) = None" using lock_invD(3) [OF inv] by (metis not_None_eq)
  moreover have "off_depth 0 (en i) h"
    using off_depth_pop [of 0 "en i" "m_hart m i"] lock_invD(5) [OF inv, of i] unlock by auto
  ultimately show ?thesis
    using no nc unlock by (intro lock_inv_move [OF inv, where i = i and p = Out and w = None and h = h]) auto
next
  case (pop_panic i)
  then show ?thesis using off_depth_pop [of 0 "en i" "m_hart m i"] lock_invD(5) [OF inv, of i] by auto
qed (use inv in simp)

lemma lock_inv_run: "lock_run m m' \<Longrightarrow> lock_inv en m \<Longrightarrow> lock_inv en m'"
  by (induction rule: lock_run.induct) (auto intro: lock_inv_step)

section \<open>Properties\<close>

text \<open>
  C20: mutual exclusion: however the atomic steps of any number of harts interleave, from a
  free lock no two harts are ever between acquiring and releasing it, none of the consistency
  checks of \<open>acquire\<close>, \<open>release\<close> and \<open>pop_off\<close> panics, and a hart in the critical section
  has interrupts off.
\<close>

theorem spinlock_mutex:
  assumes "lock_init en m" "lock_run m m'"
  shows "(\<forall>i j. owner (m_pc m' i) \<and> owner (m_pc m' j) \<longrightarrow> i = j) \<and> \<not> m_panic m' \<and>
     (\<forall>i. m_pc m' i = Crit \<longrightarrow> holding i (m_lock m') \<and> \<not> intr_get (m_hart m' i))"
proof -
  have inv: "lock_inv en m'" using assms lock_inv_init lock_inv_run by blast
  have "holding i (m_lock m') \<and> \<not> intr_get (m_hart m' i)" if "m_pc m' i = Crit" for i
    using lock_invD(2,3,5) [OF inv, of i] that by (simp add: holding_def intr_get_def off_depth_def)
  then show ?thesis using lock_invD(1,6) [OF inv] by blast
qed

definition machine_two :: machine where
  "machine_two = \<lparr>m_lock = \<lparr>lk_locked = False, lk_name = ''kmem'', lk_cpu = None\<rparr>,
     m_hart = \<lambda>_. \<lparr>c_proc = None, c_noff = 0, c_intena = False, sie = True\<rparr>, m_pc = \<lambda>_. Out, m_panic = False\<rparr>"

theorem spinlock_mutex_witness:
  "\<exists>m. lock_run machine_two m \<and> m_pc m 0 = Crit \<and> \<not> owner (m_pc m 1) \<and> \<not> m_panic m \<and>
     holding 0 (m_lock m) \<and> \<not> intr_get (m_hart m 0)"
proof -
  let ?m1 = "machine_two\<lparr>m_hart := (m_hart machine_two)(0 := push_off (m_hart machine_two 0)), m_pc := (m_pc machine_two)(0 := Spin)\<rparr>"
  let ?m2 = "?m1\<lparr>m_lock := (m_lock ?m1)\<lparr>lk_locked := True\<rparr>, m_pc := (m_pc ?m1)(0 := Got)\<rparr>"
  let ?m3 = "?m2\<lparr>m_lock := (m_lock ?m2)\<lparr>lk_cpu := Some 0\<rparr>, m_pc := (m_pc ?m2)(0 := Crit)\<rparr>"
  have "lock_step machine_two ?m1" by (rule begin_acquire) (simp_all add: machine_two_def holding_def)
  moreover have "lock_step ?m1 ?m2" by (rule swap_gets) (simp_all add: machine_two_def)
  moreover have "lock_step ?m2 ?m3" by (rule record_cpu) simp
  ultimately have run: "lock_run machine_two ?m3"
    using lock_run_step [OF lock_run_step [OF lock_run_step [OF lock_run_refl]]] by blast
  have pc: "m_pc ?m3 0 = Crit" by simp
  have i: "lock_init (\<lambda>_. True) machine_two" by (simp add: lock_init_def machine_two_def off_depth_def)
  note spinlock_mutex [OF i run]
  then have "holding 0 (m_lock ?m3) \<and> \<not> intr_get (m_hart ?m3 0)" "\<not> owner (m_pc ?m3 1)" "\<not> m_panic ?m3"
    using pc by (metis, metis owner_simps(4) zero_neq_one, metis)
  then show ?thesis using run pc by blast
qed

text \<open>
  \<open>push_off\<close> and \<open>pop_off\<close> match: after \<open>n\<close> pushes and \<open>n\<close> pops no check has panicked and
  interrupts are enabled exactly when they were before.
\<close>

lemma push_pop_restores:
  assumes "c_noff h = 0" "n < 2 ^ 30"
  shows "wpr (pops n ((push_off ^^ n) h)) (\<lambda>_ h'. intr_get h' = intr_get h \<and> c_noff h' = 0)"
proof -
  have "off_depth 0 (sie h) h" using assms(1) by (simp add: off_depth_def)
  from off_depth_pops [OF off_depth_pushes [OF this assms(2)]] show ?thesis
    by (auto simp: wpr_iff off_depth_def intr_get_def)
qed

end
