(* ===== verification/Proc.thy ===== *)
theory Proc
  imports Vm Spinlock
begin

text \<open>
  The process table, \<^verbatim>\<open>kernel/proc.c\<close>: process records, tick accounting, sleeping and waking,
  killing, and the three schedulers. A process is known by its slot in the table. The sections
  that \<open>p->lock\<close>, \<open>wait_lock\<close> and \<open>pid_lock\<close> protect run without interruption, so the locks
  themselves are not part of this state; \<^verbatim>\<open>Sched.thy\<close> treats the locking around \<open>sched\<close>.
  Creating and ending processes needs files and is in \<^verbatim>\<open>Procops.thy\<close>.
\<close>

section \<open>State\<close>

datatype procstate = UNUSED | USED | SLEEPING | RUNNABLE | RUNNING | ZOMBIE

text \<open>The saved kernel registers of a process; the callee-saved registers \<open>s0\<close> to \<open>s11\<close> as a list.\<close>

record kcontext =
  ctx_ra :: u64
  ctx_sp :: u64
  ctx_s :: "u64 list"

record proc =
  p_state :: procstate
  p_chan :: chan
  p_killed :: int
  p_xstate :: int
  p_pid :: int
  p_parent :: "nat option"
  p_kstack :: u64
  p_sz :: u64
  p_pagetable :: u64
  p_trapframe :: u64
  p_context :: kcontext
  p_ofile :: "nat option list"
  p_cwd :: "nat option"
  p_name :: "u8 list"
  p_exit_msg :: "u8 list"
  p_accumulator :: int
  p_ps_priority :: int
  p_cfs_priority :: int
  p_rtime :: int
  p_stime :: int
  p_retime :: int

record pstate = kmem +
  procs :: "proc list"
  initproc :: "nat option"
  nextpid :: int
  curproc :: "nat option"
  ticks :: u32

text \<open>The process running on this hart; a null pointer dereference faults in the kernel.\<close>

definition myproc :: "'a pstate_scheme \<Rightarrow> nat option" where
  "myproc s = curproc s"

definition getp :: "nat \<Rightarrow> 'a pstate_scheme \<Rightarrow> proc" where
  "getp p s = procs s ! p"

definition modp :: "nat \<Rightarrow> (proc \<Rightarrow> proc) \<Rightarrow> 'a pstate_scheme \<Rightarrow> 'a pstate_scheme" where
  "modp p f s = s\<lparr>procs := (procs s)[p := f (procs s ! p)]\<rparr>"

definition with_myproc :: "'a pstate_scheme \<Rightarrow> (nat \<Rightarrow> ('b, 'a pstate_scheme) res) \<Rightarrow> ('b, 'a pstate_scheme) res" where
  "with_myproc s k = (case myproc s of None \<Rightarrow> Panic ''kerneltrap'' | Some p \<Rightarrow> k p)"

section \<open>Tick accounting and minima\<close>

definition tick :: "proc \<Rightarrow> proc" where
  "tick p = (case p_state p of
       SLEEPING \<Rightarrow> p\<lparr>p_stime := s32 (p_stime p + 1)\<rparr>
     | RUNNABLE \<Rightarrow> p\<lparr>p_retime := s32 (p_retime p + 1)\<rparr>
     | RUNNING \<Rightarrow> p\<lparr>p_rtime := s32 (p_rtime p + 1)\<rparr>
     | _ \<Rightarrow> p)"

definition update_ticks :: "'a pstate_scheme \<Rightarrow> 'a pstate_scheme" where
  "update_ticks s = s\<lparr>procs := map tick (procs s)\<rparr>"

definition ready :: "proc \<Rightarrow> bool" where
  "ready p \<longleftrightarrow> p_state p = RUNNABLE \<or> p_state p = RUNNING"

text \<open>The loop body shared by both minima: \<open>min == 0\<close> stands for "none seen yet".\<close>

definition min_step :: "(proc \<Rightarrow> int) \<Rightarrow> int \<Rightarrow> proc \<Rightarrow> int" where
  "min_step v mn p = (if ready p then (if mn = 0 \<or> v p < mn then s32 (v p) else mn) else mn)"

definition getMinAccumulator :: "'a pstate_scheme \<Rightarrow> int" where
  "getMinAccumulator s = foldl (min_step p_accumulator) 0 (procs s)"

text \<open>
  C integer division truncates. Division by zero is undefined in C; the \<open>divw\<close> instruction
  the compiler emits gives -1.
\<close>

definition cdiv :: "int \<Rightarrow> int \<Rightarrow> int" where
  "cdiv a b = (if b = 0 then -1 else s32 (sgn a * sgn b * (\<bar>a\<bar> div \<bar>b\<bar>)))"

text \<open>
  \<open>75 ? p->cfs_priority == 0 : ...\<close> parses as a conditional on the constant 75: the decay is
  the truth value of \<open>cfs_priority == 0\<close>.
\<close>

definition decay :: "proc \<Rightarrow> int" where
  "decay p = (if p_cfs_priority p = 0 then 1 else 0)"

definition vruntime :: "proc \<Rightarrow> int" where
  "vruntime p = cdiv (s32 (decay p * p_rtime p)) (s32 (s32 (p_rtime p + p_stime p) + p_retime p))"

definition getMinVruntime :: "'a pstate_scheme \<Rightarrow> int" where
  "getMinVruntime s = foldl (min_step vruntime) 0 (procs s)"

section \<open>Table operations\<close>

definition procinit :: "'a pstate_scheme \<Rightarrow> 'a pstate_scheme" where
  "procinit s = s\<lparr>procs := map (\<lambda>i. (procs s ! i)\<lparr>p_state := UNUSED, p_kstack := KSTACK i\<rparr>) [0..<NPROC]\<rparr>"

definition allocpid :: "'a pstate_scheme \<Rightarrow> (int, 'a pstate_scheme) res" where
  "allocpid s = Ret (nextpid s) (s\<lparr>nextpid := s32 (nextpid s + 1)\<rparr>)"

definition set_ps_priority :: "int \<Rightarrow> 'a pstate_scheme \<Rightarrow> (unit, 'a pstate_scheme) res" where
  "set_ps_priority priority s =
     with_myproc s (\<lambda>p. Ret () (modp p (\<lambda>q. q\<lparr>p_ps_priority := priority\<rparr>) s))"

definition set_cfs_priority :: "int \<Rightarrow> 'a pstate_scheme \<Rightarrow> (int, 'a pstate_scheme) res" where
  "set_cfs_priority priority s =
     with_myproc s (\<lambda>p.
       Ret 0 (if 0 \<le> priority \<and> priority \<le> 2 then modp p (\<lambda>q. q\<lparr>p_cfs_priority := priority\<rparr>) s else s))"

definition getProc :: "int \<Rightarrow> 'a pstate_scheme \<Rightarrow> nat option" where
  "getProc pid s = find_index (\<lambda>p. pid = p_pid p) (procs s)"

definition kill :: "int \<Rightarrow> 'a pstate_scheme \<Rightarrow> (int, 'a pstate_scheme) res" where
  "kill pid s =
     (case find_index (\<lambda>p. p_pid p = pid) (procs s) of
        None \<Rightarrow> Ret (-1) s
      | Some p \<Rightarrow> Ret 0 (modp p (\<lambda>q. let q = q\<lparr>p_killed := 1\<rparr>
          in if p_state q = SLEEPING then q\<lparr>p_state := RUNNABLE\<rparr> else q) s))"

definition setkilled :: "nat \<Rightarrow> 'a pstate_scheme \<Rightarrow> 'a pstate_scheme" where
  "setkilled p s = modp p (\<lambda>q. q\<lparr>p_killed := 1\<rparr>) s"

definition killed :: "nat \<Rightarrow> 'a pstate_scheme \<Rightarrow> bool" where
  "killed p s \<longleftrightarrow> p_killed (getp p s) \<noteq> 0"

section \<open>Sleep and wakeup\<close>

text \<open>
  \<open>sleep\<close> marks the process and gives up the CPU; what follows in the caller runs after another
  process has called \<open>wakeup\<close> on the channel, from \<open>wake_tidy\<close> on.
\<close>

definition sleep :: "chan \<Rightarrow> 'a pstate_scheme \<Rightarrow> ('b, 'a pstate_scheme) res" where
  "sleep ch s = with_myproc s (\<lambda>p. Sleep ch (modp p (\<lambda>q. q\<lparr>p_chan := ch, p_state := SLEEPING\<rparr>) s))"

definition wake_tidy :: "nat \<Rightarrow> 'a pstate_scheme \<Rightarrow> 'a pstate_scheme" where
  "wake_tidy p s = modp p (\<lambda>q. q\<lparr>p_chan := NoChan\<rparr>) s"

text \<open>The first loop of \<open>wakeup\<close> counts a tick for every process with a pid above 4.\<close>

definition wake_tick :: "proc \<Rightarrow> proc" where
  "wake_tick p =
     (if p_state p = RUNNING then (if p_pid p > 4 then p\<lparr>p_rtime := s32 (p_rtime p + 1)\<rparr> else p)
      else if p_state p = SLEEPING then (if p_pid p > 4 then p\<lparr>p_stime := s32 (p_stime p + 1)\<rparr> else p)
      else if p_state p = RUNNABLE then (if p_pid p > 4 then p\<lparr>p_retime := s32 (p_retime p + 1)\<rparr> else p)
      else p)"

definition wake_one :: "chan \<Rightarrow> nat \<Rightarrow> 'a pstate_scheme \<Rightarrow> 'a pstate_scheme" where
  "wake_one ch p s =
     (if Some p \<noteq> myproc s \<and> p_state (getp p s) = SLEEPING \<and> p_chan (getp p s) = ch
      then let s = modp p (\<lambda>q. q\<lparr>p_state := RUNNABLE\<rparr>) s
           in modp p (\<lambda>q. q\<lparr>p_accumulator := getMinAccumulator s\<rparr>) s
      else s)"

definition wakeup :: "chan \<Rightarrow> 'a pstate_scheme \<Rightarrow> 'a pstate_scheme" where
  "wakeup ch s = fold (wake_one ch) [0..<length (procs s)] (s\<lparr>procs := map wake_tick (procs s)\<rparr>)"

text \<open>Handing the children of \<open>p\<close> to \<open>init\<close>, waking \<open>init\<close> for each.\<close>

definition reparent_one :: "nat \<Rightarrow> nat \<Rightarrow> 'a pstate_scheme \<Rightarrow> 'a pstate_scheme" where
  "reparent_one p pp s =
     (if p_parent (getp pp s) = Some p
      then let s = modp pp (\<lambda>q. q\<lparr>p_parent := initproc s\<rparr>) s
           in wakeup (case initproc s of None \<Rightarrow> NoChan | Some i \<Rightarrow> ChanProc i) s
      else s)"

definition reparent :: "nat \<Rightarrow> 'a pstate_scheme \<Rightarrow> 'a pstate_scheme" where
  "reparent p s = fold (reparent_one p) [0..<length (procs s)] s"

section \<open>Copying to user or kernel addresses\<close>

definition either_copyout :: "bool \<Rightarrow> u64 \<Rightarrow> u8 list \<Rightarrow> 'a pstate_scheme \<Rightarrow> (int, 'a pstate_scheme) res" where
  "either_copyout user_dst dst src s =
     (if user_dst then with_myproc s (\<lambda>p. copyout (p_pagetable (getp p s)) dst src s)
      else Ret 0 (write_bytes dst src s))"

definition either_copyin :: "bool \<Rightarrow> u64 \<Rightarrow> nat \<Rightarrow> 'a pstate_scheme \<Rightarrow> (int \<times> u8 list, 'a pstate_scheme) res" where
  "either_copyin user_src src len s =
     (if user_src then with_myproc s (\<lambda>p. copyin (p_pagetable (getp p s)) src len s)
      else Ret (0, read_bytes src len s) s)"

section \<open>Scheduling\<close>

text \<open>
  \<open>swtch\<close> transfers control to the process until it gives up the CPU again; \<open>run p\<close> is what
  the process and the kernel code on its behalf do in between.
\<close>

definition dispatch :: "(nat \<Rightarrow> 'a pstate_scheme \<Rightarrow> 'a pstate_scheme) \<Rightarrow> nat \<Rightarrow> 'a pstate_scheme \<Rightarrow> 'a pstate_scheme" where
  "dispatch run p s =
     (let s = modp p (\<lambda>q. q\<lparr>p_state := RUNNING\<rparr>) s; s = s\<lparr>curproc := Some p\<rparr>; s = run p s
      in s\<lparr>curproc := None\<rparr>)"

definition defaulScheduler where
  "defaulScheduler run p s = (if p_state (getp p s) = RUNNABLE then dispatch run p s else s)"

definition priorityScheduler where
  "priorityScheduler run p s =
     (let acc = getMinAccumulator s
      in if p_state (getp p s) = RUNNABLE \<and> p_accumulator (getp p s) = acc then dispatch run p s else s)"

definition cfsScheduler where
  "cfsScheduler run p s =
     (let mn = getMinVruntime s
      in if p_state (getp p s) = RUNNABLE \<and> vruntime (getp p s) = mn then dispatch run p s else s)"

definition choose_scheduler where
  "choose_scheduler (ty :: int) run p s =
     (if ty = 0 then defaulScheduler run p s
      else if ty = 1 then priorityScheduler run p s
      else if ty = 2 then cfsScheduler run p s
      else s)"

text \<open>One pass of the endless loop over the table, and \<open>n\<close> passes from the entry.\<close>

definition scheduler_pass where
  "scheduler_pass ty run s = fold (choose_scheduler ty run) [0..<NPROC] s"

definition SCHEDULER_TYPE :: int where
  "SCHEDULER_TYPE = 2"

definition scheduler where
  "scheduler run n s = (scheduler_pass SCHEDULER_TYPE run ^^ n) (s\<lparr>curproc := None\<rparr>)"

section \<open>Access to table entries\<close>

lemma getp_modp: "getp q (modp p f s) = (if q = p \<and> p < length (procs s) then f (getp p s) else getp q s)"
  by (cases "p < length (procs s)") (auto simp: getp_def modp_def nth_list_update list_update_beyond)

lemma modp_simps [simp]:
  "length (procs (modp p f s)) = length (procs s)" "curproc (modp p f s) = curproc s"
  "initproc (modp p f s) = initproc s" "nextpid (modp p f s) = nextpid s" "ticks (modp p f s) = ticks s"
  "memory (modp p f s) = memory s" "freelist (modp p f s) = freelist s" "kend (modp p f s) = kend s"
  "myproc (modp p f s) = myproc s" "pstate.more (modp p f s) = pstate.more s"
  by (simp_all add: modp_def myproc_def)

lemma modp_modp [simp]: "modp p f (modp p g s) = modp p (\<lambda>q. f (g q)) s"
proof (cases "p < length (procs s)")
  case False
  then have "(procs s)[p := x] = procs s" for x by (simp add: list_update_beyond)
  then show ?thesis by (simp add: modp_def)
qed (simp add: modp_def)

section \<open>Minima of the table\<close>

lemma min_attained:
  "(\<exists>p\<in>set ps. ready p \<and> foldl (min_step v) m ps = s32 (v p)) \<or>
   (foldl (min_step v) m ps = m \<and> (m = 0 \<longrightarrow> (\<forall>p\<in>set ps. \<not> ready p)))"
proof (induction ps arbitrary: m)
  case (Cons p ps)
  show ?case
    using Cons [of "min_step v m p"] by (auto simp: min_step_def split: if_splits)
qed simp

lemma min_lower:
  assumes "\<forall>p\<in>set ps. ready p \<longrightarrow> v p \<noteq> 0 \<and> s32 (v p) = v p" "m \<noteq> 0 \<or> (\<exists>p\<in>set ps. ready p)"
  shows "(\<forall>p\<in>set ps. ready p \<longrightarrow> foldl (min_step v) m ps \<le> v p) \<and> (m \<noteq> 0 \<longrightarrow> foldl (min_step v) m ps \<le> m)"
  using assms
proof (induction ps arbitrary: m)
  case (Cons p ps)
  show ?case
  proof (cases "min_step v m p \<noteq> 0 \<or> (\<exists>p\<in>set ps. ready p)")
    case True
    then show ?thesis
      using Cons.IH [of "min_step v m p"] Cons.prems by (auto simp: min_step_def split: if_splits)
  next
    case False
    then show ?thesis using Cons.prems by (auto simp: min_step_def split: if_splits)
  qed
qed simp

lemma s32_cdiv [simp]: "s32 (cdiv a b) = cdiv a b"
  by (simp add: cdiv_def)

lemma s32_vruntime [simp]: "s32 (vruntime p) = vruntime p"
  by (simp add: vruntime_def)

section \<open>Waking\<close>

lemma wake_tick_simps [simp]:
  "p_state (wake_tick p) = p_state p" "p_chan (wake_tick p) = p_chan p" "p_pid (wake_tick p) = p_pid p"
  "p_killed (wake_tick p) = p_killed p" "p_parent (wake_tick p) = p_parent p"
  by (simp_all add: wake_tick_def)

lemma wake_one_simps [simp]:
  "length (procs (wake_one ch p s)) = length (procs s)" "myproc (wake_one ch p s) = myproc s"
  by (simp_all add: wake_one_def Let_def)

lemma getp_wake_one:
  "p \<noteq> q \<Longrightarrow> getp q (wake_one ch p s) = getp q s"
  "p < length (procs s) \<Longrightarrow> p_state (getp p (wake_one ch p s)) =
     (if Some p \<noteq> myproc s \<and> p_state (getp p s) = SLEEPING \<and> p_chan (getp p s) = ch then RUNNABLE else p_state (getp p s))"
  "p_chan (getp p (wake_one ch p s)) = p_chan (getp p s)" "p_pid (getp p (wake_one ch p s)) = p_pid (getp p s)"
  "p_killed (getp p (wake_one ch p s)) = p_killed (getp p s)" "p_parent (getp p (wake_one ch p s)) = p_parent (getp p s)"
  by (simp_all add: wake_one_def Let_def getp_modp)

lemma fold_wake_length [simp]:
  "length (procs (fold (wake_one ch) ps s)) = length (procs s)" "myproc (fold (wake_one ch) ps s) = myproc s"
  by (induction ps arbitrary: s) simp_all

lemma fold_wake_other: "q \<notin> set ps \<Longrightarrow> getp q (fold (wake_one ch) ps s) = getp q s"
  by (induction ps arbitrary: s) (auto simp: getp_wake_one)

lemma fold_wake:
  assumes "distinct ps" "q \<in> set ps" "q < length (procs s)"
  shows "p_state (getp q (fold (wake_one ch) ps s)) =
     (if Some q \<noteq> myproc s \<and> p_state (getp q s) = SLEEPING \<and> p_chan (getp q s) = ch then RUNNABLE else p_state (getp q s))"
    "p_chan (getp q (fold (wake_one ch) ps s)) = p_chan (getp q s)"
    "p_killed (getp q (fold (wake_one ch) ps s)) = p_killed (getp q s)"
    "p_pid (getp q (fold (wake_one ch) ps s)) = p_pid (getp q s)"
    "p_parent (getp q (fold (wake_one ch) ps s)) = p_parent (getp q s)"
  using assms
proof (induction ps arbitrary: s)
  case (Cons p ps)
  { case 1 show ?case using Cons 1 by (cases "q = p") (auto simp: getp_wake_one fold_wake_other) }
  { case 2 show ?case using Cons 2 by (cases "q = p") (auto simp: getp_wake_one fold_wake_other) }
  { case 3 show ?case using Cons 3 by (cases "q = p") (auto simp: getp_wake_one fold_wake_other) }
  { case 4 show ?case using Cons 4 by (cases "q = p") (auto simp: getp_wake_one fold_wake_other) }
  { case 5 show ?case using Cons 5 by (cases "q = p") (auto simp: getp_wake_one fold_wake_other) }
qed simp_all

lemma getp_map: "q < length (procs s) \<Longrightarrow> getp q (s\<lparr>procs := map f (procs s)\<rparr>) = f (getp q s)"
  by (simp add: getp_def)

lemma wakeup_simps [simp]: "length (procs (wakeup ch s)) = length (procs s)" "myproc (wakeup ch s) = myproc s"
  by (simp_all add: wakeup_def myproc_def [of "_\<lparr>procs := _\<rparr>"]) (simp add: myproc_def)

lemma wakeup_eq: "\<exists>ps. wakeup ch s = s\<lparr>procs := ps\<rparr>"
proof -
  have "\<exists>ps. fold (wake_one ch) xs u = u\<lparr>procs := ps\<rparr>" for xs and u :: "'a pstate_scheme"
  proof (induction xs arbitrary: u)
    case (Cons x xs)
    have "\<exists>ps. wake_one ch x u = u\<lparr>procs := ps\<rparr>"
    proof (cases "wake_one ch x u = u")
      case True
      then show ?thesis by (metis pstate.surjective pstate.update_convs(1))
    next
      case False
      then show ?thesis by (auto simp: wake_one_def Let_def modp_def split: if_splits)
    qed
    then show ?case using Cons.IH [of "wake_one ch x u"] by auto
  qed (metis fold_simps(1) pstate.surjective pstate.update_convs(1))
  then show ?thesis unfolding wakeup_def
    by (metis (no_types, lifting) pstate.fold_congs(1) pstate.surjective pstate.update_convs(1))
qed

lemma wakeup_procs: "wakeup ch s = s\<lparr>procs := procs (wakeup ch s)\<rparr>"
  using wakeup_eq [of ch s] by (metis pstate.select_convs(1) pstate.surjective pstate.update_convs(1))

lemma getp_wakeup:
  assumes "q < length (procs s)"
  shows "p_state (getp q (wakeup ch s)) =
     (if Some q \<noteq> myproc s \<and> p_state (getp q s) = SLEEPING \<and> p_chan (getp q s) = ch then RUNNABLE else p_state (getp q s))"
    "p_chan (getp q (wakeup ch s)) = p_chan (getp q s)" "p_killed (getp q (wakeup ch s)) = p_killed (getp q s)"
    "p_pid (getp q (wakeup ch s)) = p_pid (getp q s)" "p_parent (getp q (wakeup ch s)) = p_parent (getp q s)"
  unfolding wakeup_def using assms
  by (simp_all add: fold_wake getp_map) (auto simp: myproc_def)

lemma fold_wake_frame:
  "p_pagetable (getp q (fold (wake_one ch) ps s)) = p_pagetable (getp q s)"
  "p_trapframe (getp q (fold (wake_one ch) ps s)) = p_trapframe (getp q s)"
  "p_ofile (getp q (fold (wake_one ch) ps s)) = p_ofile (getp q s)"
  by (induction ps arbitrary: s) (simp_all add: wake_one_def Let_def getp_modp)

lemma getp_wakeup_frame:
  assumes "q < length (procs s)"
  shows "p_pagetable (getp q (wakeup ch s)) = p_pagetable (getp q s)"
    "p_trapframe (getp q (wakeup ch s)) = p_trapframe (getp q s)"
    "p_ofile (getp q (wakeup ch s)) = p_ofile (getp q s)"
  unfolding wakeup_def using assms by (simp_all add: fold_wake_frame getp_map wake_tick_def)

section \<open>Scheduling passes\<close>

text \<open>Whether a scheduler dispatches \<open>p\<close> in a state, and the processes a pass dispatches.\<close>

definition chosen :: "int \<Rightarrow> nat \<Rightarrow> 'a pstate_scheme \<Rightarrow> bool" where
  "chosen ty p s \<longleftrightarrow> p_state (getp p s) = RUNNABLE \<and>
     (if ty = 0 then True else if ty = 1 then p_accumulator (getp p s) = getMinAccumulator s
      else ty = 2 \<and> vruntime (getp p s) = getMinVruntime s)"

lemma choose_scheduler_chosen:
  "choose_scheduler ty run p s = (if chosen ty p s then dispatch run p s else s)"
  by (simp add: choose_scheduler_def chosen_def defaulScheduler_def priorityScheduler_def cfsScheduler_def Let_def)

fun picks :: "int \<Rightarrow> (nat \<Rightarrow> 'a pstate_scheme \<Rightarrow> 'a pstate_scheme) \<Rightarrow> nat list \<Rightarrow> 'a pstate_scheme \<Rightarrow> nat list" where
  "picks ty run [] s = []"
| "picks ty run (p # ps) s =
     (if chosen ty p s then p # picks ty run ps (choose_scheduler ty run p s)
      else picks ty run ps (choose_scheduler ty run p s))"

lemma picks_nonempty: "p \<in> set ps \<Longrightarrow> chosen ty p s \<Longrightarrow> picks ty run ps s \<noteq> []"
  by (induction ps) (auto simp: choose_scheduler_chosen)

lemma min_chosen:
  assumes "\<exists>q\<in>set (procs s). p_state q = RUNNABLE" "\<forall>q\<in>set (procs s). p_state q \<noteq> RUNNING"
  shows "\<exists>p<length (procs s). p_state (getp p s) = RUNNABLE \<and> foldl (min_step v) 0 (procs s) = s32 (v (getp p s))"
proof -
  have "\<exists>q\<in>set (procs s). ready q \<and> foldl (min_step v) 0 (procs s) = s32 (v q)"
    using min_attained [of "procs s" v 0] assms(1) by (auto simp: ready_def)
  then obtain p where "p < length (procs s)" "ready (getp p s)" "foldl (min_step v) 0 (procs s) = s32 (v (getp p s))"
    by (auto simp: in_set_conv_nth getp_def)
  moreover from this have "p_state (getp p s) \<noteq> RUNNING" using assms(2) by (simp add: getp_def)
  ultimately show ?thesis by (auto simp: ready_def)
qed

section \<open>Properties\<close>


text \<open>
  C22: \<open>wakeup\<close> makes exactly the other processes that sleep on the channel runnable and changes
  the state of no other process; channels, pids, parents and kill flags stay.
\<close>

theorem wakeup_exact:
  assumes "q < length (procs s)"
  shows "p_state (getp q (wakeup ch s)) =
      (if Some q \<noteq> myproc s \<and> p_state (getp q s) = SLEEPING \<and> p_chan (getp q s) = ch then RUNNABLE
       else p_state (getp q s)) \<and>
    p_chan (getp q (wakeup ch s)) = p_chan (getp q s) \<and> p_pid (getp q (wakeup ch s)) = p_pid (getp q s) \<and>
    p_parent (getp q (wakeup ch s)) = p_parent (getp q s) \<and> p_killed (getp q (wakeup ch s)) = p_killed (getp q s)"
  using getp_wakeup [OF assms] by simp


text \<open>
  \<open>getMinAccumulator\<close> is the least accumulator of the runnable and running processes when
  there is one, all of them are non-zero and fit in an \<open>int\<close>.
\<close>

lemma getMinAccumulator_min:
  assumes "\<forall>p\<in>set (procs s). ready p \<longrightarrow> p_accumulator p \<noteq> 0 \<and> - (2 ^ 31) \<le> p_accumulator p \<and> p_accumulator p < 2 ^ 31"
    and "\<exists>p\<in>set (procs s). ready p"
  shows "getMinAccumulator s = Min (p_accumulator ` {p \<in> set (procs s). ready p})"
proof (rule Min_eqI [symmetric])
  have *: "\<forall>p\<in>set (procs s). ready p \<longrightarrow> p_accumulator p \<noteq> 0 \<and> s32 (p_accumulator p) = p_accumulator p"
    using assms(1) by auto
  show "getMinAccumulator s \<le> y" if "y \<in> p_accumulator ` {p \<in> set (procs s). ready p}" for y
    using min_lower [OF *, of 0] assms(2) that by (auto simp: getMinAccumulator_def)
  show "getMinAccumulator s \<in> p_accumulator ` {p \<in> set (procs s). ready p}"
    using min_attained [of "procs s" p_accumulator 0] * assms(2) by (auto simp: getMinAccumulator_def)
qed simp

text \<open>
  \<open>kill\<close> on a pid in use marks the first process with that pid as killed, makes it runnable
  if it was sleeping, leaves every other process alone and returns 0; on an unknown pid it
  returns -1 and changes nothing.
\<close>

lemma kill_correct:
  "(case getProc pid s of
      None \<Rightarrow> kill pid s = Ret (-1) s
    | Some p \<Rightarrow> \<exists>s'. kill pid s = Ret 0 s' \<and> p_killed (getp p s') = 1 \<and>
        p_state (getp p s') = (if p_state (getp p s) = SLEEPING then RUNNABLE else p_state (getp p s)) \<and>
        (\<forall>q. q \<noteq> p \<longrightarrow> getp q s' = getp q s))"
proof (cases "getProc pid s")
  case None
  then have "find_index (\<lambda>p. p_pid p = pid) (procs s) = None" by (simp add: getProc_def find_index_None eq_commute)
  then show ?thesis by (simp add: None kill_def)
next
  case (Some p)
  then have p: "find_index (\<lambda>p. p_pid p = pid) (procs s) = Some p"
    by (auto simp: getProc_def find_index_Some)
  then have "p < length (procs s)" by (rule find_index_lt)
  with p Some show ?thesis by (simp add: kill_def getp_modp Let_def)
qed

section \<open>A concrete table\<close>

definition proc0 :: proc where
  "proc0 = \<lparr>p_state = UNUSED, p_chan = NoChan, p_killed = 0, p_xstate = 0, p_pid = 0, p_parent = None, p_kstack = 0,
     p_sz = 0, p_pagetable = 0, p_trapframe = 0, p_context = \<lparr>ctx_ra = 0, ctx_sp = 0, ctx_s = replicate 12 0\<rparr>,
     p_ofile = replicate NOFILE None, p_cwd = None, p_name = replicate 16 0, p_exit_msg = replicate 32 0,
     p_accumulator = 0, p_ps_priority = 0, p_cfs_priority = 0, p_rtime = 0, p_stime = 0, p_retime = 0\<rparr>"

definition table0 :: pstate where
  "table0 = \<lparr>memory = \<lambda>_. 0, freelist = 0, kend = 0x80022000,
     procs = proc0\<lparr>p_state := RUNNABLE, p_pid := 1, p_accumulator := 7\<rparr> # proc0\<lparr>p_state := SLEEPING, p_chan := ChanTicks, p_pid := 2\<rparr> # replicate 62 proc0,
     initproc = Some 0, nextpid = 3, curproc = None, ticks = 0\<rparr>"


theorem wakeup_exact_witness: "p_state (getp 1 (wakeup ChanTicks table0)) = RUNNABLE"
  using wakeup_exact [of 1 table0 ChanTicks] by (simp add: table0_def proc0_def getp_def myproc_def)


section \<open>Observed deviations\<close>

text \<open>A zero accumulator counts as "none seen": the result is not the minimum.\<close>

lemma getMinAccumulator_not_min:
  "getMinAccumulator (table0\<lparr>procs := [proc0\<lparr>p_state := RUNNABLE\<rparr>, proc0\<lparr>p_state := RUNNABLE, p_accumulator := 5\<rparr>]\<rparr>) = 5"
  by (simp add: getMinAccumulator_def min_step_def ready_def proc0_def)

text \<open>The CFS priorities 1 and 2 have the same, degenerate decay; a process that has not run yet divides by zero.\<close>

lemma decay_degenerate: "p_cfs_priority p \<noteq> 0 \<Longrightarrow> decay p = 0"
  by (simp add: decay_def)

lemma vruntime_fresh:
  "p_rtime p = 0 \<Longrightarrow> p_stime p = 0 \<Longrightarrow> p_retime p = 0 \<Longrightarrow>
   s32 (s32 (p_rtime p + p_stime p) + p_retime p) = 0 \<and> vruntime p = -1"
  by (simp add: vruntime_def cdiv_def)

text \<open>\<open>set_cfs_priority\<close> reports success for priorities it rejects.\<close>

lemma set_cfs_priority_silent:
  "myproc s = Some p \<Longrightarrow> 2 < priority \<Longrightarrow> set_cfs_priority priority s = Ret 0 s"
  by (simp add: set_cfs_priority_def with_myproc_def)

end
