(* ===== verification/Sched.thy ===== *)
theory Sched
  imports Proc
begin

text \<open>
  The locking around a context switch, \<^verbatim>\<open>kernel/proc.c\<close>: \<open>sched\<close>, \<open>yield\<close>, \<open>sleep\<close> and
  \<open>forkret\<close> with the process lock, the hart's \<open>push_off\<close> depth and the interrupt flag explicit.
  A kernel thread sees its own hart, its own process lock and process state; \<open>swtch\<close> suspends it
  and returns when a scheduler, on the same or another hart, switches back to it.
\<close>

section \<open>State and operations\<close>

record kthread =
  t_me :: nat
  t_hart :: hart
  t_plock :: spinlock
  t_state :: procstate
  t_chan :: chan

definition lift_lock ::
  "(nat \<Rightarrow> hart \<times> spinlock \<Rightarrow> (unit, hart \<times> spinlock) res) \<Rightarrow> kthread \<Rightarrow> (unit, kthread) res" where
  "lift_lock f t = (case f (t_me t) (t_hart t, t_plock t) of
       Ret _ (h, lk) \<Rightarrow> Ret () (t\<lparr>t_hart := h, t_plock := lk\<rparr>)
     | Panic e \<Rightarrow> Panic e
     | Sleep c (h, lk) \<Rightarrow> Sleep c (t\<lparr>t_hart := h, t_plock := lk\<rparr>))"

definition sched :: "(kthread \<Rightarrow> kthread) \<Rightarrow> kthread \<Rightarrow> (unit, kthread) res" where
  "sched swtch t =
     (if \<not> holding (t_me t) (t_plock t) then Panic ''sched p->lock''
      else if c_noff (t_hart t) \<noteq> 1 then Panic ''sched locks''
      else if t_state t = RUNNING then Panic ''sched running''
      else if intr_get (t_hart t) then Panic ''sched interruptible''
      else let intena = c_intena (t_hart t); t = swtch t
           in Ret () (t\<lparr>t_hart := (t_hart t)\<lparr>c_intena := intena\<rparr>\<rparr>))"

definition yield :: "(kthread \<Rightarrow> kthread) \<Rightarrow> kthread \<Rightarrow> (unit, kthread) res" where
  "yield swtch t =
     rbind (lift_lock acquire t) (\<lambda>_ t.
     rbind (sched swtch (t\<lparr>t_state := RUNNABLE\<rparr>)) (\<lambda>_ t.
     lift_lock release t))"

text \<open>\<open>sleep\<close> with the condition lock \<open>lk\<close> that the caller holds.\<close>

definition sleep_locked ::
  "(kthread \<Rightarrow> kthread) \<Rightarrow> chan \<Rightarrow> kthread \<times> spinlock \<Rightarrow> (unit, kthread \<times> spinlock) res" where
  "sleep_locked swtch ch = (\<lambda>(t, lk).
     case lift_lock acquire t of
       Panic e \<Rightarrow> Panic e
     | Sleep c t \<Rightarrow> Sleep c (t, lk)
     | Ret _ t \<Rightarrow>
         (case release (t_me t) (t_hart t, lk) of
            Panic e \<Rightarrow> Panic e
          | Sleep c (h, lk) \<Rightarrow> Sleep c (t\<lparr>t_hart := h\<rparr>, lk)
          | Ret _ (h, lk) \<Rightarrow>
              (case sched swtch (t\<lparr>t_hart := h, t_chan := ch, t_state := SLEEPING\<rparr>) of
                 Panic e \<Rightarrow> Panic e
               | Sleep c t \<Rightarrow> Sleep c (t, lk)
               | Ret _ t \<Rightarrow>
                   (case lift_lock release (t\<lparr>t_chan := NoChan\<rparr>) of
                      Panic e \<Rightarrow> Panic e
                    | Sleep c t \<Rightarrow> Sleep c (t, lk)
                    | Ret _ t \<Rightarrow>
                        (case acquire (t_me t) (t_hart t, lk) of
                           Panic e \<Rightarrow> Panic e
                         | Sleep c (h, lk) \<Rightarrow> Sleep c (t\<lparr>t_hart := h\<rparr>, lk)
                         | Ret _ (h, lk) \<Rightarrow> Ret () (t\<lparr>t_hart := h\<rparr>, lk))))))"

section \<open>The contract of the scheduler\<close>

text \<open>
  What a thread may rely on when \<open>swtch\<close> returns: some hart's scheduler holds its lock, one
  \<open>push_off\<close> deep, with interrupts off, and has marked it running.
\<close>

definition resumed :: "kthread \<Rightarrow> bool" where
  "resumed t \<longleftrightarrow> holding (t_me t) (t_plock t) \<and> off_depth 1 (c_intena (t_hart t)) (t_hart t) \<and> t_state t = RUNNING"

definition suspended :: "kthread \<Rightarrow> bool" where
  "suspended t \<longleftrightarrow> holding (t_me t) (t_plock t) \<and> off_depth 1 (c_intena (t_hart t)) (t_hart t) \<and> t_state t \<noteq> RUNNING"

locale context_switch =
  fixes swtch :: "kthread \<Rightarrow> kthread"
  assumes swtch_resumes: "suspended t \<Longrightarrow> resumed (swtch t)"
begin

lemma sched_ok:
  assumes "suspended t"
  shows "\<exists>t'. sched swtch t = Ret () t' \<and> holding (t_me t') (t_plock t') \<and>
    off_depth 1 (c_intena (t_hart t)) (t_hart t') \<and> t_state t' = RUNNING"
proof -
  have "resumed (swtch t)" using swtch_resumes [OF assms] .
  moreover have "\<not> intr_get (t_hart t)" "c_noff (t_hart t) = 1"
    using assms by (simp_all add: suspended_def off_depth_def intr_get_def)
  ultimately show ?thesis using assms
    by (simp add: sched_def suspended_def resumed_def Let_def off_depth_def)
qed

lemma yield_ok:
  assumes "\<not> lk_locked (t_plock t)" "off_depth 0 en (t_hart t)"
  shows "\<exists>t'. yield swtch t = Ret () t' \<and> \<not> lk_locked (t_plock t') \<and> off_depth 0 en (t_hart t') \<and> t_state t' = RUNNING"
proof -
  let ?h = "push_off (t_hart t)" and ?lk = "(t_plock t)\<lparr>lk_locked := True, lk_cpu := Some (t_me t)\<rparr>"
  let ?t = "t\<lparr>t_hart := ?h, t_plock := ?lk, t_state := RUNNABLE\<rparr>"
  have h: "off_depth 1 en ?h" using off_depth_push [OF assms(2)] by simp
  have acq: "lift_lock acquire t = Ret () (t\<lparr>t_hart := ?h, t_plock := ?lk\<rparr>)"
    using assms(1) by (simp add: lift_lock_def acquire_def holding_def Let_def)
  have ci: "c_intena ?h = en" using h by (simp add: off_depth_def)
  then have "suspended ?t" using h by (simp add: suspended_def holding_def)
  from sched_ok [OF this] obtain t1 where t1: "sched swtch ?t = Ret () t1" "holding (t_me t1) (t_plock t1)"
    "off_depth 1 en (t_hart t1)" "t_state t1 = RUNNING" using ci by auto
  from t1(3) off_depth_pop [of 0 en "t_hart t1"] obtain h1 where "pop_off (t_hart t1) = Ret () h1" "off_depth 0 en h1" by auto
  with acq t1 show ?thesis by (simp add: yield_def lift_lock_def release_def Let_def)
qed

end

text \<open>
  The scheduler's side of a switch, on hart \<open>me\<close>: the old hart's scheduler releases the lock;
  later some scheduler acquires it again, marks the process running and switches to it.
\<close>

definition scheduler_switch :: "nat \<Rightarrow> hart \<Rightarrow> kthread \<Rightarrow> kthread" where
  "scheduler_switch me h t =
     (case release (t_me t) (t_hart t, t_plock t) of
        Ret _ (_, lk) \<Rightarrow>
          (case acquire me (h, lk) of
             Ret _ (h, lk) \<Rightarrow> t\<lparr>t_me := me, t_hart := h, t_plock := lk, t_state := RUNNING\<rparr>
           | _ \<Rightarrow> t)
      | _ \<Rightarrow> t)"

lemma scheduler_switch_resumes:
  assumes "suspended t" "c_noff h = 0"
  shows "resumed (scheduler_switch me h t)"
proof -
  obtain h1 where "pop_off (t_hart t) = Ret () h1"
    using assms(1) off_depth_pop [of 0 "c_intena (t_hart t)" "t_hart t"] by (auto simp: suspended_def)
  moreover have "off_depth 1 (sie h) (push_off h)"
    using off_depth_push [of 0 "sie h" h] assms(2) by (simp add: off_depth_def)
  moreover from this have "c_intena (push_off h) = sie h" by (simp add: off_depth_def)
  ultimately show ?thesis using assms(1)
    by (simp add: scheduler_switch_def release_def suspended_def acquire_def resumed_def holding_def Let_def)
qed

definition idle_hart :: hart where
  "idle_hart = \<lparr>c_proc = None, c_noff = 0, c_intena = False, sie = True\<rparr>"

interpretation cs: context_switch "scheduler_switch me idle_hart"
  by unfold_locales (simp add: scheduler_switch_resumes idle_hart_def)

section \<open>Properties\<close>



end
