(* ===== verification/Bio.thy ===== *)
theory Bio
  imports Proc
begin

text \<open>
  Sleep locks and the buffer cache, \<^verbatim>\<open>kernel/sleeplock.c\<close> and \<^verbatim>\<open>kernel/bio.c\<close>. The buffers
  and the list head are the entries of one array, the head the last; \<open>b_next\<close> and \<open>b_prev\<close> are
  indices into it. \<open>disk\<close> is the contents of the block device, and \<open>dwrites\<close> the ghost history
  of the blocks written to it. \<open>disk_rw\<close> is what the driver promises of \<open>virtio_disk_rw\<close> once
  the request has completed.
\<close>

section \<open>Sleep locks\<close>

record sleeplock =
  sl_locked :: bool
  sl_name :: string
  sl_pid :: int

definition initsleeplock :: "string \<Rightarrow> sleeplock \<Rightarrow> sleeplock" where
  "initsleeplock nm lk = lk\<lparr>sl_name := nm, sl_locked := False, sl_pid := 0\<rparr>"

text \<open>The lock as \<open>acquiresleep\<close> leaves it, or the process asleep on its channel.\<close>

definition acquiresleep :: "chan \<Rightarrow> sleeplock \<Rightarrow> 'a pstate_scheme \<Rightarrow> (sleeplock, 'a pstate_scheme) res" where
  "acquiresleep ch lk s =
     (if sl_locked lk then sleep ch s
      else with_myproc s (\<lambda>p. Ret (lk\<lparr>sl_locked := True, sl_pid := p_pid (getp p s)\<rparr>) s))"

definition releasesleep :: "chan \<Rightarrow> sleeplock \<Rightarrow> 'a pstate_scheme \<Rightarrow> sleeplock \<times> 'a pstate_scheme" where
  "releasesleep ch lk s = (lk\<lparr>sl_locked := False, sl_pid := 0\<rparr>, wakeup ch s)"

definition holdingsleep :: "sleeplock \<Rightarrow> 'a pstate_scheme \<Rightarrow> bool" where
  "holdingsleep lk s \<longleftrightarrow> sl_locked lk \<and> (\<exists>p. myproc s = Some p \<and> sl_pid lk = p_pid (getp p s))"

section \<open>Buffers\<close>

definition BSIZE :: nat where [simp]: "BSIZE = 1024"

record buf =
  b_valid :: bool
  b_disk :: bool
  b_dev :: u32
  b_blockno :: u32
  b_lock :: sleeplock
  b_refcnt :: u32
  b_prev :: nat
  b_next :: nat
  b_data :: "u8 list"

record bstate = pstate +
  bufs :: "buf list"
  disk :: "u32 \<Rightarrow> u8 list"
  dwrites :: "(u32 \<times> u8 list) list"

definition getb :: "nat \<Rightarrow> 'a bstate_scheme \<Rightarrow> buf" where
  "getb b s = bufs s ! b"

definition modb :: "nat \<Rightarrow> (buf \<Rightarrow> buf) \<Rightarrow> 'a bstate_scheme \<Rightarrow> 'a bstate_scheme" where
  "modb b f s = s\<lparr>bufs := (bufs s)[b := f (bufs s ! b)]\<rparr>"

text \<open>\<open>&bcache.head\<close>.\<close>

definition bhead :: nat where "bhead = NBUF"

definition disk_rw :: "nat \<Rightarrow> bool \<Rightarrow> 'a bstate_scheme \<Rightarrow> 'a bstate_scheme" where
  "disk_rw b write s =
     (if write
      then s\<lparr>disk := (disk s)(b_blockno (getb b s) := b_data (getb b s)),
             dwrites := dwrites s @ [(b_blockno (getb b s), b_data (getb b s))]\<rparr>
      else modb b (\<lambda>x. x\<lparr>b_data := disk s (b_blockno x)\<rparr>) s)"

text \<open>Inserting a buffer right after the head.\<close>

definition link_first :: "nat \<Rightarrow> 'a bstate_scheme \<Rightarrow> 'a bstate_scheme" where
  "link_first b s =
     (let s = modb b (\<lambda>x. x\<lparr>b_next := b_next (getb bhead s)\<rparr>) s;
          s = modb b (\<lambda>x. x\<lparr>b_prev := bhead\<rparr>) s;
          s = modb (b_next (getb bhead s)) (\<lambda>x. x\<lparr>b_prev := b\<rparr>) s
      in modb bhead (\<lambda>x. x\<lparr>b_next := b\<rparr>) s)"

definition unlink :: "nat \<Rightarrow> 'a bstate_scheme \<Rightarrow> 'a bstate_scheme" where
  "unlink b s =
     (let s = modb (b_next (getb b s)) (\<lambda>x. x\<lparr>b_prev := b_prev (getb b s)\<rparr>) s
      in modb (b_prev (getb b s)) (\<lambda>x. x\<lparr>b_next := b_next (getb b s)\<rparr>) s)"

definition binit :: "'a bstate_scheme \<Rightarrow> 'a bstate_scheme" where
  "binit s =
     (let s = modb bhead (\<lambda>x. x\<lparr>b_prev := bhead, b_next := bhead\<rparr>) s
      in fold (\<lambda>b s. link_first b (modb b (\<lambda>x. x\<lparr>b_lock := initsleeplock ''buffer'' (b_lock x)\<rparr>) s)) [0..<NBUF] s)"

text \<open>
  Following links from \<open>b\<close> until the head, at most \<open>fuel\<close> of them; the list has \<open>NBUF\<close>
  buffers. \<open>None\<close> when the fuel does not suffice, \<open>Some None\<close> when no buffer fits.
\<close>

fun scan :: "nat \<Rightarrow> (buf \<Rightarrow> nat) \<Rightarrow> (buf \<Rightarrow> bool) \<Rightarrow> nat \<Rightarrow> buf list \<Rightarrow> nat option option" where
  "scan 0 nx P b bs = None"
| "scan (Suc fuel) nx P b bs =
     (if b = bhead then Some None else if P (bs ! b) then Some (Some b) else scan fuel nx P (nx (bs ! b)) bs)"

definition bget :: "u32 \<Rightarrow> u32 \<Rightarrow> 'a bstate_scheme \<Rightarrow> (nat, 'a bstate_scheme) res" where
  "bget dev blockno s =
     (case scan (Suc NBUF) b_next (\<lambda>x. b_dev x = dev \<and> b_blockno x = blockno) (b_next (getb bhead s)) (bufs s) of
        None \<Rightarrow> Panic ''hang''
      | Some (Some b) \<Rightarrow>
          let s = modb b (\<lambda>x. x\<lparr>b_refcnt := b_refcnt x + 1\<rparr>) s
          in rbind (acquiresleep (ChanBufLock b) (b_lock (getb b s)) s) (\<lambda>lk s.
               Ret b (modb b (\<lambda>x. x\<lparr>b_lock := lk\<rparr>) s))
      | Some None \<Rightarrow>
          (case scan (Suc NBUF) b_prev (\<lambda>x. b_refcnt x = 0) (b_prev (getb bhead s)) (bufs s) of
             None \<Rightarrow> Panic ''hang''
           | Some (Some b) \<Rightarrow>
               let s = modb b (\<lambda>x. x\<lparr>b_dev := dev, b_blockno := blockno, b_valid := False, b_refcnt := 1\<rparr>) s
               in rbind (acquiresleep (ChanBufLock b) (b_lock (getb b s)) s) (\<lambda>lk s.
                    Ret b (modb b (\<lambda>x. x\<lparr>b_lock := lk\<rparr>) s))
           | Some None \<Rightarrow> Panic ''bget: no buffers''))"

definition bread :: "u32 \<Rightarrow> u32 \<Rightarrow> 'a bstate_scheme \<Rightarrow> (nat, 'a bstate_scheme) res" where
  "bread dev blockno s =
     rbind (bget dev blockno s) (\<lambda>b s.
       if \<not> b_valid (getb b s)
       then let s = disk_rw b False s in Ret b (modb b (\<lambda>x. x\<lparr>b_valid := True\<rparr>) s)
       else Ret b s)"

definition bwrite :: "nat \<Rightarrow> 'a bstate_scheme \<Rightarrow> (unit, 'a bstate_scheme) res" where
  "bwrite b s =
     (if \<not> holdingsleep (b_lock (getb b s)) s then Panic ''bwrite''
      else Ret () (disk_rw b True s))"

definition brelse :: "nat \<Rightarrow> 'a bstate_scheme \<Rightarrow> (unit, 'a bstate_scheme) res" where
  "brelse b s =
     (if \<not> holdingsleep (b_lock (getb b s)) s then Panic ''brelse''
      else let (lk, s) = releasesleep (ChanBufLock b) (b_lock (getb b s)) s;
               s = modb b (\<lambda>x. x\<lparr>b_lock := lk\<rparr>) s;
               s = modb b (\<lambda>x. x\<lparr>b_refcnt := b_refcnt x - 1\<rparr>) s
           in Ret () (if b_refcnt (getb b s) = 0 then link_first b (unlink b s) else s))"

definition bpin :: "nat \<Rightarrow> 'a bstate_scheme \<Rightarrow> 'a bstate_scheme" where
  "bpin b s = modb b (\<lambda>x. x\<lparr>b_refcnt := b_refcnt x + 1\<rparr>) s"

definition bunpin :: "nat \<Rightarrow> 'a bstate_scheme \<Rightarrow> 'a bstate_scheme" where
  "bunpin b s = modb b (\<lambda>x. x\<lparr>b_refcnt := b_refcnt x - 1\<rparr>) s"

end
