(* ===== verification/Bio_Cache.thy ===== *)
theory Bio_Cache
  imports Bio
begin

text \<open>
  The buffer cache as a mathematical object. The doubly linked list is a list of buffer
  indices, most recently used first; the contents are a partial copy of the disk. \<open>bview\<close> is
  what a reader of a block sees. The lemmas give the effect of \<open>bread\<close>, \<open>bwrite\<close>, \<open>brelse\<close>
  and pinning on these, for the layers above.
\<close>

section \<open>The LRU list\<close>

definition nextf :: "'a bstate_scheme \<Rightarrow> nat \<Rightarrow> nat" where
  "nextf s i = b_next (getb i s)"

definition prevf :: "'a bstate_scheme \<Rightarrow> nat \<Rightarrow> nat" where
  "prevf s i = b_prev (getb i s)"

definition ring :: "'a bstate_scheme \<Rightarrow> nat list \<Rightarrow> bool" where
  "ring s xs \<longleftrightarrow> chain (nextf s) bhead xs bhead \<and> chain (prevf s) bhead (rev xs) bhead"

definition lru :: "'a bstate_scheme \<Rightarrow> nat list \<Rightarrow> bool" where
  "lru s xs \<longleftrightarrow> length (bufs s) = Suc NBUF \<and> ring s xs \<and> distinct xs \<and> set xs = {0..<NBUF}"

lemma getb_modb: "getb j (modb i f s) = (if j = i \<and> i < length (bufs s) then f (getb i s) else getb j s)"
  by (cases "i < length (bufs s)") (auto simp: getb_def modb_def nth_list_update list_update_beyond)

lemma length_modb [simp]: "length (bufs (modb i f s)) = length (bufs s)"
  by (simp add: modb_def)

lemma nextf_modb:
  "(\<And>x. b_next (f x) = b_next x) \<Longrightarrow> nextf (modb i f s) = nextf s"
  "i < length (bufs s) \<Longrightarrow> nextf (modb i (\<lambda>x. x\<lparr>b_next := v\<rparr>) s) = (nextf s)(i := v)"
  by (auto simp: nextf_def getb_modb fun_eq_iff)

lemma prevf_modb:
  "(\<And>x. b_prev (f x) = b_prev x) \<Longrightarrow> prevf (modb i f s) = prevf s"
  "i < length (bufs s) \<Longrightarrow> prevf (modb i (\<lambda>x. x\<lparr>b_prev := v\<rparr>) s) = (prevf s)(i := v)"
  by (auto simp: prevf_def getb_modb fun_eq_iff)

text \<open>A buffer without its links.\<close>

definition core :: "buf \<Rightarrow> buf" where
  "core x = x\<lparr>b_prev := 0, b_next := 0\<rparr>"

definition bcore :: "'a bstate_scheme \<Rightarrow> nat \<Rightarrow> buf" where
  "bcore s i = core (getb i s)"

lemma core_simps [simp]:
  "b_valid (core x) = b_valid x" "b_dev (core x) = b_dev x" "b_blockno (core x) = b_blockno x"
  "b_lock (core x) = b_lock x" "b_refcnt (core x) = b_refcnt x" "b_data (core x) = b_data x"
  "core (x\<lparr>b_next := v\<rparr>) = core x" "core (x\<lparr>b_prev := v\<rparr>) = core x" "core (core x) = core x"
  by (simp_all add: core_def)

lemma first_last:
  assumes "ring s xs"
  shows "nextf s bhead = (case xs of [] \<Rightarrow> bhead | x # _ \<Rightarrow> x)"
    "prevf s bhead = (case rev xs of [] \<Rightarrow> bhead | x # _ \<Rightarrow> x)"
  using assms by (auto simp: ring_def split: list.splits)

lemma ring_push:
  assumes r: "chain f h xs h" "chain g h (rev xs) h" and b: "b \<notin> set (h # xs)" "h \<notin> set xs" "distinct xs"
  shows "chain (f(b := f h, h := b)) h (b # xs) h"
    "chain (g(b := h, f h := b)) h (rev (b # xs)) h"
proof -
  show "chain (f(b := f h, h := b)) h (b # xs) h"
  proof (cases xs)
    case (Cons x xs')
    have "chain (f(b := f h, h := b)) x xs' h = chain f x xs' h"
      by (rule chain_cong) (use b Cons in auto)
    then show ?thesis using r(1) Cons b by auto
  qed (use r b in auto)
  show "chain (g(b := h, f h := b)) h (rev (b # xs)) h"
  proof (cases xs)
    case (Cons x xs')
    then have fx: "f h = x" "g x = h" "chain g h (rev xs') x" using r by (auto simp: chain_append)
    have "chain (g(b := h, f h := b)) h (rev xs') x = chain g h (rev xs') x"
      by (rule chain_cong) (use b Cons fx in auto)
    then show ?thesis using fx Cons b by (auto simp: chain_append)
  qed (use r b in auto)
qed

lemma ring_remove:
  assumes r: "chain f h (ys @ b # zs) h" "chain g h (rev (ys @ b # zs)) h"
    and d: "distinct (h # ys @ b # zs)"
  shows "chain (f(g b := f b)) h (ys @ zs) h" "chain (g(f b := g b)) h (rev (ys @ zs)) h"
proof -
  have f: "chain f h ys b" "chain f b zs h" using r(1) by (auto simp: chain_append)
  have g: "chain g h (rev zs) b" "chain g b (rev ys) h" using r(2) by (simp_all add: chain_append)
  have gb: "g b = List.last (h # ys)"
  proof (cases ys rule: rev_cases)
    case (snoc ys' y)
    then show ?thesis using g(2) by simp
  qed (use g in simp)
  have fb: "f b = List.last (h # rev zs)"
  proof (cases zs)
    case (Cons z zs')
    then show ?thesis using f(2) by simp
  qed (use f in simp)
  have 1: "chain (f(g b := f b)) h ys (f b)"
    unfolding gb by (rule chain_redirect [OF f(1)]) (use d in auto)
  show "chain (f(g b := f b)) h (ys @ zs) h"
  proof (cases zs)
    case (Cons z zs')
    have "g b \<notin> set (z # zs')" using d Cons gb last_in_set [of "h # ys"] by auto
    then have "chain (f(g b := f b)) z zs' h = chain f z zs' h" by (intro chain_cong) auto
    then show ?thesis using 1 f(2) Cons by (auto simp: chain_append)
  qed (use 1 f in simp)
  have 2: "chain (g(f b := g b)) h (rev zs) (g b)"
    unfolding fb by (rule chain_redirect [OF g(1)]) (use d in auto)
  show "chain (g(f b := g b)) h (rev (ys @ zs)) h"
  proof (cases ys rule: rev_cases)
    case (snoc ys' y)
    have "f b \<notin> set (y # rev ys')" using d snoc fb last_in_set [of "h # rev zs"] by auto
    then have "chain (g(f b := g b)) y (rev ys') h = chain g y (rev ys') h" by (intro chain_cong) auto
    then show ?thesis using 2 g(2) snoc by (auto simp: chain_append)
  qed (use 2 g in simp)
qed

lemma link_first_ok:
  assumes "length (bufs s) = Suc NBUF" "ring s xs" "distinct xs" "set xs \<subseteq> {0..<NBUF}" "b < NBUF" "b \<notin> set xs"
  shows "ring (link_first b s) (b # xs)" "bcore (link_first b s) = bcore s"
    "length (bufs (link_first b s)) = Suc NBUF" "\<exists>bs. link_first b s = s\<lparr>bufs := bs\<rparr>"
proof -
  have hb: "bhead \<notin> set xs" "bhead \<noteq> b" "bhead < length (bufs s)" "b < length (bufs s)"
    using assms by (auto simp: bhead_def)
  let ?f = "nextf s bhead"
  have fl: "?f < length (bufs s)" using first_last(1) [OF assms(2)] assms(1,4) by (auto simp: bhead_def split: list.splits)
  let ?s1 = "modb b (\<lambda>x. x\<lparr>b_next := b_next (getb bhead s)\<rparr>) s"
  let ?s2 = "modb b (\<lambda>x. x\<lparr>b_prev := bhead\<rparr>) ?s1"
  have f2: "b_next (getb bhead ?s2) = ?f" using hb by (simp add: getb_modb nextf_def)
  let ?s3 = "modb ?f (\<lambda>x. x\<lparr>b_prev := b\<rparr>) ?s2"
  have lf: "link_first b s = modb bhead (\<lambda>x. x\<lparr>b_next := b\<rparr>) ?s3"
    unfolding link_first_def Let_def f2 ..
  have n: "nextf (link_first b s) = (nextf s)(b := ?f, bhead := b)"
    unfolding lf using hb fl by (simp add: nextf_modb) (simp add: nextf_def)
  have p: "prevf (link_first b s) = (prevf s)(b := bhead, ?f := b)"
    unfolding lf using hb fl by (simp add: prevf_modb)
  show "ring (link_first b s) (b # xs)"
    unfolding ring_def n p using assms(2,3,6) hb ring_push [of "nextf s" bhead xs "prevf s" b]
    by (auto simp: ring_def)
  show "bcore (link_first b s) = bcore s"
    unfolding lf by (auto simp: bcore_def getb_modb fun_eq_iff)
  show "length (bufs (link_first b s)) = Suc NBUF" unfolding lf by (simp add: assms(1) del: NBUF_def)
  show "\<exists>bs. link_first b s = s\<lparr>bufs := bs\<rparr>" unfolding lf by (auto simp: modb_def)
qed

lemma unlink_ok:
  assumes "length (bufs s) = Suc NBUF" "ring s (ys @ b # zs)" "distinct (ys @ b # zs)" "set (ys @ b # zs) \<subseteq> {0..<NBUF}"
  shows "ring (unlink b s) (ys @ zs)" "bcore (unlink b s) = bcore s"
    "length (bufs (unlink b s)) = Suc NBUF" "\<exists>bs. unlink b s = s\<lparr>bufs := bs\<rparr>"
proof -
  have hb: "distinct (bhead # ys @ b # zs)" using assms(3,4) by (auto simp: bhead_def)
  have r: "chain (nextf s) bhead (ys @ b # zs) bhead" "chain (prevf s) bhead (rev (ys @ b # zs)) bhead"
    using assms(2) by (simp_all add: ring_def)
  have f: "chain (nextf s) b zs bhead" "chain (prevf s) b (rev ys) bhead" using r by (simp_all add: chain_append)
  have nb: "nextf s b \<noteq> b" "nextf s b < length (bufs s)" "prevf s b < length (bufs s)"
    using f hb assms(1,4) by (cases zs; cases ys rule: rev_cases; auto simp: bhead_def)+
  let ?s1 = "modb (nextf s b) (\<lambda>x. x\<lparr>b_prev := prevf s b\<rparr>) s"
  have u: "unlink b s = modb (prevf s b) (\<lambda>x. x\<lparr>b_next := nextf s b\<rparr>) ?s1"
  proof -
    have "getb b ?s1 = getb b s" using nb(1) by (simp add: getb_modb)
    then show ?thesis by (simp add: unlink_def Let_def nextf_def prevf_def)
  qed
  have n: "nextf (unlink b s) = (nextf s)(prevf s b := nextf s b)"
    "prevf (unlink b s) = (prevf s)(nextf s b := prevf s b)"
    unfolding u using nb by (simp_all add: nextf_modb prevf_modb)
  show "ring (unlink b s) (ys @ zs)"
    unfolding ring_def n using ring_remove [OF r hb] by simp
  show "bcore (unlink b s) = bcore s" unfolding u by (auto simp: bcore_def getb_modb fun_eq_iff)
  show "length (bufs (unlink b s)) = Suc NBUF" unfolding u by (simp add: assms(1) del: NBUF_def)
  show "\<exists>bs. unlink b s = s\<lparr>bufs := bs\<rparr>" unfolding u by (auto simp: modb_def)
qed

text \<open>Scanning the list forwards or backwards is searching the abstract list.\<close>

lemma scan_find:
  assumes "chain (\<lambda>i. nx (bs ! i)) a xs bhead" "bhead \<notin> set xs" "length xs < fuel"
  shows "scan fuel nx P (nx (bs ! a)) bs = Some (find (\<lambda>i. P (bs ! i)) xs)"
  using assms
proof (induction xs arbitrary: a fuel)
  case Nil
  then show ?case by (cases fuel) auto
next
  case (Cons x xs)
  then obtain fuel' where "fuel = Suc fuel'" by (cases fuel) auto
  with Cons show ?case by auto
qed

lemma scan_lru:
  assumes "lru s xs"
  shows "scan (Suc NBUF) b_next P (b_next (getb bhead s)) (bufs s) = Some (find (\<lambda>i. P (getb i s)) xs)"
    "scan (Suc NBUF) b_prev P (b_prev (getb bhead s)) (bufs s) = Some (find (\<lambda>i. P (getb i s)) (rev xs))"
proof -
  have len: "length xs = NBUF" using assms distinct_card [of xs] by (simp add: lru_def)
  have hb: "bhead \<notin> set xs" using assms by (auto simp: lru_def bhead_def)
  have c: "chain (\<lambda>i. b_next (bufs s ! i)) bhead xs bhead" "chain (\<lambda>i. b_prev (bufs s ! i)) bhead (rev xs) bhead"
    using assms by (auto simp: lru_def ring_def nextf_def [abs_def] prevf_def [abs_def] getb_def)
  show "scan (Suc NBUF) b_next P (b_next (getb bhead s)) (bufs s) = Some (find (\<lambda>i. P (getb i s)) xs)"
    unfolding getb_def by (rule scan_find [OF c(1) hb]) (simp add: len)
  show "scan (Suc NBUF) b_prev P (b_prev (getb bhead s)) (bufs s) = Some (find (\<lambda>i. P (getb i s)) (rev xs))"
    unfolding getb_def by (rule scan_find [OF c(2)]) (use hb len in simp_all)
qed

section \<open>The cached blocks\<close>

definition holds :: "'a bstate_scheme \<Rightarrow> u32 \<Rightarrow> u32 \<Rightarrow> nat \<Rightarrow> bool" where
  "holds s dev n i \<longleftrightarrow> i < NBUF \<and> b_dev (getb i s) = dev \<and> b_blockno (getb i s) = n"

text \<open>
  At most one buffer per block (device 0 marks the buffers never used), locked buffers are in
  use, unused valid buffers agree with the disk, and blocks have the right size.
\<close>

definition cinv :: "'a bstate_scheme \<Rightarrow> bool" where
  "cinv s \<longleftrightarrow>
     (\<forall>dev n i j. dev \<noteq> 0 \<longrightarrow> holds s dev n i \<longrightarrow> holds s dev n j \<longrightarrow> i = j) \<and>
     (\<forall>i<NBUF. sl_locked (b_lock (getb i s)) \<longrightarrow> b_refcnt (getb i s) \<noteq> 0) \<and>
     (\<forall>i<NBUF. b_valid (getb i s) \<longrightarrow> b_refcnt (getb i s) = 0 \<longrightarrow> b_data (getb i s) = disk s (b_blockno (getb i s))) \<and>
     (\<forall>i<NBUF. b_valid (getb i s) \<longrightarrow> length (b_data (getb i s)) = BSIZE) \<and>
     (\<forall>n. length (disk s n) = BSIZE)"

definition binv :: "'a bstate_scheme \<Rightarrow> bool" where
  "binv s \<longleftrightarrow> (\<exists>xs. lru s xs) \<and> cinv s"

text \<open>The contents of a block as its readers see them: the valid cached copy, or the disk.\<close>

definition bview :: "'a bstate_scheme \<Rightarrow> u32 \<Rightarrow> u32 \<Rightarrow> u8 list" where
  "bview s dev n = (case find (\<lambda>i. holds s dev n i \<and> b_valid (getb i s)) [0..<NBUF] of
     Some i \<Rightarrow> b_data (getb i s) | None \<Rightarrow> disk s n)"

lemma find_SomeD: "find P xs = Some x \<Longrightarrow> x \<in> set xs \<and> P x"
  by (induction xs) (auto split: if_splits)

lemma bview_cached:
  assumes "cinv s" "dev \<noteq> 0" "holds s dev n i" "b_valid (getb i s)"
  shows "bview s dev n = b_data (getb i s)"
proof (cases "find (\<lambda>i. holds s dev n i \<and> b_valid (getb i s)) [0..<NBUF]")
  case None
  then show ?thesis using assms(3,4) by (auto simp: find_None_iff holds_def)
next
  case (Some j)
  then have "holds s dev n j" by (auto dest: find_SomeD)
  then have "j = i" using assms(1-3) unfolding cinv_def by blast
  then show ?thesis using Some by (simp add: bview_def)
qed

lemma bview_uncached:
  assumes "\<And>i. holds s dev n i \<Longrightarrow> \<not> b_valid (getb i s)"
  shows "bview s dev n = disk s n"
proof -
  have "find (\<lambda>i. holds s dev n i \<and> b_valid (getb i s)) [0..<NBUF] = None"
    using assms by (auto simp: find_None_iff)
  then show ?thesis by (simp add: bview_def)
qed

lemma bview_eqI:
  assumes "cinv s" "dev \<noteq> 0"
    and "\<And>i. holds s dev n i \<Longrightarrow> b_valid (getb i s) \<Longrightarrow> b_data (getb i s) = d"
    and "(\<And>i. holds s dev n i \<Longrightarrow> \<not> b_valid (getb i s)) \<Longrightarrow> disk s n = d"
  shows "bview s dev n = d"
  using assms bview_cached [OF assms(1,2), of n] bview_uncached [of s dev n] by metis

text \<open>The invariant and the view depend on the buffers without their links.\<close>

lemma bcore_fields:
  assumes "bcore s i = bcore s' i"
  shows "b_valid (getb i s) = b_valid (getb i s')" "b_dev (getb i s) = b_dev (getb i s')"
    "b_blockno (getb i s) = b_blockno (getb i s')" "b_lock (getb i s) = b_lock (getb i s')"
    "b_refcnt (getb i s) = b_refcnt (getb i s')" "b_data (getb i s) = b_data (getb i s')"
  using assms unfolding bcore_def by (metis core_simps)+

lemma holds_cong: "(\<And>i. bcore s i = bcore s' i) \<Longrightarrow> holds s dev n i = holds s' dev n i"
  unfolding holds_def using bcore_fields [of s i s'] by simp

lemma cinv_cong:
  assumes "\<And>i. bcore s i = bcore s' i" "disk s = disk s'"
  shows "cinv s = cinv s'"
  unfolding cinv_def using holds_cong [OF assms(1)] bcore_fields [OF assms(1)] assms(2) by simp

lemma bview_cong:
  assumes "\<And>i. bcore s i = bcore s' i" "disk s = disk s'"
  shows "bview s = bview s'"
  by (intro ext) (simp only: bview_def holds_cong [OF assms(1)] bcore_fields [OF assms(1)] assms(2))

section \<open>Reading a block\<close>

definition mypid :: "'a pstate_scheme \<Rightarrow> int" where
  "mypid s = p_pid (getp (the (myproc s)) s)"

definition available :: "'a bstate_scheme \<Rightarrow> u32 \<Rightarrow> u32 \<Rightarrow> bool" where
  "available s dev n \<longleftrightarrow>
     (\<forall>i. holds s dev n i \<longrightarrow> \<not> sl_locked (b_lock (getb i s)) \<and> b_refcnt (getb i s) \<noteq> -1) \<and>
     ((\<exists>i. holds s dev n i) \<or> (\<exists>i<NBUF. b_refcnt (getb i s) = 0))"

definition taken :: "'a bstate_scheme \<Rightarrow> u32 \<Rightarrow> u32 \<Rightarrow> nat \<Rightarrow> buf \<Rightarrow> buf" where
  "taken s dev n b x = x\<lparr>b_dev := dev, b_blockno := n, b_valid := True, b_refcnt := b_refcnt (getb b s) + 1,
     b_lock := (b_lock x)\<lparr>sl_locked := True, sl_pid := mypid s\<rparr>, b_data := bview s dev n\<rparr>"

lemma modb_modb [simp]: "modb b f (modb b g s) = modb b (\<lambda>x. f (g x)) s"
proof (cases "b < length (bufs s)")
  case False
  then have "(bufs s)[b := x] = bufs s" for x by (simp add: list_update_beyond)
  then show ?thesis by (simp add: modb_def)
qed (simp add: modb_def)

lemma modb_simps [simp]:
  "disk (modb i f s) = disk s" "dwrites (modb i f s) = dwrites s" "procs (modb i f s) = procs s"
  "myproc (modb i f s) = myproc s" "getp p (modb i f s) = getp p s" "mypid (modb i f s) = mypid s"
  by (simp_all add: modb_def myproc_def getp_def mypid_def)

lemma modb_cong:
  "f (getb b s) = g (getb b s) \<Longrightarrow> modb b f s = modb b g s"
  by (simp add: modb_def getb_def)

lemma acquiresleep_free:
  "\<not> sl_locked lk \<Longrightarrow> myproc s = Some p \<Longrightarrow>
   acquiresleep ch lk s = Ret (lk\<lparr>sl_locked := True, sl_pid := mypid s\<rparr>) s"
  by (simp add: acquiresleep_def with_myproc_def mypid_def)

lemma bread_eq:
  assumes inv: "binv s" and dev: "dev \<noteq> 0" and me: "myproc s = Some p" and av: "available s dev n"
  shows "\<exists>b. bread dev n s = Ret b (modb b (taken s dev n b) s) \<and> b < NBUF \<and>
    (holds s dev n b \<or> (\<forall>i. \<not> holds s dev n i) \<and> b_refcnt (getb b s) = 0) \<and>
    \<not> sl_locked (b_lock (getb b s)) \<and> b_refcnt (getb b s) \<noteq> -1"
proof -
  obtain xs where xs: "lru s xs" using inv by (auto simp: binv_def)
  have c: "cinv s" using inv by (simp add: binv_def)
  have len: "length (bufs s) = Suc NBUF" and set: "set xs = {0..<NBUF}" using xs by (auto simp: lru_def)
  let ?P = "\<lambda>i. b_dev (getb i s) = dev \<and> b_blockno (getb i s) = n"
  show ?thesis
  proof (cases "find ?P xs")
    case (Some b)
    then have b: "holds s dev n b" using set by (auto simp: holds_def dest: find_SomeD)
    then have bl: "b < NBUF" "b < length (bufs s)" "b_dev (getb b s) = dev" "b_blockno (getb b s) = n"
      using len by (auto simp: holds_def)
    have unl: "\<not> sl_locked (b_lock (getb b s))" "b_refcnt (getb b s) \<noteq> -1" using av b by (auto simp: available_def)
    let ?s1 = "modb b (\<lambda>x. x\<lparr>b_refcnt := b_refcnt x + 1\<rparr>) s"
    have lk: "acquiresleep (ChanBufLock b) (b_lock (getb b ?s1)) ?s1 =
        Ret ((b_lock (getb b s))\<lparr>sl_locked := True, sl_pid := mypid s\<rparr>) ?s1"
      using unl(1) me bl by (subst acquiresleep_free) (simp_all add: getb_modb)
    have g: "bget dev n s = Ret b (modb b (\<lambda>x. x\<lparr>b_refcnt := b_refcnt x + 1, b_lock := (b_lock (getb b s))\<lparr>sl_locked := True, sl_pid := mypid s\<rparr>\<rparr>) s)"
      unfolding bget_def scan_lru [OF xs] Some Let_def by (simp add: lk)
    have bv: "b_valid (getb b s) \<Longrightarrow> bview s dev n = b_data (getb b s)"
      using bview_cached [OF c dev b] by simp
    have bi: "\<not> b_valid (getb b s) \<Longrightarrow> bview s dev n = disk s n"
      using c dev b unfolding cinv_def by (intro bview_uncached) metis
    have "bread dev n s = Ret b (modb b (taken s dev n b) s)"
    proof (cases "b_valid (getb b s)")
      case True
      then show ?thesis using g bl bv
        by (simp add: bread_def getb_modb) (rule modb_cong, simp add: taken_def)
    next
      case False
      then show ?thesis using g bl bi
        by (simp add: bread_def getb_modb disk_rw_def Let_def) (rule modb_cong, simp add: taken_def)
    qed
    then show ?thesis using b bl unl by blast
  next
    case None
    then have no: "\<not> holds s dev n i" for i using set by (auto simp: find_None_iff holds_def)
    then obtain i where "i < NBUF" "b_refcnt (getb i s) = 0" using av by (auto simp: available_def)
    then have "find (\<lambda>i. b_refcnt (getb i s) = 0) (rev xs) \<noteq> None" using set by (auto simp: find_None_iff)
    then obtain b where fb: "find (\<lambda>i. b_refcnt (getb i s) = 0) (rev xs) = Some b" by blast
    then have b: "b < NBUF" "b < length (bufs s)" "b_refcnt (getb b s) = 0" using set len by (auto dest: find_SomeD)
    then have unl: "\<not> sl_locked (b_lock (getb b s))" using c unfolding cinv_def by blast
    let ?s1 = "modb b (\<lambda>x. x\<lparr>b_dev := dev, b_blockno := n, b_valid := False, b_refcnt := 1\<rparr>) s"
    have lk: "acquiresleep (ChanBufLock b) (b_lock (getb b ?s1)) ?s1 =
        Ret ((b_lock (getb b s))\<lparr>sl_locked := True, sl_pid := mypid s\<rparr>) ?s1"
      using unl me b by (subst acquiresleep_free) (simp_all add: getb_modb)
    have g: "bget dev n s = Ret b (modb b (\<lambda>x. x\<lparr>b_dev := dev, b_blockno := n, b_valid := False, b_refcnt := 1,
        b_lock := (b_lock (getb b s))\<lparr>sl_locked := True, sl_pid := mypid s\<rparr>\<rparr>) s)"
      unfolding bget_def scan_lru [OF xs] None fb Let_def by (simp add: lk)
    have bi: "bview s dev n = disk s n" using no by (intro bview_uncached) blast
    have "bread dev n s = Ret b (modb b (taken s dev n b) s)"
      using g b bi by (simp add: bread_def getb_modb disk_rw_def Let_def) (rule modb_cong, simp add: taken_def)
    then show ?thesis using b unl no by auto
  qed
qed

lemma bview_length: "cinv s \<Longrightarrow> length (bview s dev n) = BSIZE"
  unfolding bview_def cinv_def by (auto split: option.splits dest!: find_SomeD)

lemma holds_modb:
  assumes "b < length (bufs s)"
  shows "holds (modb b f s) d m i \<longleftrightarrow>
    (if i = b then b < NBUF \<and> b_dev (f (getb b s)) = d \<and> b_blockno (f (getb b s)) = m else holds s d m i)"
  using assms by (auto simp: holds_def getb_modb)

lemma holds_unique: "cinv s \<Longrightarrow> dev \<noteq> 0 \<Longrightarrow> holds s dev n i \<Longrightarrow> holds s dev n j \<Longrightarrow> i = j"
  unfolding cinv_def by blast

lemma lru_modb:
  assumes "lru s xs" "\<And>x. b_next (f x) = b_next x" "\<And>x. b_prev (f x) = b_prev x"
  shows "lru (modb b f s) xs"
  using assms by (simp add: lru_def ring_def nextf_modb prevf_modb)

text \<open>What \<open>bread\<close> knows of the buffer it takes.\<close>

definition takes :: "'a bstate_scheme \<Rightarrow> u32 \<Rightarrow> u32 \<Rightarrow> nat \<Rightarrow> bool" where
  "takes s dev n b \<longleftrightarrow> cinv s \<and> dev \<noteq> 0 \<and> b < NBUF \<and> b < length (bufs s) \<and>
     (holds s dev n b \<or> (\<forall>i. \<not> holds s dev n i) \<and> b_refcnt (getb b s) = 0) \<and> b_refcnt (getb b s) \<noteq> -1"

lemma taken_simps [simp]:
  "b_dev (taken s dev n b x) = dev" "b_blockno (taken s dev n b x) = n" "b_valid (taken s dev n b x)"
  "b_refcnt (taken s dev n b x) = b_refcnt (getb b s) + 1" "b_data (taken s dev n b x) = bview s dev n"
  "sl_locked (b_lock (taken s dev n b x))" "sl_pid (b_lock (taken s dev n b x)) = mypid s"
  "b_next (taken s dev n b x) = b_next x" "b_prev (taken s dev n b x) = b_prev x"
  by (simp_all add: taken_def)

lemma holds_taken:
  "takes s dev n b \<Longrightarrow> holds (modb b (taken s dev n b) s) d m i \<longleftrightarrow> (if i = b then d = dev \<and> m = n else holds s d m i)"
  by (auto simp: holds_modb takes_def)

lemma getb_taken:
  "takes s dev n b \<Longrightarrow> getb i (modb b (taken s dev n b) s) = (if i = b then taken s dev n b (getb b s) else getb i s)"
  by (simp add: getb_modb takes_def)

lemma taken_cinv:
  assumes t: "takes s dev n b"
  shows "cinv (modb b (taken s dev n b) s)"
proof -
  let ?s = "modb b (taken s dev n b) s"
  have c: "cinv s" and dev: "dev \<noteq> 0" using t by (auto simp: takes_def)
  have nz: "b_refcnt (getb b s) + 1 \<noteq> 0" using t by (simp add: takes_def eq_neg_iff_add_eq_0)
  have "i = j" if "d \<noteq> 0" "holds ?s d m i" "holds ?s d m j" for d m i j
  proof -
    have alt: "holds s dev n b \<or> (\<forall>i. \<not> holds s dev n i)" using t by (auto simp: takes_def)
    show ?thesis
    proof (cases "i = b \<or> j = b")
      case True
      then have "d = dev" "m = n" using that by (auto simp: holds_taken [OF t])
      then show ?thesis using that alt holds_unique [OF c dev, of n] by (auto simp: holds_taken [OF t] split: if_splits)
    next
      case False
      then show ?thesis using that holds_unique [OF c that(1), of m i j] by (simp add: holds_taken [OF t])
    qed
  qed
  moreover have "b_refcnt (getb i ?s) \<noteq> 0" if "i < NBUF" "sl_locked (b_lock (getb i ?s))" for i
    using that c nz unfolding getb_taken [OF t] cinv_def by auto
  moreover have "b_data (getb i ?s) = disk ?s (b_blockno (getb i ?s))"
    if "i < NBUF" "b_valid (getb i ?s)" "b_refcnt (getb i ?s) = 0" for i
    using that c nz unfolding getb_taken [OF t] cinv_def by (auto split: if_splits)
  moreover have "length (b_data (getb i ?s)) = BSIZE" if "i < NBUF" "b_valid (getb i ?s)" for i
    using that c bview_length [OF c] unfolding getb_taken [OF t] cinv_def by (auto split: if_splits)
  moreover have "\<forall>m. length (disk ?s m) = BSIZE" using c by (simp add: cinv_def)
  ultimately show ?thesis unfolding cinv_def by blast
qed

lemma taken_bview:
  assumes t: "takes s dev n b"
  shows "bview (modb b (taken s dev n b) s) dev m = bview s dev m"
proof (rule bview_eqI [OF taken_cinv [OF t]])
  let ?s = "modb b (taken s dev n b) s"
  have c: "cinv s" and dev: "dev \<noteq> 0" and b: "b < NBUF" using t by (auto simp: takes_def)
  show "dev \<noteq> 0" by fact
  show "b_data (getb i ?s) = bview s dev m" if "holds ?s dev m i" "b_valid (getb i ?s)" for i
    using that bview_cached [OF c dev, of m i] by (auto simp: holds_taken [OF t] getb_taken [OF t] split: if_splits)
  assume no: "\<And>i. holds ?s dev m i \<Longrightarrow> \<not> b_valid (getb i ?s)"
  have mn: "m \<noteq> n" using no [of b] by (auto simp: holds_taken [OF t] getb_taken [OF t])
  show "disk ?s m = bview s dev m"
  proof (cases "holds s dev m b \<and> b_valid (getb b s)")
    case True
    then have "b_refcnt (getb b s) = 0" using t mn by (auto simp: takes_def holds_def)
    then have "b_data (getb b s) = disk s m" using True c b unfolding cinv_def by (auto simp: holds_def)
    then show ?thesis using bview_cached [OF c dev, of m b] True by simp
  next
    case False
    then have "\<not> b_valid (getb i s)" if "holds s dev m i" for i
      using no [of i] that by (cases "i = b") (auto simp: holds_taken [OF t] getb_taken [OF t])
    then show ?thesis using bview_uncached [of s dev m] by simp
  qed
qed

end
