(* ===== verification/Virtio.thy ===== *)
theory Virtio
  imports Bio_Cache
begin

text \<open>
  The disk driver, \<^verbatim>\<open>kernel/virtio_disk.c\<close>: descriptor allocation, submission, the completion
  interrupt, and a device that follows section 2.6 of the virtio specification. A descriptor's
  address names the object it points to: a request header, the data of a buffer, or a status byte.
\<close>

section \<open>State\<close>

definition NUM :: nat where [simp]: "NUM = 8"
definition VRING_DESC_F_NEXT :: u16 where [simp]: "VRING_DESC_F_NEXT = 1"
definition VRING_DESC_F_WRITE :: u16 where [simp]: "VRING_DESC_F_WRITE = 2"
definition VIRTIO_BLK_T_IN :: u32 where [simp]: "VIRTIO_BLK_T_IN = 0"
definition VIRTIO_BLK_T_OUT :: u32 where [simp]: "VIRTIO_BLK_T_OUT = 1"

datatype dma = DmaNull | DmaReq nat | DmaData nat | DmaStatus nat

record virtq_desc =
  vd_addr :: dma
  vd_len :: u32
  vd_flags :: u16
  vd_next :: u16

record virtio_blk_req =
  vr_type :: u32
  vr_reserved :: u32
  vr_sector :: u64

text \<open>The registers of the device; \<open>m_accepts\<close> is whether it agrees to a set of features.\<close>

record mmio =
  m_magic :: u32
  m_version :: u32
  m_device_id :: u32
  m_vendor_id :: u32
  m_features :: u32
  m_driver_features :: u32
  m_accepts :: bool
  m_status :: u32
  m_queue_sel :: u32
  m_queue_ready :: u32
  m_queue_num_max :: u32
  m_queue_num :: u32
  m_desc :: u64
  m_avail :: u64
  m_used :: u64
  m_intr_status :: u32

text \<open>
  \<open>disk\<close> of the source: the shared rings, the driver's books, and, of the device, how far it has
  looked in the available ring.
\<close>

record vdisk =
  v_desc :: "virtq_desc list"
  v_avail_idx :: u16
  v_avail_ring :: "u16 list"
  v_used_dev :: u16
  v_used_ring :: "u32 list"
  v_free :: "bool list"
  v_used_idx :: u16
  v_info_b :: "nat option list"
  v_info_status :: "u8 list"
  v_ops :: "virtio_blk_req list"
  v_seen :: u16
  v_mmio :: mmio

text \<open>The static variable before initialisation, with the registers of the disk that qemu offers.\<close>

definition vdisk0 :: vdisk where
  "vdisk0 = \<lparr>v_desc = replicate NUM \<lparr>vd_addr = DmaNull, vd_len = 0, vd_flags = 0, vd_next = 0\<rparr>, v_avail_idx = 0,
     v_avail_ring = replicate NUM 0, v_used_dev = 0, v_used_ring = replicate NUM 0, v_free = replicate NUM False, v_used_idx = 0,
     v_info_b = replicate NUM None, v_info_status = replicate NUM 0,
     v_ops = replicate NUM \<lparr>vr_type = 0, vr_reserved = 0, vr_sector = 0\<rparr>, v_seen = 0,
     v_mmio = \<lparr>m_magic = 0x74726976, m_version = 2, m_device_id = 2, m_vendor_id = 0x554d4551, m_features = 0,
       m_driver_features = 0, m_accepts = True, m_status = 0, m_queue_sel = 0, m_queue_ready = 0, m_queue_num_max = 1024,
       m_queue_num = 0, m_desc = 0, m_avail = 0, m_used = 0, m_intr_status = 0\<rparr>\<rparr>"

record vstate = bstate +
  vq :: vdisk

definition modv :: "(vdisk \<Rightarrow> vdisk) \<Rightarrow> 'a vstate_scheme \<Rightarrow> 'a vstate_scheme" where
  "modv f s = s\<lparr>vq := f (vq s)\<rparr>"

section \<open>Initialisation\<close>

definition S_ACKNOWLEDGE :: u32 where [simp]: "S_ACKNOWLEDGE = 1"
definition S_DRIVER :: u32 where [simp]: "S_DRIVER = 2"
definition S_DRIVER_OK :: u32 where [simp]: "S_DRIVER_OK = 4"
definition S_FEATURES_OK :: u32 where [simp]: "S_FEATURES_OK = 8"

definition modm :: "(mmio \<Rightarrow> mmio) \<Rightarrow> 'a vstate_scheme \<Rightarrow> 'a vstate_scheme" where
  "modm f s = modv (\<lambda>v. v\<lparr>v_mmio := f (v_mmio v)\<rparr>) s"

text \<open>The device keeps \<open>FEATURES_OK\<close> only if it agrees to the features.\<close>

definition set_status :: "u32 \<Rightarrow> mmio \<Rightarrow> mmio" where
  "set_status v m = m\<lparr>m_status := (if m_accepts m then v else v AND NOT S_FEATURES_OK)\<rparr>"

definition feature_mask :: u32 where
  "feature_mask = NOT (push_bit 5 1) AND NOT (push_bit 7 1) AND NOT (push_bit 11 1) AND NOT (push_bit 12 1) AND
     NOT (push_bit 27 1) AND NOT (push_bit 29 1) AND NOT (push_bit 28 1)"

definition virtq_desc0 :: virtq_desc where
  "virtq_desc0 = \<lparr>vd_addr = DmaNull, vd_len = 0, vd_flags = 0, vd_next = 0\<rparr>"

text \<open>The three pages of the queue, allocated and zeroed.\<close>

definition queue_memory :: "'a vstate_scheme \<Rightarrow> (u64 \<times> u64 \<times> u64, 'a vstate_scheme) res" where
  "queue_memory s =
     rbind (kalloc s) (\<lambda>de s. rbind (kalloc s) (\<lambda>av s. rbind (kalloc s) (\<lambda>us s.
       if de = 0 \<or> av = 0 \<or> us = 0 then Panic ''virtio disk kalloc''
       else let s = zero_page us (zero_page av (zero_page de s))
            in Ret (de, av, us) (modv (\<lambda>v. v\<lparr>v_desc := replicate NUM virtq_desc0, v_avail_idx := 0, v_avail_ring := replicate NUM 0,
                 v_used_dev := 0, v_used_ring := replicate NUM 0\<rparr>) s))))"

definition virtio_disk_init :: "'a vstate_scheme \<Rightarrow> (unit, 'a vstate_scheme) res" where
  "virtio_disk_init s =
     (let m = v_mmio (vq s) in
      if m_magic m \<noteq> 0x74726976 \<or> m_version m \<noteq> 2 \<or> m_device_id m \<noteq> 2 \<or> m_vendor_id m \<noteq> 0x554d4551
      then Panic ''could not find virtio disk''
      else
        let s = modm (set_status 0) s;
            s = modm (set_status S_ACKNOWLEDGE) s;
            s = modm (set_status (S_ACKNOWLEDGE OR S_DRIVER)) s;
            s = modm (\<lambda>m. m\<lparr>m_driver_features := m_features m AND feature_mask\<rparr>) s;
            s = modm (set_status (S_ACKNOWLEDGE OR S_DRIVER OR S_FEATURES_OK)) s;
            status = m_status (v_mmio (vq s))
        in if status AND S_FEATURES_OK = 0 then Panic ''virtio disk FEATURES_OK unset''
           else let s = modm (\<lambda>m. m\<lparr>m_queue_sel := 0\<rparr>) s; mx = m_queue_num_max (v_mmio (vq s)) in
           if m_queue_ready (v_mmio (vq s)) \<noteq> 0 then Panic ''virtio disk should not be ready''
           else if mx = 0 then Panic ''virtio disk has no queue 0''
           else if unat mx < NUM then Panic ''virtio disk max queue too short''
           else rbind (queue_memory s) (\<lambda>(de, av, us) s.
             let s = modm (\<lambda>m. m\<lparr>m_queue_num := of_nat NUM, m_desc := de, m_avail := av, m_used := us, m_queue_ready := 1\<rparr>) s;
                 s = modv (\<lambda>v. v\<lparr>v_free := replicate NUM True\<rparr>) s
             in Ret () (modm (set_status (status OR S_DRIVER_OK)) s)))"

section \<open>Descriptors\<close>

definition alloc_desc :: "'a vstate_scheme \<Rightarrow> nat option \<times> 'a vstate_scheme" where
  "alloc_desc s =
     (case find_index id (v_free (vq s)) of
        None \<Rightarrow> (None, s)
      | Some i \<Rightarrow> (Some i, modv (\<lambda>v. v\<lparr>v_free := (v_free v)[i := False]\<rparr>) s))"

definition free_desc :: "nat \<Rightarrow> 'a vstate_scheme \<Rightarrow> (unit, 'a vstate_scheme) res" where
  "free_desc i s =
     (if i \<ge> NUM then Panic ''free_desc 1''
      else if v_free (vq s) ! i then Panic ''free_desc 2''
      else let s = modv (\<lambda>v. v\<lparr>v_desc := (v_desc v)[i := virtq_desc0]\<rparr>) s;
               s = modv (\<lambda>v. v\<lparr>v_free := (v_free v)[i := True]\<rparr>) s
           in Ret () (wakeup ChanDiskFree s))"

text \<open>A descriptor met twice is free already and panics, so \<open>Suc NUM\<close> rounds suffice.\<close>

fun free_chain_loop :: "nat \<Rightarrow> nat \<Rightarrow> 'a vstate_scheme \<Rightarrow> (unit, 'a vstate_scheme) res" where
  "free_chain_loop 0 i s = Panic ''hang''"
| "free_chain_loop (Suc fuel) i s =
     (let flag = vd_flags (v_desc (vq s) ! i); nxt = unat (vd_next (v_desc (vq s) ! i)) in
      rbind (free_desc i s) (\<lambda>_ s.
        if flag AND VRING_DESC_F_NEXT \<noteq> 0 then free_chain_loop fuel nxt s else Ret () s))"

definition free_chain_desc :: "nat \<Rightarrow> 'a vstate_scheme \<Rightarrow> (unit, 'a vstate_scheme) res" where
  "free_chain_desc i s = free_chain_loop (Suc NUM) i s"

definition alloc3_desc :: "'a vstate_scheme \<Rightarrow> ((nat \<times> nat \<times> nat) option, 'a vstate_scheme) res" where
  "alloc3_desc s =
     (let (i0, s) = alloc_desc s in
      case i0 of None \<Rightarrow> Ret None s
      | Some i0 \<Rightarrow>
          let (i1, s) = alloc_desc s in
          case i1 of None \<Rightarrow> rbind (free_desc i0 s) (\<lambda>_ s. Ret None s)
          | Some i1 \<Rightarrow>
              let (i2, s) = alloc_desc s in
              case i2 of
                None \<Rightarrow> rbind (free_desc i0 s) (\<lambda>_ s. rbind (free_desc i1 s) (\<lambda>_ s. Ret None s))
              | Some i2 \<Rightarrow> Ret (Some (i0, i1, i2)) s)"

section \<open>Requests\<close>

text \<open>The three descriptors of a request, and its entry in the available ring.\<close>

definition format_request :: "nat \<Rightarrow> bool \<Rightarrow> u32 \<Rightarrow> nat \<Rightarrow> nat \<Rightarrow> nat \<Rightarrow> vdisk \<Rightarrow> vdisk" where
  "format_request b write blockno i0 i1 i2 v =
     v\<lparr>v_ops := (v_ops v)[i0 := \<lparr>vr_type = (if write then VIRTIO_BLK_T_OUT else VIRTIO_BLK_T_IN), vr_reserved = 0,
          vr_sector = ucast (blockno * of_nat (BSIZE div 512))\<rparr>],
       v_desc := (v_desc v)[
          i0 := \<lparr>vd_addr = DmaReq i0, vd_len = 16, vd_flags = VRING_DESC_F_NEXT, vd_next = of_nat i1\<rparr>,
          i1 := \<lparr>vd_addr = DmaData b, vd_len = of_nat BSIZE,
                 vd_flags = (if write then 0 else VRING_DESC_F_WRITE) OR VRING_DESC_F_NEXT, vd_next = of_nat i2\<rparr>,
          i2 := \<lparr>vd_addr = DmaStatus i0, vd_len = 1, vd_flags = VRING_DESC_F_WRITE, vd_next = 0\<rparr>],
       v_info_status := (v_info_status v)[i0 := 0xff],
       v_info_b := (v_info_b v)[i0 := Some b]\<rparr>"

definition publish :: "nat \<Rightarrow> vdisk \<Rightarrow> vdisk" where
  "publish i0 v = v\<lparr>v_avail_ring := (v_avail_ring v)[unat (v_avail_idx v) mod NUM := of_nat i0],
     v_avail_idx := v_avail_idx v + 1\<rparr>"

text \<open>Up to the notification of the device; the head of the chain is the result.\<close>

definition virtio_submit :: "nat \<Rightarrow> bool \<Rightarrow> 'a vstate_scheme \<Rightarrow> (nat, 'a vstate_scheme) res" where
  "virtio_submit b write s =
     rbind (alloc3_desc s) (\<lambda>idx s.
       case idx of
         None \<Rightarrow> sleep ChanDiskFree s
       | Some (i0, i1, i2) \<Rightarrow>
           let s = modv (format_request b write (b_blockno (getb b s)) i0 i1 i2) s;
               s = modb b (\<lambda>x. x\<lparr>b_disk := True\<rparr>) s
           in Ret i0 (modv (publish i0) s))"

text \<open>What remains of \<open>virtio_disk_rw\<close> whenever the process runs again.\<close>

definition virtio_finish :: "nat \<Rightarrow> nat \<Rightarrow> 'a vstate_scheme \<Rightarrow> (unit, 'a vstate_scheme) res" where
  "virtio_finish b i0 s =
     (if b_disk (getb b s) then sleep (ChanBuf b) s
      else free_chain_desc i0 (modv (\<lambda>v. v\<lparr>v_info_b := (v_info_b v)[i0 := None]\<rparr>) s))"

definition virtio_disk_rw :: "nat \<Rightarrow> bool \<Rightarrow> 'a vstate_scheme \<Rightarrow> (unit, 'a vstate_scheme) res" where
  "virtio_disk_rw b write s = rbind (virtio_submit b write s) (\<lambda>i0 s. virtio_finish b i0 s)"

section \<open>Completion\<close>

fun virtio_intr_loop :: "nat \<Rightarrow> 'a vstate_scheme \<Rightarrow> (unit, 'a vstate_scheme) res" where
  "virtio_intr_loop 0 s = Ret () s"
| "virtio_intr_loop (Suc fuel) s =
     (if v_used_idx (vq s) = v_used_dev (vq s) then Ret () s
      else let id = unat (v_used_ring (vq s) ! (unat (v_used_idx (vq s)) mod NUM)) in
        if v_info_status (vq s) ! id \<noteq> 0 then Panic ''virtio_disk_intr status''
        else case v_info_b (vq s) ! id of None \<Rightarrow> Panic ''kerneltrap''
          | Some b \<Rightarrow>
              let s = modb b (\<lambda>x. x\<lparr>b_disk := False\<rparr>) s;
                  s = wakeup (ChanBuf b) s
              in virtio_intr_loop fuel (modv (\<lambda>v. v\<lparr>v_used_idx := v_used_idx v + 1\<rparr>) s))"

text \<open>The distance between the two counters is the number of rounds.\<close>

definition virtio_disk_intr :: "'a vstate_scheme \<Rightarrow> (unit, 'a vstate_scheme) res" where
  "virtio_disk_intr s =
     (let s = modm (\<lambda>m. m\<lparr>m_intr_status := m_intr_status m AND NOT (m_intr_status m AND 3)\<rparr>) s
      in virtio_intr_loop (unat (v_used_dev (vq s) - v_used_idx (vq s))) s)"

section \<open>The device\<close>

text \<open>
  Processing one available chain: read the request header, transfer the block, write the status,
  and add the head to the used ring.
\<close>

definition device_step :: "'a vstate_scheme \<Rightarrow> 'a vstate_scheme" where
  "device_step s =
     (let v = vq s in
      if v_seen v = v_avail_idx v then s
      else
        let i0 = unat (v_avail_ring v ! (unat (v_seen v) mod NUM));
            d0 = v_desc v ! i0; d1 = v_desc v ! unat (vd_next d0); d2 = v_desc v ! unat (vd_next d1)
        in case (vd_addr d0, vd_addr d1, vd_addr d2) of
             (DmaReq r, DmaData b, DmaStatus st) \<Rightarrow>
               let req = v_ops v ! r; blk = ucast (vr_sector req div 2) :: u32;
                   s = (if vr_type req = VIRTIO_BLK_T_OUT
                        then s\<lparr>disk := (disk s)(blk := b_data (getb b s)), dwrites := dwrites s @ [(blk, b_data (getb b s))]\<rparr>
                        else modb b (\<lambda>x. x\<lparr>b_data := disk s blk\<rparr>) s)
               in modv (\<lambda>v. v\<lparr>v_info_status := (v_info_status v)[st := 0],
                    v_used_ring := (v_used_ring v)[unat (v_used_dev v) mod NUM := of_nat i0],
                    v_used_dev := v_used_dev v + 1, v_seen := v_seen v + 1,
                    v_mmio := (v_mmio v)\<lparr>m_intr_status := m_intr_status (v_mmio v) OR 1\<rparr>\<rparr>) s
           | _ \<Rightarrow> s)"

end
