(* ===== verification/Log.thy ===== *)
theory Log
  imports Virtio
begin

text \<open>
  The write-ahead log, \<^verbatim>\<open>kernel/log.c\<close>. The in-memory header keeps the C \<open>int\<close>s; the header on
  disk is its little-endian image at the start of block \<open>log.start\<close>. Indexing \<open>block\<close> beyond its
  \<open>LOGSIZE\<close> entries is undefined in C and is the outcome \<open>Panic ''ub''\<close>.
\<close>

section \<open>State\<close>

record logheader =
  lh_n :: int
  lh_block :: "int list"

record log =
  l_start :: int
  l_size :: int
  l_outstanding :: int
  l_committing :: bool
  l_dev :: int
  l_lh :: logheader

record lstate = vstate +
  the_log :: log

definition modlog :: "(log \<Rightarrow> log) \<Rightarrow> 'a lstate_scheme \<Rightarrow> 'a lstate_scheme" where
  "modlog f s = s\<lparr>the_log := f (the_log s)\<rparr>"

definition logn :: "'a lstate_scheme \<Rightarrow> int" where
  "logn s = lh_n (l_lh (the_log s))"

definition logblock :: "'a lstate_scheme \<Rightarrow> nat \<Rightarrow> int" where
  "logblock s i = lh_block (l_lh (the_log s)) ! i"

section \<open>Reading and writing blocks of the log\<close>

definition log_bread :: "int \<Rightarrow> 'a lstate_scheme \<Rightarrow> (nat, 'a lstate_scheme) res" where
  "log_bread n s = bread (of_int (l_dev (the_log s))) (of_int n) s"

text \<open>One round of \<open>install_trans\<close>: the log block is copied to its home.\<close>

definition install_block :: "bool \<Rightarrow> nat \<Rightarrow> 'a lstate_scheme \<Rightarrow> (unit, 'a lstate_scheme) res" where
  "install_block recovering tail s =
     rbind (log_bread (l_start (the_log s) + int tail + 1) s) (\<lambda>lbuf s.
     rbind (log_bread (logblock s tail) s) (\<lambda>dbuf s.
       let s = modb dbuf (\<lambda>x. x\<lparr>b_data := b_data (getb lbuf s)\<rparr>) s in
       rbind (bwrite dbuf s) (\<lambda>_ s.
         let s = (if recovering then s else bunpin dbuf s) in
         rbind (brelse lbuf s) (\<lambda>_ s. brelse dbuf s))))"

definition install_trans :: "bool \<Rightarrow> 'a lstate_scheme \<Rightarrow> (unit, 'a lstate_scheme) res" where
  "install_trans recovering s = rfor [0..<nat (logn s)] (install_block recovering) s"

definition read_head :: "'a lstate_scheme \<Rightarrow> (unit, 'a lstate_scheme) res" where
  "read_head s =
     rbind (log_bread (l_start (the_log s)) s) (\<lambda>b s.
       let d = b_data (getb b s); n = sint (get_le d 0 4 :: u32) in
       if n > int LOGSIZE then Panic ''ub'' else
       let s = modlog (\<lambda>l. l\<lparr>l_lh := \<lparr>lh_n = n,
             lh_block = map (\<lambda>i. sint (get_le d (4 + 4 * i) 4 :: u32)) [0..<nat n] @ drop (nat n) (lh_block (l_lh l))\<rparr>\<rparr>) s
       in brelse b s)"

text \<open>The header block with the in-memory header written over its start.\<close>

definition put_head :: "logheader \<Rightarrow> u8 list \<Rightarrow> u8 list" where
  "put_head lh d =
     fold (\<lambda>i d. put_le d (4 + 4 * i) 4 (of_int (lh_block lh ! i) :: u32)) [0..<nat (lh_n lh)]
       (put_le d 0 4 (of_int (lh_n lh) :: u32))"

definition write_head :: "'a lstate_scheme \<Rightarrow> (unit, 'a lstate_scheme) res" where
  "write_head s =
     rbind (log_bread (l_start (the_log s)) s) (\<lambda>b s.
       let s = modb b (\<lambda>x. x\<lparr>b_data := put_head (l_lh (the_log s)) (b_data x)\<rparr>) s in
       rbind (bwrite b s) (\<lambda>_ s. brelse b s))"

definition clear_lh :: "'a lstate_scheme \<Rightarrow> 'a lstate_scheme" where
  "clear_lh s = modlog (\<lambda>l. l\<lparr>l_lh := (l_lh l)\<lparr>lh_n := 0\<rparr>\<rparr>) s"

definition recover_from_log :: "'a lstate_scheme \<Rightarrow> (unit, 'a lstate_scheme) res" where
  "recover_from_log s =
     rbind (read_head s) (\<lambda>_ s. rbind (install_trans True s) (\<lambda>_ s. write_head (clear_lh s)))"

text \<open>The superblock fields that \<open>initlog\<close> reads are passed as \<open>logstart\<close> and \<open>nlog\<close>.\<close>

definition initlog :: "int \<Rightarrow> u32 \<Rightarrow> u32 \<Rightarrow> 'a lstate_scheme \<Rightarrow> (unit, 'a lstate_scheme) res" where
  "initlog dev logstart nlog s =
     (if 4 + 4 * LOGSIZE \<ge> BSIZE then Panic ''initlog: too big logheader''
      else recover_from_log (modlog (\<lambda>l. l\<lparr>l_start := sint logstart, l_size := sint nlog, l_dev := dev\<rparr>) s))"

section \<open>Operations\<close>

definition begin_op :: "'a lstate_scheme \<Rightarrow> (unit, 'a lstate_scheme) res" where
  "begin_op s =
     (if l_committing (the_log s) then sleep ChanLog s
      else if logn s + (l_outstanding (the_log s) + 1) * int MAXOPBLOCKS > int LOGSIZE then sleep ChanLog s
      else Ret () (modlog (\<lambda>l. l\<lparr>l_outstanding := l_outstanding l + 1\<rparr>) s))"

definition write_log_block :: "nat \<Rightarrow> 'a lstate_scheme \<Rightarrow> (unit, 'a lstate_scheme) res" where
  "write_log_block tail s =
     rbind (log_bread (l_start (the_log s) + int tail + 1) s) (\<lambda>to s.
     rbind (log_bread (logblock s tail) s) (\<lambda>from s.
       let s = modb to (\<lambda>x. x\<lparr>b_data := b_data (getb from s)\<rparr>) s in
       rbind (bwrite to s) (\<lambda>_ s. rbind (brelse from s) (\<lambda>_ s. brelse to s))))"

definition write_log :: "'a lstate_scheme \<Rightarrow> (unit, 'a lstate_scheme) res" where
  "write_log s = rfor [0..<nat (logn s)] write_log_block s"

definition commit :: "'a lstate_scheme \<Rightarrow> (unit, 'a lstate_scheme) res" where
  "commit s =
     (if logn s > 0 then
        rbind (write_log s) (\<lambda>_ s.
        rbind (write_head s) (\<lambda>_ s.
        rbind (install_trans False s) (\<lambda>_ s. write_head (clear_lh s))))
      else Ret () s)"

definition end_op :: "'a lstate_scheme \<Rightarrow> (unit, 'a lstate_scheme) res" where
  "end_op s =
     (let s = modlog (\<lambda>l. l\<lparr>l_outstanding := l_outstanding l - 1\<rparr>) s in
      if l_committing (the_log s) then Panic ''log.committing''
      else if l_outstanding (the_log s) = 0 then
        rbind (commit (modlog (\<lambda>l. l\<lparr>l_committing := True\<rparr>) s)) (\<lambda>_ s.
          Ret () (wakeup ChanLog (modlog (\<lambda>l. l\<lparr>l_committing := False\<rparr>) s)))
      else Ret () (wakeup ChanLog s))"

text \<open>The position in the header of a block number, or the first unused one.\<close>

definition log_slot :: "u32 \<Rightarrow> logheader \<Rightarrow> nat" where
  "log_slot bno lh =
     (case find_index (\<lambda>x. of_int x = bno) (take (nat (lh_n lh)) (lh_block lh)) of
        Some i \<Rightarrow> i | None \<Rightarrow> nat (lh_n lh))"

definition log_write :: "nat \<Rightarrow> 'a lstate_scheme \<Rightarrow> (unit, 'a lstate_scheme) res" where
  "log_write b s =
     (if logn s \<ge> int LOGSIZE \<or> logn s \<ge> l_size (the_log s) - 1 then Panic ''too big a transaction''
      else if l_outstanding (the_log s) < 1 then Panic ''log_write outside of trans''
      else let bno = b_blockno (getb b s); i = log_slot bno (l_lh (the_log s));
               fresh = (int i = logn s);
               s = modlog (\<lambda>l. l\<lparr>l_lh := (l_lh l)\<lparr>lh_block := (lh_block (l_lh l))[i := sint bno]\<rparr>\<rparr>) s
           in Ret () (if fresh then modlog (\<lambda>l. l\<lparr>l_lh := (l_lh l)\<lparr>lh_n := lh_n (l_lh l) + 1\<rparr>\<rparr>) (bpin b s) else s))"

end
