(* ===== verification/Block_Cache.thy ===== *)
theory Block_Cache
  imports Bio_Cache
begin

text \<open>
  The contract of the buffer cache towards the layers above it. An abstract cache has the contents
  of every block as its readers see them, the contents of the disk, how often each block is
  referenced, the buffers this process holds, and the history of disk writes. \<open>cst\<close> relates a
  kernel state to an abstract cache; the lemmas are the simulation of each operation.
\<close>

record acache =
  av :: "u32 \<Rightarrow> u8 list"
  ad :: "u32 \<Rightarrow> u8 list"
  apins :: "u32 \<Rightarrow> nat"
  aheld :: "u32 \<Rightarrow> nat option"
  ahist :: "(u32 \<times> u8 list) list"

definition cst :: "'a bstate_scheme \<Rightarrow> u32 \<Rightarrow> acache \<Rightarrow> bool" where
  "cst s dev a \<longleftrightarrow> binv s \<and> dev \<noteq> 0 \<and> (\<exists>p. myproc s = Some p \<and> p < length (procs s)) \<and>
     (\<forall>n. bview s dev n = av a n) \<and> disk s = ad a \<and> dwrites s = ahist a \<and>
     (\<forall>n i. holds s dev n i \<longrightarrow> unat (b_refcnt (getb i s)) = apins a n) \<and>
     (\<forall>n. apins a n > 0 \<longrightarrow> (\<exists>i. holds s dev n i)) \<and>
     (\<forall>i<NBUF. b_dev (getb i s) \<noteq> dev \<longrightarrow> b_refcnt (getb i s) = 0 \<and> \<not> b_valid (getb i s)) \<and>
     (\<forall>n b. aheld a n = Some b \<longrightarrow> holds s dev n b \<and> b_valid (getb b s) \<and>
        sl_locked (b_lock (getb b s)) \<and> sl_pid (b_lock (getb b s)) = mypid s) \<and>
     (\<forall>i<NBUF. sl_locked (b_lock (getb i s)) \<longrightarrow> aheld a (b_blockno (getb i s)) = Some i)"

lemma cstD:
  assumes "cst s dev a"
  shows "binv s" "cinv s" "dev \<noteq> 0" "\<exists>p. myproc s = Some p \<and> p < length (procs s)" "bview s dev n = av a n" "disk s = ad a" "dwrites s = ahist a"
    "holds s dev n i \<Longrightarrow> unat (b_refcnt (getb i s)) = apins a n"
    "apins a n > 0 \<Longrightarrow> \<exists>i. holds s dev n i"
    "i < NBUF \<Longrightarrow> b_dev (getb i s) \<noteq> dev \<Longrightarrow> b_refcnt (getb i s) = 0"
    "aheld a n = Some b \<Longrightarrow> holds s dev n b \<and> b_valid (getb b s) \<and> sl_locked (b_lock (getb b s)) \<and> sl_pid (b_lock (getb b s)) = mypid s"
    "i < NBUF \<Longrightarrow> sl_locked (b_lock (getb i s)) \<Longrightarrow> aheld a (b_blockno (getb i s)) = Some i"
    "length (bufs s) = Suc NBUF" "i < NBUF \<Longrightarrow> b_valid (getb i s) \<Longrightarrow> b_dev (getb i s) = dev"
proof -
  show "i < NBUF \<Longrightarrow> b_valid (getb i s) \<Longrightarrow> b_dev (getb i s) = dev"
    using assms unfolding cst_def by (elim conjE) metis
qed (use assms in \<open>unfold cst_def binv_def lru_def, (elim conjE, simp | elim conjE, blast)+\<close>)

lemma cst_cong:
  assumes "cst s dev a" "\<And>i. bcore s' i = bcore s i" "lru s' xs" "disk s' = disk s" "dwrites s' = dwrites s"
    "myproc s' = myproc s" "mypid s' = mypid s" "length (procs s') = length (procs s)"
  shows "cst s' dev a"
proof -
  have h: "holds s' = holds s" by (intro ext) (rule holds_cong [OF assms(2)])
  show ?thesis using assms(1) unfolding cst_def binv_def
    by (simp only: bcore_fields [OF assms(2)] h cinv_cong [OF assms(2,4)] bview_cong [OF assms(2,4)] assms(4-8))
      (use assms(3) in blast)
qed

text \<open>One buffer of a cached block changes, its identity and links aside.\<close>

lemma cst_update:
  assumes cst: "cst s dev a" and h: "holds s dev n b" and v: "b_valid (getb b s)"
    and g: "\<And>x. b_dev (g x) = b_dev x \<and> b_blockno (g x) = b_blockno x \<and> b_valid (g x) = b_valid x \<and>
      b_next (g x) = b_next x \<and> b_prev (g x) = b_prev x"
    and x: "x = g (getb b s)" "sl_locked (b_lock x) \<Longrightarrow> b_refcnt x \<noteq> 0 \<and> sl_pid (b_lock x) = mypid s"
      "b_refcnt x = 0 \<Longrightarrow> b_data x = disk s n" "length (b_data x) = BSIZE"
  shows "cst (modb b g s) dev (a\<lparr>av := (av a)(n := b_data x), apins := (apins a)(n := unat (b_refcnt x)),
    aheld := (aheld a)(n := if sl_locked (b_lock x) then Some b else None)\<rparr>)"
proof -
  let ?s = "modb b g s"
  note c = cstD [OF cst]
  have b: "b < NBUF" "b < length (bufs s)" "b_dev (getb b s) = dev" "b_blockno (getb b s) = n"
    using h c(13) by (auto simp: holds_def)
  have gb: "getb i ?s = (if i = b then x else getb i s)" for i using b x(1) by (simp add: getb_modb)
  have xs: "b_dev x = dev" "b_blockno x = n" "b_valid x" using g b v x(1) by simp_all
  have hs: "holds ?s d m i = holds s d m i" for d m i using b xs by (auto simp: holds_def gb)
  have uniq: "holds s dev m b \<Longrightarrow> m = n" for m using b by (auto simp: holds_def)
  have uniq2: "holds s dev n i \<Longrightarrow> i = b" for i using holds_unique [OF c(2,3) h] by blast
  have ci: "cinv ?s"
  proof -
    have "b_refcnt (getb i ?s) \<noteq> 0" if "i < NBUF" "sl_locked (b_lock (getb i ?s))" for i
      using that c(2) x(2) unfolding gb cinv_def by (auto split: if_splits)
    moreover have "b_data (getb i ?s) = disk ?s (b_blockno (getb i ?s))"
      if "i < NBUF" "b_valid (getb i ?s)" "b_refcnt (getb i ?s) = 0" for i
      using that c(2) x(3) xs unfolding gb cinv_def by (auto split: if_splits)
    moreover have "length (b_data (getb i ?s)) = BSIZE" if "i < NBUF" "b_valid (getb i ?s)" for i
      using that c(2) x(4) unfolding gb cinv_def by (auto split: if_splits)
    ultimately show ?thesis using c(2) unfolding cinv_def hs by simp
  qed
  have view: "bview ?s dev m = ((av a)(n := b_data x)) m" for m
  proof (rule bview_eqI [OF ci c(3)])
    show "b_data (getb i ?s) = ((av a)(n := b_data x)) m" if "holds ?s dev m i" "b_valid (getb i ?s)" for i
    proof (cases "i = b")
      case True
      then have "m = n" using that uniq by (simp add: hs)
      then show ?thesis using True by (simp add: gb)
    next
      case False
      then have "m \<noteq> n" using that uniq2 by (auto simp: hs)
      then show ?thesis using False that bview_cached [OF c(2,3), of m i] c(5) [of m] by (simp add: hs gb)
    qed
    assume no: "\<And>i. holds ?s dev m i \<Longrightarrow> \<not> b_valid (getb i ?s)"
    have "m \<noteq> n" using no [of b] h xs by (auto simp: hs gb)
    moreover have "disk s m = bview s dev m"
    proof (rule bview_uncached [symmetric])
      fix i assume i: "holds s dev m i"
      then have "i \<noteq> b" using uniq \<open>m \<noteq> n\<close> by blast
      then show "\<not> b_valid (getb i s)" using no [of i] i by (simp add: hs gb)
    qed
    ultimately show "disk ?s m = ((av a)(n := b_data x)) m" using c(5) [of m] by simp
  qed
  have lru: "\<exists>ys. lru ?s ys" using c(1) g lru_modb unfolding binv_def by metis
  show ?thesis
    unfolding cst_def binv_def hs
  proof (intro conjI allI impI)
    show "unat (b_refcnt (getb i ?s)) = apins (a\<lparr>av := (av a)(n := b_data x), apins := (apins a)(n := unat (b_refcnt x)),
        aheld := (aheld a)(n := if sl_locked (b_lock x) then Some b else None)\<rparr>) m" if "holds s dev m i" for m i
      using that c(8) uniq uniq2 by (auto simp: gb)
    show "\<exists>i. holds s dev m i" if "apins (a\<lparr>av := (av a)(n := b_data x), apins := (apins a)(n := unat (b_refcnt x)),
        aheld := (aheld a)(n := if sl_locked (b_lock x) then Some b else None)\<rparr>) m > 0" for m
      using that h c(9) by (cases "m = n") auto
    show "b_refcnt (getb i ?s) = 0" "\<not> b_valid (getb i ?s)" if "i < NBUF" "b_dev (getb i ?s) \<noteq> dev" for i
      using that c(10) c(14) [of i] xs by (auto simp: gb split: if_splits)
  next
    fix m b'
    assume "aheld (a\<lparr>av := (av a)(n := b_data x), apins := (apins a)(n := unat (b_refcnt x)),
        aheld := (aheld a)(n := if sl_locked (b_lock x) then Some b else None)\<rparr>) m = Some b'"
    then have *: "if m = n then sl_locked (b_lock x) \<and> b' = b else aheld a m = Some b'" by (auto split: if_splits)
    have "m \<noteq> n \<Longrightarrow> b' \<noteq> b" using * c(11) [of m b'] uniq by auto
    then show "holds s dev m b'" "b_valid (getb b' ?s)" "sl_locked (b_lock (getb b' ?s))" "sl_pid (b_lock (getb b' ?s)) = mypid ?s"
      using * h xs x(2) c(11) [of m b'] by (auto simp: gb split: if_splits)
  next
    fix i assume "i < NBUF" "sl_locked (b_lock (getb i ?s))"
    then have *: "if i = b then sl_locked (b_lock x) else aheld a (b_blockno (getb i s)) = Some i"
      using c(12) by (auto simp: gb)
    have "i \<noteq> b \<Longrightarrow> b_blockno (getb i s) \<noteq> n"
      using * c(11) [of "b_blockno (getb i s)" i] uniq2 by auto
    then show "aheld (a\<lparr>av := (av a)(n := b_data x), apins := (apins a)(n := unat (b_refcnt x)),
        aheld := (aheld a)(n := if sl_locked (b_lock x) then Some b else None)\<rparr>) (b_blockno (getb i ?s)) = Some i"
      using * xs by (auto simp: gb)
  qed (use c(3,4) ci view lru c(6,7) in \<open>simp_all\<close>)
qed

section \<open>Reading\<close>

text \<open>There is a buffer for a block that is cached or while fewer than \<open>NBUF\<close> blocks are in use.\<close>

definition room :: "acache \<Rightarrow> u32 \<Rightarrow> bool" where
  "room a n \<longleftrightarrow> (apins a n > 0 \<or> card {m. apins a m > 0} < NBUF) \<and> apins a n < 2 ^ 32 - 1"

lemma free_buffer:
  assumes cst: "cst s dev a" and few: "card {m. apins a m > 0} < NBUF"
  shows "\<exists>i<NBUF. b_refcnt (getb i s) = 0"
proof (rule ccontr)
  assume "\<not> ?thesis"
  then have used: "b_refcnt (getb i s) \<noteq> 0" if "i < NBUF" for i using that by blast
  note c = cstD [OF cst]
  have h: "holds s dev (b_blockno (getb i s)) i" if "i < NBUF" for i
    using used [OF that] c(10) [OF that] that by (auto simp: holds_def)
  have "inj_on (\<lambda>i. b_blockno (getb i s)) {0..<NBUF}"
    using h holds_unique [OF c(2,3)] by (intro inj_onI) (metis atLeastLessThan_iff)
  moreover have "(\<lambda>i. b_blockno (getb i s)) ` {0..<NBUF} \<subseteq> {m. apins a m > 0}"
  proof
    fix m assume "m \<in> (\<lambda>i. b_blockno (getb i s)) ` {0..<NBUF}"
    then obtain i where i: "i < NBUF" "m = b_blockno (getb i s)" by auto
    then have "unat (b_refcnt (getb i s)) = apins a m" using c(8) [OF h [OF i(1)]] by simp
    then show "m \<in> {m. apins a m > 0}" using used [OF i(1)] by (auto simp: unat_gt_0 [symmetric])
  qed
  moreover have "finite {m. apins a m > 0}" by (rule finite_subset [OF subset_UNIV finite])
  ultimately have "card {0..<NBUF} \<le> card {m. apins a m > 0}" by (metis card_image card_mono)
  then show False using few by simp
qed

text \<open>Processes change only by wakeups, and nothing above the disk changes.\<close>

definition bframe :: "'a bstate_scheme \<Rightarrow> 'a bstate_scheme \<Rightarrow> bool" where
  "bframe s s' \<longleftrightarrow> (\<exists>ps bs d w. s' = s\<lparr>procs := ps, bufs := bs, disk := d, dwrites := w\<rparr> \<and> length ps = length (procs s))"

lemma bframe_refl [simp]: "bframe s s"
  unfolding bframe_def by (rule exI [of _ "procs s"], rule exI [of _ "bufs s"], rule exI [of _ "disk s"], rule exI [of _ "dwrites s"]) simp

lemma bframe_trans [trans]: "bframe s t \<Longrightarrow> bframe t u \<Longrightarrow> bframe s u"
  unfolding bframe_def by force

lemma bframe_modb [simp]: "bframe s (modb b f s)"
  unfolding bframe_def modb_def by (rule exI [of _ "procs s"], rule exI, rule exI [of _ "disk s"], rule exI [of _ "dwrites s"]) simp

lemma bframe_bufs: "bframe s (s\<lparr>bufs := bs\<rparr>)"
  unfolding bframe_def by (rule exI [of _ "procs s"], rule exI [of _ bs], rule exI [of _ "disk s"], rule exI [of _ "dwrites s"]) simp

lemma bframe_wakeup: "bframe s (wakeup ch s)"
  using wakeup_simps(1) [of ch s] unfolding bframe_def
  by (subst wakeup_procs) (rule exI [of _ "procs (wakeup ch s)"], rule exI [of _ "bufs s"], rule exI [of _ "disk s"], rule exI [of _ "dwrites s"], simp)

lemma cst_bread:
  assumes cst: "cst s dev a" and free: "aheld a n = None" and room: "room a n"
  shows "wpr (bread dev n s) (\<lambda>b s'.
    cst s' dev (a\<lparr>apins := (apins a)(n := apins a n + 1), aheld := (aheld a)(n := Some b)\<rparr>) \<and> bframe s s')"
proof -
  note c = cstD [OF cst]
  obtain p where me: "myproc s = Some p" using c(4) by blast
  have max: "b_refcnt (getb i s) \<noteq> -1" if "holds s dev n i" for i
    using c(8) [OF that] room by (auto simp: room_def unsigned_minus_1_eq_mask mask_eq_exp_minus_1)
  have "\<not> sl_locked (b_lock (getb i s))" if "holds s dev n i" for i
    using c(12) [of i] that free by (auto simp: holds_def)
  moreover have "(\<exists>i. holds s dev n i) \<or> (\<exists>i<NBUF. b_refcnt (getb i s) = 0)"
    using room c(9) [of n] free_buffer [OF cst] by (auto simp: room_def)
  ultimately have "available s dev n" using max unfolding available_def by blast
  from bread_eq [OF c(1,3) me this] obtain b where
    br: "bread dev n s = Ret b (modb b (taken s dev n b) s)" and b: "b < NBUF"
    and alt: "holds s dev n b \<or> (\<forall>i. \<not> holds s dev n i) \<and> b_refcnt (getb b s) = 0"
    and unl: "\<not> sl_locked (b_lock (getb b s))" and nw: "b_refcnt (getb b s) \<noteq> -1" by blast
  have t: "takes s dev n b" using c b alt nw by (simp add: takes_def)
  let ?s = "modb b (taken s dev n b) s"
  have ref: "unat (b_refcnt (getb b s) + 1) = apins a n + 1"
  proof -
    have "unat (b_refcnt (getb b s)) = apins a n"
    proof (cases "apins a n > 0")
      case False
      then show ?thesis using alt c(8) [of n b] by auto
    next
      case True
      then show ?thesis using alt c(8) [of n b] c(9) [OF True] by blast
    qed
    moreover have "b_refcnt (getb b s) + 1 \<noteq> 0" using nw by (simp add: eq_neg_iff_add_eq_0)
    ultimately show ?thesis using unatSuc [of "b_refcnt (getb b s)"] by (simp add: add.commute)
  qed
  have old: "holds s dev m b \<Longrightarrow> m \<noteq> n \<Longrightarrow> apins a m = 0" for m
    using alt c(8) [of m b] by (auto simp: holds_def)
  have "cst ?s dev (a\<lparr>apins := (apins a)(n := apins a n + 1), aheld := (aheld a)(n := Some b)\<rparr>)"
    unfolding cst_def binv_def
  proof (intro conjI allI impI)
    show "Ex (lru ?s)" using c(1) lru_modb [of s _ "taken s dev n b" b] by (auto simp: binv_def)
    show "cinv ?s" by (rule taken_cinv [OF t])
    show "bview ?s dev m = av (a\<lparr>apins := (apins a)(n := apins a n + 1), aheld := (aheld a)(n := Some b)\<rparr>) m" for m
      using taken_bview [OF t] c(5) by simp
    show "unat (b_refcnt (getb i ?s)) = apins (a\<lparr>apins := (apins a)(n := apins a n + 1), aheld := (aheld a)(n := Some b)\<rparr>) m"
      if "holds ?s dev m i" for m i
    proof (cases "i = b")
      case False
      then have "m \<noteq> n" using that alt holds_unique [OF c(2,3)] by (auto simp: holds_taken [OF t])
      then show ?thesis using that False c(8) by (simp add: holds_taken [OF t] getb_taken [OF t])
    qed (use that ref in \<open>simp add: holds_taken [OF t] getb_taken [OF t]\<close>)
    show "\<exists>i. holds ?s dev m i" if pos: "apins (a\<lparr>apins := (apins a)(n := apins a n + 1), aheld := (aheld a)(n := Some b)\<rparr>) m > 0" for m
    proof (cases "m = n")
      case False
      then obtain i where "holds s dev m i" using pos c(9) [of m] by auto
      then show ?thesis using False old pos by (cases "i = b") (auto simp: holds_taken [OF t])
    qed (auto simp: holds_taken [OF t])
    show "b_refcnt (getb i ?s) = 0" "\<not> b_valid (getb i ?s)" if "i < NBUF" "b_dev (getb i ?s) \<noteq> dev" for i
      using that c(10,14) [of i] by (auto simp: getb_taken [OF t] split: if_splits)
  next
    fix m b'
    assume "aheld (a\<lparr>apins := (apins a)(n := apins a n + 1), aheld := (aheld a)(n := Some b)\<rparr>) m = Some b'"
    then have *: "if m = n then b' = b else aheld a m = Some b'" by (simp split: if_splits)
    have "m \<noteq> n \<Longrightarrow> b' \<noteq> b" using * c(11) [of m b'] unl by auto
    then show "holds ?s dev m b'" "b_valid (getb b' ?s)" "sl_locked (b_lock (getb b' ?s))" "sl_pid (b_lock (getb b' ?s)) = mypid ?s"
      using * c(11) [of m b'] by (auto simp: holds_taken [OF t] getb_taken [OF t] split: if_splits)
  next
    fix i assume i: "i < NBUF" "sl_locked (b_lock (getb i ?s))"
    show "aheld (a\<lparr>apins := (apins a)(n := apins a n + 1), aheld := (aheld a)(n := Some b)\<rparr>) (b_blockno (getb i ?s)) = Some i"
    proof (cases "i = b")
      case False
      then have *: "aheld a (b_blockno (getb i s)) = Some i" using i c(12) by (simp add: getb_taken [OF t])
      then have "b_blockno (getb i s) \<noteq> n" using free by auto
      then show ?thesis using * False by (simp add: getb_taken [OF t])
    qed (simp add: getb_taken [OF t])
  qed (use c(3,4,6,7) in simp_all)
  then show ?thesis by (simp add: br)
qed

section \<open>Writing, pinning and releasing\<close>

lemma held_buffer:
  assumes "cst s dev a" "aheld a n = Some b"
  shows "holds s dev n b" "b_valid (getb b s)" "b_data (getb b s) = av a n" "unat (b_refcnt (getb b s)) = apins a n"
    "b_refcnt (getb b s) \<noteq> 0" "apins a n > 0" "holdingsleep (b_lock (getb b s)) s" "length (av a n) = BSIZE"
    "b < NBUF" "b < length (bufs s)" "b_blockno (getb b s) = n" "sl_locked (b_lock (getb b s))" "sl_pid (b_lock (getb b s)) = mypid s"
proof -
  note c = cstD [OF assms(1)]
  show h: "holds s dev n b" and v: "b_valid (getb b s)" and l: "sl_locked (b_lock (getb b s))"
    and p: "sl_pid (b_lock (getb b s)) = mypid s" using c(11) [OF assms(2)] by auto
  show "b_data (getb b s) = av a n" using bview_cached [OF c(2,3) h v] c(5) by simp
  show b: "b < NBUF" "b_blockno (getb b s) = n" and "b < length (bufs s)" using h c(13) by (auto simp: holds_def)
  show "unat (b_refcnt (getb b s)) = apins a n" by (rule c(8) [OF h])
  show nz: "b_refcnt (getb b s) \<noteq> 0" using c(2) l b unfolding cinv_def by blast
  then show "apins a n > 0" using c(8) [OF h] by (auto simp: unat_gt_0 [symmetric])
  show "holdingsleep (b_lock (getb b s)) s" using l p c(4) by (auto simp: holdingsleep_def mypid_def)
  show "length (av a n) = BSIZE" using bview_length [OF c(2), of dev n] c(5) by simp
qed

lemma fun_upd_idle: "f x = y \<Longrightarrow> f(x := y) = f"
  by auto

lemma cst_modify:
  assumes cst: "cst s dev a" and h: "aheld a n = Some b" and len: "length d = BSIZE"
  shows "cst (modb b (\<lambda>x. x\<lparr>b_data := d\<rparr>) s) dev (a\<lparr>av := (av a)(n := d)\<rparr>)"
proof -
  note hb = held_buffer [OF cst h]
  from cst_update [OF cst hb(1,2), of "\<lambda>x. x\<lparr>b_data := d\<rparr>" "(getb b s)\<lparr>b_data := d\<rparr>"]
  show ?thesis using hb len h by (simp add: fun_upd_idle)
qed

lemma cst_bpin:
  assumes cst: "cst s dev a" and h: "aheld a n = Some b" and "apins a n < 2 ^ 32 - 1"
  shows "cst (bpin b s) dev (a\<lparr>apins := (apins a)(n := apins a n + 1)\<rparr>)"
proof -
  note hb = held_buffer [OF cst h]
  have ref: "unat (b_refcnt (getb b s) + 1) = apins a n + 1"
    using assms(3) hb(4) unat_word_ariths(1) [of "b_refcnt (getb b s)" 1] by simp
  then have "b_refcnt (getb b s) + 1 \<noteq> 0" by (metis add_gr_0 less_numeral_extra(3) unat_0 zero_less_one)
  with cst_update [OF cst hb(1,2), of "\<lambda>x. x\<lparr>b_refcnt := b_refcnt x + 1\<rparr>" "(getb b s)\<lparr>b_refcnt := b_refcnt (getb b s) + 1\<rparr>"]
  show ?thesis using hb h ref unfolding bpin_def by (simp add: fun_upd_idle)
qed

lemma unat_pred: "r \<noteq> 0 \<Longrightarrow> unat (r - 1) = unat r - 1" for r :: u32
  by (rule unat_minus_one)

lemma cst_bunpin:
  assumes cst: "cst s dev a" and h: "aheld a n = Some b" and "apins a n > 1"
  shows "cst (bunpin b s) dev (a\<lparr>apins := (apins a)(n := apins a n - 1)\<rparr>)"
proof -
  note hb = held_buffer [OF cst h]
  have ref: "unat (b_refcnt (getb b s) - 1) = apins a n - 1" using hb(4,5) unat_pred by simp
  then have "b_refcnt (getb b s) - 1 \<noteq> 0" using assms(3) by (metis less_numeral_extra(3) unat_0 zero_less_diff)
  with cst_update [OF cst hb(1,2), of "\<lambda>x. x\<lparr>b_refcnt := b_refcnt x - 1\<rparr>" "(getb b s)\<lparr>b_refcnt := b_refcnt (getb b s) - 1\<rparr>"]
  show ?thesis using hb h ref unfolding bunpin_def by (simp add: fun_upd_idle)
qed

lemma cst_bwrite:
  assumes cst: "cst s dev a" and h: "aheld a n = Some b"
  shows "wpr (bwrite b s) (\<lambda>_ s'. cst s' dev (a\<lparr>ad := (ad a)(n := av a n), ahist := ahist a @ [(n, av a n)]\<rparr>) \<and> bframe s s')"
proof -
  note hb = held_buffer [OF cst h] and c = cstD [OF cst]
  let ?s = "disk_rw b True s"
  have eq: "?s = s\<lparr>disk := (disk s)(n := av a n), dwrites := dwrites s @ [(n, av a n)]\<rparr>"
    using hb by (simp add: disk_rw_def)
  have g: "getb i ?s = getb i s" "holds ?s = holds s" "myproc ?s = myproc s" "mypid ?s = mypid s" "procs ?s = procs s" for i
    by (auto simp: eq getb_def holds_def [abs_def] myproc_def mypid_def getp_def)
  have "cinv ?s" unfolding cinv_def g
  proof (intro conjI allI impI)
    show "b_data (getb i s) = disk ?s (b_blockno (getb i s))"
      if "i < NBUF" "b_valid (getb i s)" "b_refcnt (getb i s) = 0" for i
    proof (cases "b_blockno (getb i s) = n")
      case True
      then have "i = b" using that holds_unique [OF c(2,3) hb(1)] c(14) [of i] by (auto simp: holds_def)
      then show ?thesis using that hb(5) by simp
    qed (use that c(2) in \<open>auto simp: cinv_def eq\<close>)
  qed (use c(2) hb(8) in \<open>auto simp: cinv_def eq\<close>)
  moreover have "bview ?s dev m = av a m" for m
  proof (rule bview_eqI [OF \<open>cinv ?s\<close> c(3)])
    show "b_data (getb i ?s) = av a m" if "holds ?s dev m i" "b_valid (getb i ?s)" for i
      using that bview_cached [OF c(2,3), of m i] c(5) [of m] by (simp add: g)
    assume no: "\<And>i. holds ?s dev m i \<Longrightarrow> \<not> b_valid (getb i ?s)"
    then have "m \<noteq> n" using hb(1,2) by (auto simp: g)
    moreover have "bview s dev m = disk s m" using no by (intro bview_uncached) (simp add: g)
    ultimately show "disk ?s m = av a m" using c(5) [of m] by (simp add: eq)
  qed
  moreover have "Ex (lru ?s)"
    using c(1) unfolding binv_def lru_def ring_def nextf_def [abs_def] prevf_def [abs_def] g by (simp add: eq)
  ultimately have "cst ?s dev (a\<lparr>ad := (ad a)(n := av a n), ahist := ahist a @ [(n, av a n)]\<rparr>)"
    using cst c(6,7) unfolding cst_def binv_def g by (simp add: eq)
  moreover have "bframe s ?s" unfolding eq bframe_def
    by (rule exI [of _ "procs s"], rule exI [of _ "bufs s"], rule exI, rule exI) simp
  ultimately show ?thesis using hb(7) by (simp add: bwrite_def)
qed

lemma mypid_wakeup:
  assumes "myproc s = Some p" "p < length (procs s)"
  shows "mypid (wakeup ch s) = mypid s"
  using getp_wakeup(4) [OF assms(2)] assms(1) by (simp add: mypid_def)

text \<open>\<open>brelse\<close> up to the links: the lock is free again and a reference gone.\<close>

lemma cst_brelse_core:
  assumes cst: "cst s dev a" and h: "aheld a n = Some b" and clean: "apins a n > 1 \<or> av a n = ad a n"
  shows "cst (modb b (\<lambda>x. x\<lparr>b_lock := (b_lock x)\<lparr>sl_locked := False, sl_pid := 0\<rparr>, b_refcnt := b_refcnt x - 1\<rparr>) s) dev
    (a\<lparr>apins := (apins a)(n := apins a n - 1), aheld := (aheld a)(n := None)\<rparr>)"
proof -
  note hb = held_buffer [OF cst h] and c = cstD [OF cst]
  let ?g = "\<lambda>x. x\<lparr>b_lock := (b_lock x)\<lparr>sl_locked := False, sl_pid := 0\<rparr>, b_refcnt := b_refcnt x - 1\<rparr>"
  have ref: "unat (b_refcnt (getb b s) - 1) = apins a n - 1" using hb(4,5) unat_pred by simp
  have "b_refcnt (getb b s) - 1 = 0 \<Longrightarrow> av a n = disk s n" using ref clean c(6) by auto
  with cst_update [OF cst hb(1,2), of ?g "?g (getb b s)"] show ?thesis
    using hb h ref by (simp add: fun_upd_idle)
qed

lemma wakeup_b [simp]:
  "bufs (wakeup ch s) = bufs s" "disk (wakeup ch s) = disk s" "dwrites (wakeup ch s) = dwrites s"
  "getb i (wakeup ch s) = getb i s"
  by (subst wakeup_procs, simp add: getb_def)+

lemma bufs_simps [simp]: "myproc (s\<lparr>bufs := bs\<rparr>) = myproc s" "mypid (s\<lparr>bufs := bs\<rparr>) = mypid s"
  by (simp_all add: myproc_def mypid_def getp_def)

lemma lru_bufs: "bufs s' = bufs s \<Longrightarrow> lru s' xs = lru s xs"
  by (simp add: lru_def ring_def nextf_def [abs_def] prevf_def [abs_def] getb_def)

lemma cst_wakeup:
  assumes "cst s dev a"
  shows "cst (wakeup ch s) dev a"
proof -
  obtain xs p where "lru s xs" "myproc s = Some p" "p < length (procs s)"
    using cstD(1,4) [OF assms] by (auto simp: binv_def)
  then show ?thesis
    by (intro cst_cong [OF assms, of _ xs]) (simp_all add: bcore_def lru_bufs [of "wakeup ch s" s] mypid_wakeup)
qed

lemma relink_ok:
  assumes "lru s xs" "b < NBUF"
  shows "lru (link_first b (unlink b s)) (b # remove1 b xs)" "bcore (link_first b (unlink b s)) = bcore s"
    "\<exists>bs. link_first b (unlink b s) = s\<lparr>bufs := bs\<rparr>"
proof -
  have "b \<in> set xs" using assms by (auto simp: lru_def)
  then obtain ys zs where xs: "xs = ys @ b # zs" "b \<notin> set ys" by (meson split_list_first)
  have r: "remove1 b xs = ys @ zs" using xs by (simp add: remove1_append)
  have l: "length (bufs s) = Suc NBUF" "ring s (ys @ b # zs)" "distinct (ys @ b # zs)" "set (ys @ b # zs) = {0..<NBUF}"
    using assms(1) unfolding lru_def xs by blast+
  note u = unlink_ok [OF l(1-3) l(4) [THEN equalityD1]]
  have d: "distinct (ys @ zs)" "set (ys @ zs) \<subseteq> {0..<NBUF}" "b \<notin> set (ys @ zs)" using l(3,4) by auto
  note f = link_first_ok [OF u(3,1) d(1,2) assms(2) d(3)]
  show "lru (link_first b (unlink b s)) (b # remove1 b xs)"
    unfolding lru_def r using f(1,3) d l(4) by auto
  show "bcore (link_first b (unlink b s)) = bcore s" using f(2) u(2) by simp
  show "\<exists>bs. link_first b (unlink b s) = s\<lparr>bufs := bs\<rparr>" using f(4) u(4) by force
qed

lemma cst_brelse:
  assumes cst: "cst s dev a" and h: "aheld a n = Some b" and clean: "apins a n > 1 \<or> av a n = ad a n"
  shows "wpr (brelse b s) (\<lambda>_ s'. cst s' dev (a\<lparr>apins := (apins a)(n := apins a n - 1), aheld := (aheld a)(n := None)\<rparr>) \<and> bframe s s')"
proof -
  let ?g = "\<lambda>x. x\<lparr>b_lock := (b_lock x)\<lparr>sl_locked := False, sl_pid := 0\<rparr>, b_refcnt := b_refcnt x - 1\<rparr>"
  let ?w = "wakeup (ChanBufLock b) s" and ?a = "a\<lparr>apins := (apins a)(n := apins a n - 1), aheld := (aheld a)(n := None)\<rparr>"
  let ?s = "modb b ?g ?w"
  note hb = held_buffer [OF cst h]
  have m: "modb b (\<lambda>x. x\<lparr>b_refcnt := b_refcnt x - 1\<rparr>) (modb b (\<lambda>x. x\<lparr>b_lock := (b_lock (getb b s))\<lparr>sl_locked := False, sl_pid := 0\<rparr>\<rparr>) ?w) = ?s"
    by simp (rule modb_cong, simp)
  have br: "brelse b s = Ret () (if b_refcnt (getb b ?s) = 0 then link_first b (unlink b ?s) else ?s)"
    using hb(7) unfolding brelse_def releasesleep_def Let_def prod.case m by simp
  have c1: "cst ?s dev ?a" by (rule cst_brelse_core [OF cst_wakeup [OF cst] h clean])
  then obtain xs where xs: "lru ?s xs" using cstD(1) [OF c1] by (auto simp: binv_def)
  note r = relink_ok [OF xs hb(9)]
  obtain bs where bs: "link_first b (unlink b ?s) = ?s\<lparr>bufs := bs\<rparr>" using r(3) by blast
  have "cst (link_first b (unlink b ?s)) dev ?a"
    by (rule cst_cong [OF c1 _ r(1)]) (simp add: r(2), simp_all add: bs)
  moreover have fr: "bframe s ?s" by (rule bframe_trans [OF bframe_wakeup bframe_modb])
  moreover have "bframe s (link_first b (unlink b ?s))" unfolding bs by (rule bframe_trans [OF fr bframe_bufs])
  ultimately show ?thesis using c1 by (simp add: br)
qed

section \<open>Initialisation\<close>

text \<open>An abstract cache in which no buffer is held.\<close>

definition quiet :: "(u32 \<Rightarrow> u8 list) \<Rightarrow> (u32 \<Rightarrow> u8 list) \<Rightarrow> (u32 \<Rightarrow> nat) \<Rightarrow> (u32 \<times> u8 list) list \<Rightarrow> acache" where
  "quiet V D P T = \<lparr>av = V, ad = D, apins = P, aheld = (\<lambda>_. None), ahist = T\<rparr>"

text \<open>\<open>binit\<close> links the buffers in reverse order and releases their locks.\<close>

lemma binit_links:
  assumes "length (bufs s) = Suc NBUF" "ring s []" "k \<le> NBUF"
  defines "step \<equiv> \<lambda>b s. link_first b (modb b (\<lambda>x. x\<lparr>b_lock := initsleeplock ''buffer'' (b_lock x)\<rparr>) s)"
  shows "length (bufs (fold step [0..<k] s)) = Suc NBUF \<and> ring (fold step [0..<k] s) (rev [0..<k]) \<and>
    (\<exists>bs. fold step [0..<k] s = s\<lparr>bufs := bs\<rparr>) \<and>
    (\<forall>i. bcore (fold step [0..<k] s) i = (if i < k then core ((getb i s)\<lparr>b_lock := initsleeplock ''buffer'' (b_lock (getb i s))\<rparr>) else bcore s i))"
  using assms(3)
proof (induction k)
  case 0
  have "s = s\<lparr>bufs := bufs s\<rparr>" by simp
  then have "\<exists>bs. s = s\<lparr>bufs := bs\<rparr>" by (rule exI)
  then show ?case using assms(1,2) by simp
next
  case (Suc k)
  let ?t = "fold step [0..<k] s" and ?g = "\<lambda>x :: buf. x\<lparr>b_lock := initsleeplock ''buffer'' (b_lock x)\<rparr>"
  have IH: "length (bufs ?t) = Suc NBUF" "ring ?t (rev [0..<k])" "\<exists>bs. ?t = s\<lparr>bufs := bs\<rparr>" "bcore ?t k = bcore s k"
    "\<And>i. bcore ?t i = (if i < k then core (?g (getb i s)) else bcore s i)"
    using Suc.IH [OF Suc_leD [OF Suc.prems]] by (simp_all del: NBUF_def)
  have "nextf (modb k ?g ?t) = nextf ?t" "prevf (modb k ?g ?t) = prevf ?t" by (simp_all add: nextf_modb(1) prevf_modb(1))
  then have r: "ring (modb k ?g ?t) (rev [0..<k])" using IH(2) by (simp add: ring_def)
  have l: "length (bufs (modb k ?g ?t)) = Suc NBUF" using IH(1) by (simp del: NBUF_def)
  note lf = link_first_ok [OF l r, of k]
  have c: "bcore (modb k ?g ?t) i = (if i < Suc k then core (?g (getb i s)) else bcore s i)" for i
  proof (cases "i = k")
    case True
    have "getb k (modb k ?g ?t) = ?g (getb k ?t)" using IH(1) Suc.prems by (simp add: getb_modb del: NBUF_def)
    moreover have "core (?g (getb k ?t)) = core (?g (getb k s))"
      using IH(4) by (cases "getb k ?t", cases "getb k s") (simp add: bcore_def core_def)
    ultimately show ?thesis using True by (simp add: bcore_def)
  next
    case False
    then show ?thesis using IH(5) [of i] by (simp add: bcore_def getb_modb)
  qed
  have k: "distinct (rev [0..<k])" "set (rev [0..<k]) \<subseteq> {0..<NBUF}" "k < NBUF" "k \<notin> set (rev [0..<k])"
    using Suc.prems by (auto simp del: NBUF_def)
  obtain bs where bs: "modb k ?g ?t = s\<lparr>bufs := bs\<rparr>" using IH(3) by (auto simp: modb_def)
  obtain bs' where "link_first k (modb k ?g ?t) = (modb k ?g ?t)\<lparr>bufs := bs'\<rparr>" using lf(4) [OF k] by blast
  then have x: "\<exists>bs. link_first k (modb k ?g ?t) = s\<lparr>bufs := bs\<rparr>" unfolding bs by (auto intro: exI [of _ bs'])
  have e: "fold step [0..<Suc k] s = link_first k (modb k ?g ?t)" and r': "rev [0..<Suc k] = k # rev [0..<k]" by (simp_all add: step_def)
  show ?case unfolding e r' lf(2) [OF k] by (intro conjI lf(1,3) [OF k] x allI c)
qed

lemma binit_frame:
  assumes "length (bufs s) = Suc NBUF"
  shows "\<exists>bs. binit s = s\<lparr>bufs := bs\<rparr>"
proof -
  let ?s = "modb bhead (\<lambda>x. x\<lparr>b_prev := bhead, b_next := bhead\<rparr>) s"
  have "ring ?s []" using assms by (simp add: ring_def nextf_def prevf_def getb_modb bhead_def del: NBUF_def)
  moreover have "length (bufs ?s) = Suc NBUF" using assms by (simp del: NBUF_def)
  ultimately obtain bs where "binit s = ?s\<lparr>bufs := bs\<rparr>"
    using binit_links [of ?s NBUF] unfolding binit_def Let_def by blast
  then have "binit s = s\<lparr>bufs := bs\<rparr>" by (simp add: modb_def)
  then show ?thesis by (rule exI)
qed

definition blank :: "'a bstate_scheme \<Rightarrow> bool" where
  "blank s \<longleftrightarrow> length (bufs s) = Suc NBUF \<and>
     (\<forall>x \<in> set (bufs s). \<not> b_valid x \<and> b_dev x = 0 \<and> b_refcnt x = 0) \<and> (\<forall>n. length (disk s n) = BSIZE)"

lemma binit_cst:
  assumes bl: "blank s" and dev: "dev \<noteq> 0" and p: "myproc s = Some p" "p < length (procs s)"
  shows "lru (binit s) (rev [0..<NBUF])" "cst (binit s) dev (quiet (disk s) (disk s) (\<lambda>_. 0) (dwrites s))"
    "i < NBUF \<Longrightarrow> b_dev (getb i (binit s)) = 0 \<and> b_refcnt (getb i (binit s)) = 0 \<and> \<not> sl_locked (b_lock (getb i (binit s)))"
proof -
  let ?s = "modb bhead (\<lambda>x. x\<lparr>b_prev := bhead, b_next := bhead\<rparr>) s" and ?t = "binit s"
  have len: "length (bufs s) = Suc NBUF" using bl by (simp add: blank_def del: NBUF_def)
  have r: "ring ?s []" using len by (simp add: ring_def nextf_def prevf_def getb_modb bhead_def del: NBUF_def)
  have l: "length (bufs ?s) = Suc NBUF" using len by (simp del: NBUF_def)
  note k = binit_links [OF l r order_refl, folded binit_def [unfolded Let_def]]
  then show lru: "lru ?t (rev [0..<NBUF])" by (simp add: lru_def del: NBUF_def)
  obtain bs where "?t = ?s\<lparr>bufs := bs\<rparr>" using k by blast
  then have same: "disk ?t = disk s" "dwrites ?t = dwrites s" "procs ?t = procs s" "curproc ?t = curproc s"
    by (simp_all add: modb_def)
  have b: "\<not> b_valid (getb i ?t)" "b_dev (getb i ?t) = 0" "b_refcnt (getb i ?t) = 0" "\<not> sl_locked (b_lock (getb i ?t))" if i: "i < NBUF" for i
  proof -
    have c: "bcore ?t i = core ((getb i s)\<lparr>b_lock := initsleeplock ''buffer'' (b_lock (getb i s))\<rparr>)"
      using conjunct2 [OF conjunct2 [OF conjunct2 [OF k]]] i by (simp add: getb_modb bhead_def del: NBUF_def)
    have m: "getb i s \<in> set (bufs s)" using i len by (simp add: getb_def del: NBUF_def)
    note f = arg_cong [OF c [unfolded bcore_def], of b_valid] arg_cong [OF c [unfolded bcore_def], of b_dev]
      arg_cong [OF c [unfolded bcore_def], of b_refcnt] arg_cong [OF c [unfolded bcore_def], of b_lock]
    show "\<not> b_valid (getb i ?t)" "b_dev (getb i ?t) = 0" "b_refcnt (getb i ?t) = 0" "\<not> sl_locked (b_lock (getb i ?t))"
      using f bl m by (auto simp: blank_def initsleeplock_def)
  qed
  then show "i < NBUF \<Longrightarrow> b_dev (getb i ?t) = 0 \<and> b_refcnt (getb i ?t) = 0 \<and> \<not> sl_locked (b_lock (getb i ?t))" by blast
  have nh: "\<not> holds ?t dev n i" for n i using b dev by (auto simp: holds_def)
  have dl: "length (disk ?t n) = BSIZE" for n using bl same by (simp add: blank_def)
  have "cinv ?t" using b dl by (auto simp: cinv_def holds_def)
  moreover have "bview ?t dev n = disk s n" for n using bview_uncached [of ?t dev n] nh same by metis
  moreover have "\<exists>q. myproc ?t = Some q \<and> q < length (procs ?t)" using p same by (simp add: myproc_def)
  moreover have "\<exists>xs. lru ?t xs" using lru by blast
  ultimately show "cst ?t dev (quiet (disk s) (disk s) (\<lambda>_. 0) (dwrites s))"
    unfolding cst_def binv_def quiet_def using nh same b dev by simp
qed

section \<open>Replacement\<close>

lemma lru_map:
  assumes "lru s xs" "\<And>x. b_next (f x) = b_next x" "\<And>x. b_prev (f x) = b_prev x"
  shows "lru (s\<lparr>bufs := map f (bufs s)\<rparr>) xs"
proof -
  let ?t = "s\<lparr>bufs := map f (bufs s)\<rparr>"
  have in_bufs: "i < length (bufs s)" if "i \<in> set (bhead # xs)" for i using assms(1) that by (auto simp: lru_def bhead_def)
  have "nextf ?t i = nextf s i" "prevf ?t i = prevf s i" if "i \<in> set (bhead # xs)" for i
    using in_bufs [OF that] assms(2,3) by (simp_all add: nextf_def prevf_def getb_def)
  then have "chain (nextf ?t) bhead xs bhead = chain (nextf s) bhead xs bhead"
    "chain (prevf ?t) bhead (rev xs) bhead = chain (prevf s) bhead (rev xs) bhead"
    by (auto intro!: chain_cong)
  then show ?thesis using assms(1) by (simp add: lru_def ring_def del: NBUF_def)
qed

lemma bget_recycles:
  assumes xs: "lru s (ys @ b # zs)" and no: "\<And>i. \<not> holds s dev n i" and b: "b_refcnt (getb b s) = 0" "\<not> sl_locked (b_lock (getb b s))"
    and me: "myproc s = Some p" and zs: "\<And>i. i \<in> set zs \<Longrightarrow> b_refcnt (getb i s) \<noteq> 0"
  shows "\<exists>s'. bget dev n s = Ret b s' \<and> holds s' dev n b \<and> lru s' (ys @ b # zs)"
proof -
  have bl: "b < NBUF" "b < length (bufs s)" and set: "i \<in> set (ys @ b # zs) \<Longrightarrow> i < NBUF" for i
    using xs unfolding lru_def by auto
  have 1: "find (\<lambda>i. b_dev (getb i s) = dev \<and> b_blockno (getb i s) = n) (ys @ b # zs) = None"
    using no set unfolding find_None_iff holds_def by blast
  have "find P (rev us @ v # vs) = Some v" if "P v" "\<And>x. x \<in> set us \<Longrightarrow> \<not> P x" for P us v and vs :: "nat list"
    using that by (induction us rule: rev_induct) auto
  then have 2: "find (\<lambda>i. b_refcnt (getb i s) = 0) (rev (ys @ b # zs)) = Some b" using b zs by simp
  let ?s1 = "modb b (\<lambda>x. x\<lparr>b_dev := dev, b_blockno := n, b_valid := False, b_refcnt := 1\<rparr>) s"
  let ?s2 = "modb b (\<lambda>x. x\<lparr>b_dev := dev, b_blockno := n, b_valid := False, b_refcnt := 1,
      b_lock := (b_lock (getb b s))\<lparr>sl_locked := True, sl_pid := mypid s\<rparr>\<rparr>) s"
  have lk: "acquiresleep (ChanBufLock b) (b_lock (getb b ?s1)) ?s1 = Ret ((b_lock (getb b s))\<lparr>sl_locked := True, sl_pid := mypid s\<rparr>) ?s1"
    using b(2) me bl by (subst acquiresleep_free) (simp_all add: getb_modb)
  have "bget dev n s = Ret b ?s2" unfolding bget_def scan_lru [OF xs] 1 2 Let_def by (simp add: lk)
  moreover have "lru ?s2 (ys @ b # zs)" using lru_modb [OF xs] by simp
  ultimately show ?thesis using bl by (simp add: holds_def getb_modb)
qed

lemma brelse_relinks:
  assumes xs: "lru s (ys @ b # zs)" and h: "holdingsleep (b_lock (getb b s)) s" and r: "b_refcnt (getb b s) = 1"
  shows "\<exists>s'. brelse b s = Ret () s' \<and> lru s' (b # ys @ zs)"
proof -
  have bl: "b < NBUF" "b < length (bufs s)" and d: "b \<notin> set ys" using xs unfolding lru_def by auto
  let ?g = "\<lambda>x. x\<lparr>b_lock := (b_lock (getb b s))\<lparr>sl_locked := False, sl_pid := 0\<rparr>, b_refcnt := b_refcnt x - 1\<rparr>"
  let ?s = "modb b ?g (wakeup (ChanBufLock b) s)"
  have "lru (wakeup (ChanBufLock b) s) (ys @ b # zs)" using xs lru_bufs [of "wakeup (ChanBufLock b) s" s] by simp
  then have l: "lru ?s (ys @ b # zs)" using lru_modb by fastforce
  have "brelse b s = Ret () (link_first b (unlink b ?s))"
    using h r bl unfolding brelse_def releasesleep_def by (simp add: getb_modb)
  moreover have "remove1 b (ys @ b # zs) = ys @ zs" using d by (simp add: remove1_append)
  ultimately show ?thesis using relink_ok(1) [OF l bl(1)] by simp
qed

section \<open>Properties\<close>

definition buf0 :: buf where
  "buf0 = \<lparr>b_valid = False, b_disk = False, b_dev = 0, b_blockno = 0, b_lock = \<lparr>sl_locked = False, sl_name = [], sl_pid = 0\<rparr>,
     b_refcnt = 0, b_prev = 0, b_next = 0, b_data = replicate BSIZE 0\<rparr>"

definition cache0 :: bstate where
  "cache0 = \<lparr>memory = \<lambda>_. 0, freelist = 0, kend = 0x80022000, procs = [proc0\<lparr>p_state := RUNNING, p_pid := 1\<rparr>],
     initproc = Some 0, nextpid = 2, curproc = Some 0, ticks = 0,
     bufs = replicate 31 buf0, disk = (\<lambda>_. replicate BSIZE 0), dwrites = []\<rparr>"

lemma cache0_init:
  "lru (binit cache0) (rev [0..<NBUF])" "cst (binit cache0) 1 (quiet (disk cache0) (disk cache0) (\<lambda>_. 0) [])"
  "i < NBUF \<Longrightarrow> b_dev (getb i (binit cache0)) = 0 \<and> b_refcnt (getb i (binit cache0)) = 0 \<and> \<not> sl_locked (b_lock (getb i (binit cache0)))"
  "myproc (binit cache0) = Some 0"
proof -
  have bl: "blank cache0" by (auto simp: blank_def cache0_def buf0_def)
  have me: "myproc cache0 = Some 0" "0 < length (procs cache0)" "dwrites cache0 = []" by (simp_all add: cache0_def myproc_def)
  note b = binit_cst [OF bl, of 1 0]
  show "lru (binit cache0) (rev [0..<NBUF])" using b(1) me by simp
  show "cst (binit cache0) 1 (quiet (disk cache0) (disk cache0) (\<lambda>_. 0) [])" using b(2) me by simp
  show "i < NBUF \<Longrightarrow> b_dev (getb i (binit cache0)) = 0 \<and> b_refcnt (getb i (binit cache0)) = 0 \<and> \<not> sl_locked (b_lock (getb i (binit cache0)))"
    using b(3) me by simp
  obtain bs where "binit cache0 = cache0\<lparr>bufs := bs\<rparr>" using binit_frame [of cache0] bl unfolding blank_def by blast
  then show "myproc (binit cache0) = Some 0" using me by simp
qed

text \<open>
  C17: the cache is transparent. While a buffer can be had, reading a block that nobody holds returns a buffer,
  locked for the caller, with the contents last given to the block by any user of the cache; it is the only buffer for that block,
  and the abstract cache records one more reference and the holder, nothing else.
\<close>

theorem bread_coherent:
  assumes "cst s dev a" "aheld a n = None" "room a n"
  shows "\<exists>b s'. bread dev n s = Ret b s' \<and> b_data (getb b s') = av a n \<and> holdingsleep (b_lock (getb b s')) s' \<and>
    (\<forall>i. holds s' dev n i \<longleftrightarrow> i = b) \<and>
    cst s' dev (a\<lparr>apins := (apins a)(n := apins a n + 1), aheld := (aheld a)(n := Some b)\<rparr>)"
proof -
  obtain b s' where b: "bread dev n s = Ret b s'" and c: "cst s' dev (a\<lparr>apins := (apins a)(n := apins a n + 1), aheld := (aheld a)(n := Some b)\<rparr>)"
    using cst_bread [OF assms] by (auto simp: wpr_iff)
  have "aheld (a\<lparr>apins := (apins a)(n := apins a n + 1), aheld := (aheld a)(n := Some b)\<rparr>) n = Some b" by simp
  note h = held_buffer [OF c this]
  have "holds s' dev n i \<longleftrightarrow> i = b" for i using holds_unique [OF cstD(2,3) [OF c] h(1)] h(1) by blast
  then show ?thesis using b c h(3,7) by auto
qed

theorem bread_coherent_witness: "\<exists>b s'. bread 1 7 (binit cache0) = Ret b s' \<and> b_data (getb b s') = replicate BSIZE 0"
  using bread_coherent [OF cache0_init(2), of 7] by (auto simp: quiet_def room_def cache0_def)

text \<open>
  C19: when every buffer is in use for another block, \<open>bread\<close> panics.
\<close>

theorem bget_no_buffers:
  assumes "lru s xs" "\<And>i. i < NBUF \<Longrightarrow> \<not> holds s dev n i \<and> b_refcnt (getb i s) \<noteq> 0"
  shows "bread dev n s = Panic ''bget: no buffers''"
proof -
  have "i < NBUF" if "i \<in> set xs" for i using assms(1) that by (simp add: lru_def)
  then have "find (\<lambda>i. b_dev (getb i s) = dev \<and> b_blockno (getb i s) = n) xs = None"
    "find (\<lambda>i. b_refcnt (getb i s) = 0) (rev xs) = None"
    using assms(2) by (auto simp: find_None_iff holds_def)
  then show ?thesis unfolding bread_def bget_def scan_lru [OF assms(1)] by simp
qed

theorem bget_no_buffers_witness:
  "bread 1 7 (binit cache0\<lparr>bufs := map (\<lambda>x. x\<lparr>b_dev := 2, b_refcnt := 1\<rparr>) (bufs (binit cache0))\<rparr>) = Panic ''bget: no buffers''"
proof (rule bget_no_buffers)
  let ?s = "binit cache0\<lparr>bufs := map (\<lambda>x. x\<lparr>b_dev := 2, b_refcnt := 1\<rparr>) (bufs (binit cache0))\<rparr>"
  show "lru ?s (rev [0..<NBUF])" using cache0_init(1) by (rule lru_map) simp_all
  show "\<not> holds ?s 1 7 i \<and> b_refcnt (getb i ?s) \<noteq> 0" if "i < NBUF" for i
    using that cache0_init(1) by (auto simp: holds_def getb_def lru_def)
qed

text \<open>
  C18: replacement is least recently used. The list of buffers is in the order of their last release: a block
  that is not cached takes the buffer that is last in the list among those without references, and
  the release of the last reference moves a buffer to the front.
\<close>

theorem bcache_lru:
  assumes "lru s (ys @ b # zs)"
  shows "((\<forall>i. \<not> holds s dev n i) \<and> b_refcnt (getb b s) = 0 \<and> \<not> sl_locked (b_lock (getb b s)) \<and> myproc s = Some p \<and>
      (\<forall>i \<in> set zs. b_refcnt (getb i s) \<noteq> 0) \<longrightarrow> (\<exists>s'. bget dev n s = Ret b s' \<and> holds s' dev n b \<and> lru s' (ys @ b # zs))) \<and>
    (holdingsleep (b_lock (getb b s)) s \<and> b_refcnt (getb b s) = 1 \<longrightarrow> (\<exists>s'. brelse b s = Ret () s' \<and> lru s' (b # ys @ zs)))"
  using bget_recycles [OF assms] brelse_relinks [OF assms] by blast

theorem bcache_lru_witness: "\<exists>s'. bget 1 7 (binit cache0) = Ret 0 s' \<and> lru s' (rev [0..<NBUF])"
proof -
  have e: "rev [0..<NBUF] = rev [1..<NBUF] @ 0 # []" by (simp add: upt_rec [of 0])
  have "\<not> holds (binit cache0) 1 7 i" for i using cache0_init(3) [of i] by (auto simp: holds_def)
  then show ?thesis using bcache_lru [OF cache0_init(1) [unfolded e], of 1 7 0] cache0_init(3) [of 0] cache0_init(4) unfolding e by auto
qed

end
