(* ===== verification/Log_Safe.thy ===== *)
theory Log_Safe
  imports Log Block_Cache
begin

text \<open>
  What the log promises. Committing writes the logged blocks to the log, then the header, then the
  blocks to their homes, then an empty header, in that order and nothing else. Whatever prefix
  of these writes reaches the disk before a crash, recovery leaves either all of the old blocks or
  all of the new ones; recovery itself may crash and run again.
\<close>

section \<open>Blocks of the log\<close>

definition ldev :: "'a lstate_scheme \<Rightarrow> u32" where
  "ldev s = of_int (l_dev (the_log s))"

definition hblk :: "'a lstate_scheme \<Rightarrow> u32" where
  "hblk s = of_int (l_start (the_log s))"

text \<open>Block \<open>i\<close> of the log, and the home of logged block \<open>i\<close>.\<close>

definition lblk :: "'a lstate_scheme \<Rightarrow> nat \<Rightarrow> u32" where
  "lblk s i = of_int (l_start (the_log s) + int i + 1)"

definition home :: "'a lstate_scheme \<Rightarrow> nat \<Rightarrow> u32" where
  "home s i = of_int (logblock s i)"

lemma bframe_log: "bframe s s' \<Longrightarrow> the_log s' = the_log s"
  unfolding bframe_def by auto

lemma bframe_blocks:
  assumes "bframe s s'"
  shows "ldev s' = ldev s" "hblk s' = hblk s" "lblk s' = lblk s" "home s' = home s" "logn s' = logn s"
  using bframe_log [OF assms] by (auto simp: ldev_def hblk_def lblk_def home_def logblock_def logn_def)

lemma wprE:
  assumes "wpr m Q"
  obtains x t where "m = Ret x t" "Q x t"
  using assms by (auto simp: wpr_iff)

section \<open>Single rounds\<close>

lemma write_log_block_ok:
  assumes cst: "cst s (ldev s) (quiet V D P T)"
    and ne: "lblk s i \<noteq> home s i" and pins: "P (lblk s i) = 0" "P (home s i) = 1"
    and few: "card {m. P m > 0} < NBUF"
  shows "wpr (write_log_block i s) (\<lambda>_ s'. bframe s s' \<and>
    cst s' (ldev s) (quiet (V(lblk s i := V (home s i))) (D(lblk s i := V (home s i))) P (T @ [(lblk s i, V (home s i))])))"
proof -
  let ?l = "lblk s i" and ?h = "home s i" and ?d = "ldev s" and ?Q = "wpr"
  have "room (quiet V D P T) ?l" using few pins by (simp add: room_def quiet_def)
  from cst_bread [OF cst _ this] obtain t s1 where
    b1: "bread ?d ?l s = Ret t s1" and f1: "bframe s s1"
    and c1: "cst s1 ?d \<lparr>av = V, ad = D, apins = P(?l := Suc 0), aheld = [?l \<mapsto> t], ahist = T\<rparr>"
    using pins by (auto elim!: wprE simp: quiet_def)
  have "room \<lparr>av = V, ad = D, apins = P(?l := Suc 0), aheld = [?l \<mapsto> t], ahist = T\<rparr> ?h"
    using ne pins by (simp add: room_def)
  from cst_bread [OF c1 _ this] obtain f s2 where
    b2: "bread ?d ?h s1 = Ret f s2" and f2: "bframe s1 s2"
    and c2: "cst s2 ?d \<lparr>av = V, ad = D, apins = P(?l := Suc 0, ?h := Suc (Suc 0)), aheld = [?l \<mapsto> t, ?h \<mapsto> f], ahist = T\<rparr>"
    using pins ne by (auto elim!: wprE)
  let ?s3 = "modb t (\<lambda>x. x\<lparr>b_data := b_data (getb f s2)\<rparr>) s2"
  have df: "b_data (getb f s2) = V ?h" "length (V ?h) = BSIZE"
    using held_buffer(3,8) [OF c2, of ?h f] by simp_all
  have c3: "cst ?s3 ?d \<lparr>av = V(?l := V ?h), ad = D, apins = P(?l := Suc 0, ?h := Suc (Suc 0)), aheld = [?l \<mapsto> t, ?h \<mapsto> f], ahist = T\<rparr>"
    using cst_modify [OF c2, of ?l t "V ?h"] df ne by simp
  from cst_bwrite [OF c3, of ?l t] ne obtain s4 where
    b4: "bwrite t ?s3 = Ret () s4" and f4: "bframe ?s3 s4"
    and c4: "cst s4 ?d \<lparr>av = V(?l := V ?h), ad = D(?l := V ?h), apins = P(?l := Suc 0, ?h := Suc (Suc 0)),
      aheld = [?l \<mapsto> t, ?h \<mapsto> f], ahist = T @ [(?l, V ?h)]\<rparr>"
    by (auto elim!: wprE)
  from cst_brelse [OF c4, of ?h f] obtain s5 where
    b5: "brelse f s4 = Ret () s5" and f5: "bframe s4 s5"
    and c5: "cst s5 ?d \<lparr>av = V(?l := V ?h), ad = D(?l := V ?h), apins = P(?l := Suc 0, ?h := Suc 0),
      aheld = [?l \<mapsto> t, ?h \<mapsto> f](?h := None), ahist = T @ [(?l, V ?h)]\<rparr>"
    by (auto elim!: wprE)
  from cst_brelse [OF c5, of ?l t] ne obtain s6 where
    b6: "brelse t s5 = Ret () s6" and f6: "bframe s5 s6"
    and c6: "cst s6 ?d \<lparr>av = V(?l := V ?h), ad = D(?l := V ?h), apins = P(?l := Suc 0, ?h := Suc 0, ?l := 0),
      aheld = [?l \<mapsto> t, ?h \<mapsto> f](?h := None, ?l := None), ahist = T @ [(?l, V ?h)]\<rparr>"
    by (auto elim!: wprE)
  have e: "P(?l := Suc 0, ?h := Suc 0, ?l := 0) = P" "[?l \<mapsto> t, ?h \<mapsto> f](?h := None, ?l := None) = (\<lambda>_. None)"
    using pins ne by (auto simp: fun_eq_iff)
  have fr: "bframe s s6"
    using f1 f2 f4 f5 f6 bframe_modb [of s2 t "\<lambda>x. x\<lparr>b_data := b_data (getb f s2)\<rparr>"] by (meson bframe_trans)
  have "write_log_block i s = Ret () s6"
    using b1 b2 b4 b5 b6 bframe_log [OF f1] unfolding write_log_block_def log_bread_def
    by (simp add: ldev_def lblk_def home_def logblock_def Let_def)
  then show ?thesis using c6 fr unfolding e quiet_def by simp
qed

lemma install_block_ok:
  assumes cst: "cst s (ldev s) (quiet V D P T)"
    and ne: "lblk s i \<noteq> home s i" and pins: "P (lblk s i) = 0" "P (home s i) = (if recovering then 0 else 1)"
    and few: "card {m. P m > 0} + (if recovering then 1 else 0) < NBUF" and clean: "V (lblk s i) = D (lblk s i)"
  shows "wpr (install_block recovering i s) (\<lambda>_ s'. bframe s s' \<and>
    cst s' (ldev s) (quiet (V(home s i := V (lblk s i))) (D(home s i := V (lblk s i))) (P(home s i := 0))
      (T @ [(home s i, V (lblk s i))])))"
proof -
  let ?l = "lblk s i" and ?h = "home s i" and ?d = "ldev s" and ?p = "if recovering then Suc 0 else Suc (Suc 0)"
  have "room (quiet V D P T) ?l" using few pins by (simp add: room_def quiet_def split: if_splits)
  from cst_bread [OF cst _ this] obtain t s1 where
    b1: "bread ?d ?l s = Ret t s1" and f1: "bframe s s1"
    and c1: "cst s1 ?d \<lparr>av = V, ad = D, apins = P(?l := Suc 0), aheld = [?l \<mapsto> t], ahist = T\<rparr>"
    using pins by (auto elim!: wprE simp: quiet_def)
  have "{m. m \<noteq> ?l \<longrightarrow> P m > 0} = insert ?l {m. P m > 0}" by auto
  then have "card {m. m \<noteq> ?l \<longrightarrow> P m > 0} \<le> Suc (card {m. P m > 0})" by (simp add: card_insert_if)
  then have "room \<lparr>av = V, ad = D, apins = P(?l := Suc 0), aheld = [?l \<mapsto> t], ahist = T\<rparr> ?h"
    using ne pins few unfolding room_def by (simp split: if_splits)
  from cst_bread [OF c1 _ this] obtain f s2 where
    b2: "bread ?d ?h s1 = Ret f s2" and f2: "bframe s1 s2"
    and c2: "cst s2 ?d \<lparr>av = V, ad = D, apins = P(?l := Suc 0, ?h := ?p), aheld = [?l \<mapsto> t, ?h \<mapsto> f], ahist = T\<rparr>"
    using pins ne by (auto elim!: wprE split: if_splits)
  let ?s3 = "modb f (\<lambda>x. x\<lparr>b_data := b_data (getb t s2)\<rparr>) s2"
  have df: "b_data (getb t s2) = V ?l" "length (V ?l) = BSIZE"
    using held_buffer(3,8) [OF c2, of ?l t] ne by simp_all
  have c3: "cst ?s3 ?d \<lparr>av = V(?h := V ?l), ad = D, apins = P(?l := Suc 0, ?h := ?p), aheld = [?l \<mapsto> t, ?h \<mapsto> f], ahist = T\<rparr>"
    using cst_modify [OF c2, of ?h f "V ?l"] df ne by simp
  from cst_bwrite [OF c3, of ?h f] ne obtain s4 where
    b4: "bwrite f ?s3 = Ret () s4" and f4: "bframe ?s3 s4"
    and c4: "cst s4 ?d \<lparr>av = V(?h := V ?l), ad = D(?h := V ?l), apins = P(?l := Suc 0, ?h := ?p),
      aheld = [?l \<mapsto> t, ?h \<mapsto> f], ahist = T @ [(?h, V ?l)]\<rparr>"
    by (auto elim!: wprE)
  let ?s5 = "if recovering then s4 else bunpin f s4"
  have c5: "cst ?s5 ?d \<lparr>av = V(?h := V ?l), ad = D(?h := V ?l), apins = P(?l := Suc 0, ?h := Suc 0),
      aheld = [?l \<mapsto> t, ?h \<mapsto> f], ahist = T @ [(?h, V ?l)]\<rparr>" and f5: "bframe s4 ?s5"
    using c4 cst_bunpin [OF c4, of ?h f] by (auto simp: bunpin_def)
  from cst_brelse [OF c5, of ?l t] ne clean obtain s6 where
    b6: "brelse t ?s5 = Ret () s6" and f6: "bframe ?s5 s6"
    and c6: "cst s6 ?d \<lparr>av = V(?h := V ?l), ad = D(?h := V ?l), apins = P(?l := Suc 0, ?h := Suc 0, ?l := 0),
      aheld = [?l \<mapsto> t, ?h \<mapsto> f](?l := None), ahist = T @ [(?h, V ?l)]\<rparr>"
    by (auto elim!: wprE)
  from cst_brelse [OF c6, of ?h f] ne obtain s7 where
    b7: "brelse f s6 = Ret () s7" and f7: "bframe s6 s7"
    and c7: "cst s7 ?d \<lparr>av = V(?h := V ?l), ad = D(?h := V ?l), apins = P(?l := Suc 0, ?h := Suc 0, ?l := 0, ?h := 0),
      aheld = [?l \<mapsto> t, ?h \<mapsto> f](?l := None, ?h := None), ahist = T @ [(?h, V ?l)]\<rparr>"
    by (auto elim!: wprE)
  have e: "P(?l := Suc 0, ?h := Suc 0, ?l := 0, ?h := 0) = P(?h := 0)" "[?l \<mapsto> t, ?h \<mapsto> f](?l := None, ?h := None) = (\<lambda>_. None)"
    using pins ne by (auto simp: fun_eq_iff)
  have fr: "bframe s s7"
    using f1 f2 f4 f5 f6 f7 bframe_modb [of s2 f "\<lambda>x. x\<lparr>b_data := b_data (getb t s2)\<rparr>"] by (meson bframe_trans)
  have "install_block recovering i s = Ret () s7"
    using b1 b2 b4 b6 b7 bframe_log [OF f1] unfolding install_block_def log_bread_def
    by (simp add: ldev_def lblk_def home_def logblock_def Let_def)
  then show ?thesis using c7 fr unfolding e quiet_def by simp
qed

lemma write_head_ok:
  assumes cst: "cst s (ldev s) (quiet V D P T)" and pins: "P (hblk s) = 0" and few: "card {m. P m > 0} < NBUF"
    and len: "length (put_head (l_lh (the_log s)) (V (hblk s))) = BSIZE"
  shows "wpr (write_head s) (\<lambda>_ s'. bframe s s' \<and>
    cst s' (ldev s) (let d = put_head (l_lh (the_log s)) (V (hblk s))
      in quiet (V(hblk s := d)) (D(hblk s := d)) P (T @ [(hblk s, d)])))"
proof -
  let ?l = "hblk s" and ?d = "ldev s"
  let ?v = "put_head (l_lh (the_log s)) (V ?l)"
  have "room (quiet V D P T) ?l" using few pins by (simp add: room_def quiet_def)
  from cst_bread [OF cst _ this] obtain t s1 where
    b1: "bread ?d ?l s = Ret t s1" and f1: "bframe s s1"
    and c1: "cst s1 ?d \<lparr>av = V, ad = D, apins = P(?l := Suc 0), aheld = [?l \<mapsto> t], ahist = T\<rparr>"
    using pins by (auto elim!: wprE simp: quiet_def)
  let ?s2 = "modb t (\<lambda>x. x\<lparr>b_data := ?v\<rparr>) s1"
  have c2: "cst ?s2 ?d \<lparr>av = V(?l := ?v), ad = D, apins = P(?l := Suc 0), aheld = [?l \<mapsto> t], ahist = T\<rparr>"
    using cst_modify [OF c1, of ?l t ?v] len by simp
  have s2: "modb t (\<lambda>x. x\<lparr>b_data := put_head (l_lh (the_log s1)) (b_data x)\<rparr>) s1 = ?s2"
    using held_buffer(3) [OF c1, of ?l t] bframe_log [OF f1] by (intro modb_cong) simp
  from cst_bwrite [OF c2, of ?l t] obtain s3 where
    b3: "bwrite t ?s2 = Ret () s3" and f3: "bframe ?s2 s3"
    and c3: "cst s3 ?d \<lparr>av = V(?l := ?v), ad = D(?l := ?v), apins = P(?l := Suc 0), aheld = [?l \<mapsto> t], ahist = T @ [(?l, ?v)]\<rparr>"
    by (auto elim!: wprE)
  from cst_brelse [OF c3, of ?l t] obtain s4 where
    b4: "brelse t s3 = Ret () s4" and f4: "bframe s3 s4"
    and c4: "cst s4 ?d \<lparr>av = V(?l := ?v), ad = D(?l := ?v), apins = P(?l := Suc 0, ?l := 0), aheld = [?l \<mapsto> t](?l := None), ahist = T @ [(?l, ?v)]\<rparr>"
    by (auto elim!: wprE)
  have e: "P(?l := Suc 0, ?l := 0) = P" "[?l \<mapsto> t](?l := None) = (\<lambda>_. None)" using pins by auto
  have "bframe s s4"
    using f1 f3 f4 bframe_modb [of s1 t "\<lambda>x. x\<lparr>b_data := ?v\<rparr>"] by (meson bframe_trans)
  moreover have "write_head s = Ret () s4"
    using b1 b3 b4 s2 unfolding write_head_def log_bread_def by (simp add: ldev_def hblk_def)
  ultimately show ?thesis using c4 unfolding e quiet_def by (simp add: Let_def)
qed

section \<open>Sequences of writes\<close>

definition overlay :: "(u32 \<times> u8 list) list \<Rightarrow> (u32 \<Rightarrow> u8 list) \<Rightarrow> u32 \<Rightarrow> u8 list" where
  "overlay W D = foldl (\<lambda>D (n, d). D(n := d)) D W"

lemma overlay_simps [simp]:
  "overlay [] D = D" "overlay ((n, d) # W) D = overlay W (D(n := d))" "overlay (W @ W') D = overlay W' (overlay W D)"
  by (simp_all add: overlay_def)

lemma overlay_other: "m \<notin> fst ` set W \<Longrightarrow> overlay W D m = D m"
  by (induction W rule: rev_induct) auto

lemma overlay_hit: "m \<in> fst ` set W \<Longrightarrow> (\<And>d. (m, d) \<in> set W \<Longrightarrow> d = v) \<Longrightarrow> overlay W D m = v"
proof (induction W rule: rev_induct)
  case (snoc w W)
  obtain n d where w: "w = (n, d)" by force
  show ?case
  proof (cases "m = n")
    case False
    then have "m \<in> fst ` set W" using snoc.prems(1) by (auto simp: w)
    then show ?thesis using snoc False by (simp add: w)
  qed (use snoc.prems w in simp)
qed simp

text \<open>The header: the encoding of \<open>put_head\<close> read back.\<close>

lemma put_blocks:
  fixes B :: "nat \<Rightarrow> u32"
  assumes "length d = BSIZE" "k \<le> LOGSIZE"
  shows "length (fold (\<lambda>i d. put_le d (4 + 4 * i) 4 (B i)) [0..<k] d) = BSIZE \<and>
    (\<forall>i<k. get_le (fold (\<lambda>i d. put_le d (4 + 4 * i) 4 (B i)) [0..<k] d) (4 + 4 * i) 4 = B i) \<and>
    get_le (fold (\<lambda>i d. put_le d (4 + 4 * i) 4 (B i)) [0..<k] d) 0 4 = (get_le d 0 4 :: u32)"
  using assms(2)
proof (induction k)
  case (Suc k)
  let ?f = "fold (\<lambda>i d. put_le d (4 + 4 * i) 4 (B i)) [0..<k] d"
  have IH: "length ?f = BSIZE" "\<And>i. i < k \<Longrightarrow> get_le ?f (4 + 4 * i) 4 = B i" "get_le ?f 0 4 = (get_le d 0 4 :: u32)"
    using Suc by auto
  have r: "4 + 4 * k + 4 \<le> length ?f" using Suc.prems IH(1) by simp
  have "get_le (put_le ?f (4 + 4 * k) 4 (B k)) (4 + 4 * i) 4 = B i" if "i < Suc k" for i
  proof (cases "i = k")
    case True
    then show ?thesis using r by simp
  next
    case False
    then show ?thesis using that r IH(2) [of i] by (simp add: get_put_le_other)
  qed
  moreover have "get_le (put_le ?f (4 + 4 * k) 4 (B k)) 0 4 = (get_le d 0 4 :: u32)"
    using r IH(3) by (simp add: get_put_le_other)
  ultimately show ?case using r IH(1) by simp
qed (use assms in simp)

lemma put_head_ok:
  assumes "length d = BSIZE" "lh_n lh \<le> int LOGSIZE"
  shows "length (put_head lh d) = BSIZE" "get_le (put_head lh d) 0 4 = (of_int (lh_n lh) :: u32)"
    "int i < lh_n lh \<Longrightarrow> get_le (put_head lh d) (4 + 4 * i) 4 = (of_int (lh_block lh ! i) :: u32)"
proof -
  have "length (put_le d 0 4 (of_int (lh_n lh) :: u32)) = BSIZE" "nat (lh_n lh) \<le> LOGSIZE" using assms by auto
  note p = put_blocks [OF this, of "\<lambda>i. of_int (lh_block lh ! i)"]
  show "length (put_head lh d) = BSIZE" using p unfolding put_head_def by blast
  show "get_le (put_head lh d) 0 4 = (of_int (lh_n lh) :: u32)" using p assms(1) unfolding put_head_def by simp
  show "get_le (put_head lh d) (4 + 4 * i) 4 = (of_int (lh_block lh ! i) :: u32)" if "int i < lh_n lh"
    using p that unfolding put_head_def by simp
qed

section \<open>Whole phases\<close>

text \<open>The log region, and a header whose homes are distinct blocks outside of it.\<close>

definition region :: "'a lstate_scheme \<Rightarrow> u32 set" where
  "region s = insert (hblk s) (lblk s ` {..<LOGSIZE})"

definition layout_ok :: "'a lstate_scheme \<Rightarrow> bool" where
  "layout_ok s \<longleftrightarrow> 0 \<le> l_start (the_log s) \<and> l_start (the_log s) + int LOGSIZE < 2 ^ 31"

definition header_ok :: "'a lstate_scheme \<Rightarrow> bool" where
  "header_ok s \<longleftrightarrow> 0 \<le> logn s \<and> logn s < int NBUF \<and> inj_on (home s) {..<nat (logn s)} \<and> home s ` {..<nat (logn s)} \<inter> region s = {}"

lemma layout_bframe: "bframe s s' \<Longrightarrow> region s' = region s \<and> layout_ok s' = layout_ok s \<and> header_ok s' = header_ok s"
  using bframe_blocks [of s s'] bframe_log [of s s'] by (simp add: region_def layout_ok_def header_ok_def)

lemma uint_blocks:
  assumes "layout_ok s"
  shows "uint (hblk s) = l_start (the_log s)" "i < LOGSIZE \<Longrightarrow> uint (lblk s i) = l_start (the_log s) + int i + 1"
proof -
  show "uint (hblk s) = l_start (the_log s)" unfolding hblk_def using assms
    by (subst uint_word_of_int_eq, subst take_bit_int_eq_self) (auto simp: layout_ok_def)
  show "uint (lblk s i) = l_start (the_log s) + int i + 1" if "i < LOGSIZE"
    unfolding lblk_def using assms that
    by (subst uint_word_of_int_eq, subst take_bit_int_eq_self) (auto simp: layout_ok_def)
qed

lemma lblk_inj:
  assumes "layout_ok s"
  shows "inj_on (lblk s) {..<LOGSIZE}" "hblk s \<notin> lblk s ` {..<LOGSIZE}"
proof -
  note h = uint_blocks(1) [OF assms] and u = uint_blocks(2) [OF assms]
  show "inj_on (lblk s) {..<LOGSIZE}"
  proof (rule inj_onI)
    fix i j assume i: "i \<in> {..<LOGSIZE}" and j: "j \<in> {..<LOGSIZE}" and e: "lblk s i = lblk s j"
    from i j have ij: "i < LOGSIZE" "j < LOGSIZE" by (simp_all only: lessThan_iff)
    from u [OF ij(1)] u [OF ij(2)] show "i = j" unfolding e by linarith
  qed
  show "hblk s \<notin> lblk s ` {..<LOGSIZE}"
  proof
    assume "hblk s \<in> lblk s ` {..<LOGSIZE}"
    then obtain i where e: "hblk s = lblk s i" and i: "i \<in> {..<LOGSIZE}" by (rule imageE)
    have "i < LOGSIZE" using i by (rule lessThan_iff [THEN iffD1])
    from u [OF this] h show False unfolding e by linarith
  qed
qed

lemma region_range:
  assumes "layout_ok s"
  shows "x \<in> region s \<longleftrightarrow> l_start (the_log s) \<le> uint x \<and> uint x \<le> l_start (the_log s) + int LOGSIZE"
proof
  assume "x \<in> region s"
  then consider "x = hblk s" | i where "i \<in> {..<LOGSIZE}" "x = lblk s i" unfolding region_def by blast
  then show "l_start (the_log s) \<le> uint x \<and> uint x \<le> l_start (the_log s) + int LOGSIZE"
    using uint_blocks [OF assms] by cases auto
next
  assume r: "l_start (the_log s) \<le> uint x \<and> uint x \<le> l_start (the_log s) + int LOGSIZE"
  show "x \<in> region s"
  proof (cases "uint x = l_start (the_log s)")
    case True
    then have "x = hblk s" using uint_blocks(1) [OF assms] by (simp add: word_uint_eq_iff)
    then show ?thesis by (simp add: region_def)
  next
    case False
    let ?i = "nat (uint x - l_start (the_log s) - 1)"
    have i: "?i < LOGSIZE" using r False by auto
    then have "x = lblk s ?i" using uint_blocks(2) [OF assms, of ?i] r False by (simp add: word_uint_eq_iff)
    then have "x \<in> lblk s ` {..<LOGSIZE}" using i by (rule image_eqI [OF _ lessThan_iff [THEN iffD2]])
    then show ?thesis unfolding region_def by (rule insertI2)
  qed
qed

text \<open>The writes of the phases, for a view \<open>V\<close> of the blocks.\<close>

definition log_writes :: "'a lstate_scheme \<Rightarrow> (u32 \<Rightarrow> u8 list) \<Rightarrow> nat \<Rightarrow> (u32 \<times> u8 list) list" where
  "log_writes s V n = map (\<lambda>i. (lblk s i, V (home s i))) [0..<n]"

definition home_writes :: "'a lstate_scheme \<Rightarrow> (u32 \<Rightarrow> u8 list) \<Rightarrow> nat \<Rightarrow> (u32 \<times> u8 list) list" where
  "home_writes s V n = map (\<lambda>i. (home s i, V (lblk s i))) [0..<n]"

definition pinned :: "'a lstate_scheme \<Rightarrow> nat \<Rightarrow> u32 \<Rightarrow> nat" where
  "pinned s k m = (if m \<in> home s ` {k..<nat (logn s)} then 1 else 0)"

lemma card_pinned: "card {m. pinned s k m > 0} \<le> nat (logn s)"
proof -
  have "{m. pinned s k m > 0} = home s ` {k..<nat (logn s)}" by (auto simp: pinned_def)
  then show ?thesis using card_image_le [of "{k..<nat (logn s)}" "home s"] by simp
qed

lemma bframe_header:
  assumes "bframe s s'"
  shows "region s' = region s" "layout_ok s' = layout_ok s" "header_ok s' = header_ok s" "pinned s' = pinned s"
  using layout_bframe [OF assms] bframe_blocks [OF assms] by (simp_all add: fun_eq_iff pinned_def)

lemma pinned_step:
  assumes "j < nat (logn s)" "inj_on (home s) {..<nat (logn s)}"
  shows "(pinned s j)(home s j := 0) = pinned s (Suc j)"
proof -
  have "{j..<nat (logn s)} = insert j {Suc j..<nat (logn s)}" using assms(1) by auto
  moreover have "home s j \<notin> home s ` {Suc j..<nat (logn s)}" using assms inj_onD [OF assms(2), of j] by fastforce
  ultimately show ?thesis by (auto simp: pinned_def)
qed

lemma log_writes_Suc [simp]:
  "log_writes s V 0 = []" "log_writes s V (Suc n) = log_writes s V n @ [(lblk s n, V (home s n))]"
  "home_writes s V 0 = []" "home_writes s V (Suc n) = home_writes s V n @ [(home s n, V (lblk s n))]"
  by (simp_all add: log_writes_def home_writes_def)

lemma fst_log_writes: "fst ` set (log_writes s V n) = lblk s ` {..<n}" "fst ` set (home_writes s V n) = home s ` {..<n}"
  by (force simp: log_writes_def home_writes_def)+

lemma region_home: "header_ok s \<Longrightarrow> i < nat (logn s) \<Longrightarrow> home s i \<notin> region s"
  unfolding header_ok_def by blast

lemma write_log_ok:
  assumes cst: "cst s (ldev s) (quiet V D (pinned s 0) T)" and wf: "header_ok s"
  shows "wpr (write_log s) (\<lambda>_ s'. bframe s s' \<and>
    cst s' (ldev s) (let W = log_writes s V (nat (logn s)) in quiet (overlay W V) (overlay W D) (pinned s 0) (T @ W)))"
proof -
  let ?n = "nat (logn s)"
  have n: "?n < NBUF" "?n \<le> LOGSIZE" using wf by (auto simp: header_ok_def)
  define I where "I j u \<longleftrightarrow> bframe s u \<and>
    cst u (ldev s) (quiet (overlay (log_writes s V j) V) (overlay (log_writes s V j) D) (pinned s 0) (T @ log_writes s V j))" for j u
  have "wpr (rfor [0..<?n] write_log_block s) (\<lambda>_ u. I ?n u)"
  proof (rule rfor_upt [of I])
    show "I 0 s" using cst by (simp add: I_def)
    fix j u assume j: "j < ?n" and I: "I j u"
    then have f: "bframe s u" by (simp add: I_def)
    note b = bframe_blocks [OF f]
    have hr: "home s j \<notin> region s" using region_home [OF wf j] .
    have lr: "lblk s i \<in> region s" if "i \<le> j" for i using that j n by (auto simp: region_def)
    have V: "overlay (log_writes s V j) V (home s j) = V (home s j)"
      using hr lr by (intro overlay_other) (auto simp: fst_log_writes)
    have p: "pinned s 0 (home s j) = 1" "pinned s 0 (lblk s j) = 0" "lblk s j \<noteq> home s j"
      using j lr [of j] region_home [OF wf] hr by (auto simp: pinned_def)
    have "card {m. pinned s 0 m > 0} < NBUF" using card_pinned [of s 0] n by linarith
    from write_log_block_ok [of u, unfolded b, OF _ p(3) p(2) p(1) this, of "overlay (log_writes s V j) V" "overlay (log_writes s V j) D" "T @ log_writes s V j"] I
    have "wpr (write_log_block j u) (\<lambda>_ u'. bframe u u' \<and> cst u' (ldev s) (quiet (overlay (log_writes s V (Suc j)) V)
        (overlay (log_writes s V (Suc j)) D) (pinned s 0) (T @ log_writes s V (Suc j))))"
      unfolding V by (simp add: I_def)
    then show "wpr (write_log_block j u) (\<lambda>_ u'. I (Suc j) u')"
      by (rule wpr_mono) (auto simp: I_def intro: bframe_trans [OF f])
  qed
  then show ?thesis by (simp add: write_log_def I_def Let_def)
qed

lemma install_trans_ok:
  assumes cst: "cst s (ldev s) (quiet V D (if recovering then (\<lambda>_. 0) else pinned s 0) T)" and wf: "header_ok s"
    and clean: "\<And>i. i < nat (logn s) \<Longrightarrow> V (lblk s i) = D (lblk s i)"
  shows "wpr (install_trans recovering s) (\<lambda>_ s'. bframe s s' \<and>
    cst s' (ldev s) (let W = home_writes s V (nat (logn s)) in quiet (overlay W V) (overlay W D) (\<lambda>_. 0) (T @ W)))"
proof -
  let ?n = "nat (logn s)"
  define P where "P j = (if recovering then (\<lambda>_. 0) else pinned s j)" for j
  have n: "?n < NBUF" "?n \<le> LOGSIZE" and inj: "inj_on (home s) {..<?n}" using wf by (auto simp: header_ok_def)
  define I where "I j u \<longleftrightarrow> bframe s u \<and>
    cst u (ldev s) (quiet (overlay (home_writes s V j) V) (overlay (home_writes s V j) D) (P j) (T @ home_writes s V j))" for j u
  have "wpr (rfor [0..<?n] (install_block recovering) s) (\<lambda>_ u. I ?n u)"
  proof (rule rfor_upt [of I])
    show "I 0 s" using cst by (simp add: I_def P_def)
    fix j u assume j: "j < ?n" and I: "I j u"
    then have f: "bframe s u" by (simp add: I_def)
    note b = bframe_blocks [OF f]
    have lr: "lblk s j \<in> region s" using j n by (auto simp: region_def)
    then have lh: "lblk s j \<notin> home s ` {..<?n}" using region_home [OF wf] by auto
    then have V: "overlay (home_writes s V j) E (lblk s j) = E (lblk s j)" for E
      using j by (intro overlay_other) (auto simp: fst_log_writes)
    have p: "P j (lblk s j) = 0" "P j (home s j) = (if recovering then 0 else 1)" "lblk s j \<noteq> home s j"
      using j lh by (auto simp: P_def pinned_def)
    have q: "(P j)(home s j := 0) = P (Suc j)" using pinned_step [OF j inj] by (auto simp: P_def)
    have few: "card {m. P j m > 0} + (if recovering then 1 else 0) < NBUF"
      using card_pinned [of s j] n by (auto simp: P_def)
    have "wpr (install_block recovering j u) (\<lambda>_ u'. bframe u u' \<and> cst u' (ldev s) (quiet (overlay (home_writes s V (Suc j)) V)
        (overlay (home_writes s V (Suc j)) D) (P (Suc j)) (T @ home_writes s V (Suc j))))"
      using install_block_ok [of u, unfolded b, OF _ p(3) p(1) p(2) few, of "overlay (home_writes s V j) V" "overlay (home_writes s V j) D" "T @ home_writes s V j"] I
        clean [OF j]
      by (simp add: I_def V q)
    then show "wpr (install_block recovering j u) (\<lambda>_ u'. I (Suc j) u')"
      by (rule wpr_mono) (auto simp: I_def intro: bframe_trans [OF f])
  qed
  moreover have "P ?n = (\<lambda>_. 0)" by (auto simp: P_def pinned_def fun_eq_iff)
  ultimately show ?thesis by (simp add: install_trans_def I_def Let_def)
qed

section \<open>Commit\<close>

lemma cst_the_log: "cst (s\<lparr>the_log := l\<rparr>) dev a = cst s dev a"
proof -
  have *: "cst (s\<lparr>the_log := l\<rparr>) dev a" if c: "cst s dev a" for s :: "'a lstate_scheme" and l
  proof -
    obtain xs where "lru s xs" using cstD(1) [OF c] unfolding binv_def by blast
    then have "lru (s\<lparr>the_log := l\<rparr>) xs" by (simp add: lru_bufs [of "s\<lparr>the_log := l\<rparr>" s])
    then show ?thesis
      by (intro cst_cong [OF c, where xs = xs]) (simp_all add: bcore_def getb_def myproc_def mypid_def getp_def)
  qed
  show ?thesis using * [of s l] * [of "s\<lparr>the_log := l\<rparr>" "the_log s"] by auto
qed

lemma cst_modlog [simp]: "cst (modlog f s) dev a = cst s dev a"
  by (simp add: modlog_def cst_the_log)

lemma bframe_modlog:
  assumes "bframe s t"
  shows "bframe (modlog f s) (modlog f t)"
proof -
  obtain ps bs d w where "t = s\<lparr>procs := ps, bufs := bs, disk := d, dwrites := w\<rparr>" "length ps = length (procs s)"
    using assms unfolding bframe_def by blast
  then have "modlog f t = (modlog f s)\<lparr>procs := ps, bufs := bs, disk := d, dwrites := w\<rparr>" "length ps = length (procs (modlog f s))"
    by (simp_all add: modlog_def)
  then show ?thesis unfolding bframe_def by blast
qed

lemma modlog_blocks [simp]:
  "hblk (clear_lh s) = hblk s" "ldev (clear_lh s) = ldev s" "l_lh (the_log (clear_lh s)) = (l_lh (the_log s))\<lparr>lh_n := 0\<rparr>"
  by (simp_all add: clear_lh_def modlog_def hblk_def ldev_def)

lemma cst_lengths:
  assumes "cst s dev a"
  shows "length (av a n) = BSIZE" "length (ad a n) = BSIZE"
  using bview_length [OF cstD(2) [OF assms], of dev n] cstD(2,5,6) [OF assms] by (auto simp: cinv_def)

definition commit_writes :: "'a lstate_scheme \<Rightarrow> (u32 \<Rightarrow> u8 list) \<Rightarrow> (u32 \<times> u8 list) list" where
  "commit_writes s V =
     (let n = nat (logn s); lh = l_lh (the_log s); h = put_head lh (V (hblk s)) in
      log_writes s V n @ [(hblk s, h)] @ map (\<lambda>i. (home s i, V (home s i))) [0..<n] @ [(hblk s, put_head (lh\<lparr>lh_n := 0\<rparr>) h)])"

lemma overlay_log_writes:
  assumes "layout_ok s" "i < n" "n \<le> LOGSIZE"
  shows "overlay (log_writes s V n) D (lblk s i) = V (home s i)"
proof (rule overlay_hit)
  show "lblk s i \<in> fst ` set (log_writes s V n)" using assms(2) by (auto simp: fst_log_writes)
  fix d assume "(lblk s i, d) \<in> set (log_writes s V n)"
  then obtain j where "j < n" "lblk s i = lblk s j" "d = V (home s j)" by (auto simp: log_writes_def)
  then show "d = V (home s i)" using inj_onD [OF lblk_inj(1) [OF assms(1)], of i j] assms(2,3) by auto
qed

lemma head_apart:
  assumes "header_ok s" "layout_ok s"
  shows "pinned s 0 (hblk s) = 0" "overlay (log_writes s V (nat (logn s))) E (hblk s) = E (hblk s)"
    "overlay (map (\<lambda>i. (home s i, f i)) [0..<nat (logn s)]) E (hblk s) = E (hblk s)"
    "i < nat (logn s) \<Longrightarrow> lblk s i \<noteq> hblk s" "card {m. pinned s 0 m > 0} < NBUF"
proof -
  have n: "nat (logn s) < NBUF" using assms(1) by (auto simp: header_ok_def)
  have h: "hblk s \<notin> home s ` {..<nat (logn s)}"
    using assms(1) unfolding header_ok_def region_def by blast
  then show "pinned s 0 (hblk s) = 0" "overlay (map (\<lambda>i. (home s i, f i)) [0..<nat (logn s)]) E (hblk s) = E (hblk s)"
    by (auto simp: pinned_def atLeast0LessThan intro!: overlay_other)
  have "lblk s ` {..<nat (logn s)} \<subseteq> lblk s ` {..<LOGSIZE}" using n by (intro image_mono) auto
  then have l: "hblk s \<notin> lblk s ` {..<nat (logn s)}" using lblk_inj(2) [OF assms(2)] by blast
  then show "overlay (log_writes s V (nat (logn s))) E (hblk s) = E (hblk s)"
    by (intro overlay_other) (simp add: fst_log_writes)
  show "lblk s i \<noteq> hblk s" if "i < nat (logn s)"
    using l that by (metis image_eqI lessThan_iff)
  show "card {m. pinned s 0 m > 0} < NBUF" using card_pinned [of s 0] n by linarith
qed

text \<open>Up to and including the header: the blocks are in the log.\<close>

lemma log_phase_ok:
  fixes D :: "u32 \<Rightarrow> u8 list"
  assumes cst: "cst s (ldev s) (quiet V D (pinned s 0) T)" and wf: "header_ok s" and lay: "layout_ok s"
  defines "W \<equiv> log_writes s V (nat (logn s)) @ [(hblk s, put_head (l_lh (the_log s)) (V (hblk s)))]"
  shows "wpr (rbind (write_log s) (\<lambda>_. write_head)) (\<lambda>_ s'. bframe s s' \<and>
    cst s' (ldev s) (quiet (overlay W V) (overlay W D) (pinned s 0) (T @ W)))"
proof -
  let ?n = "nat (logn s)" and ?h = "hblk s" and ?lh = "l_lh (the_log s)"
  let ?L = "log_writes s V ?n"
  have n: "lh_n ?lh \<le> int LOGSIZE" using wf by (auto simp: header_ok_def logn_def)
  note ha = head_apart [OF wf lay]
  have len: "length (V ?h) = BSIZE" using cst_lengths(1) [OF cst, of ?h] by (simp add: quiet_def)
  obtain s1 where s1: "write_log s = Ret () s1" and f1: "bframe s s1"
    and c1: "cst s1 (ldev s) (quiet (overlay ?L V) (overlay ?L D) (pinned s 0) (T @ ?L))"
    using write_log_ok [OF cst wf] by (auto elim!: wprE simp: Let_def)
  note b1 = bframe_blocks [OF f1] bframe_log [OF f1]
  have "length (put_head ?lh (overlay ?L V ?h)) = BSIZE" using put_head_ok(1) [OF len n] by (simp add: ha(2))
  from write_head_ok [of s1, unfolded b1, OF c1 ha(1,5) this] s1 f1
  show ?thesis by (auto elim!: wprE intro: bframe_trans simp: Let_def ha(2) W_def)
qed

lemma commit_ok:
  assumes cst: "cst s (ldev s) (quiet V D (pinned s 0) T)" and wf: "header_ok s" and lay: "layout_ok s" and pos: "logn s > 0"
  shows "wpr (commit s) (\<lambda>_ s'. bframe (clear_lh s) s' \<and>
    cst s' (ldev s) (let W = commit_writes s V in quiet (overlay W V) (overlay W D) (\<lambda>_. 0) (T @ W)))"
proof -
  let ?n = "nat (logn s)" and ?h = "hblk s" and ?lh = "l_lh (the_log s)"
  define H where "H = put_head ?lh (V ?h)"
  let ?L = "log_writes s V ?n @ [(?h, H)]"
  have n: "?n \<le> LOGSIZE" "lh_n ?lh \<le> int LOGSIZE" using wf by (auto simp: header_ok_def logn_def)
  note ha = head_apart [OF wf lay]
  have len: "length (V ?h) = BSIZE" using cst_lengths(1) [OF cst, of ?h] by (simp add: quiet_def)
  have lenH: "length H = BSIZE" using put_head_ok(1) [OF len n(2)] by (simp add: H_def)
  obtain s2 where s2: "rbind (write_log s) (\<lambda>_. write_head) = Ret () s2" and f2: "bframe s s2"
    and c2: "cst s2 (ldev s) (quiet (overlay ?L V) (overlay ?L D) (pinned s 0) (T @ ?L))"
    using log_phase_ok [OF cst wf lay] unfolding H_def by (auto elim!: wprE)
  note b2 = bframe_blocks [OF f2] bframe_log [OF f2]
  have hw: "header_ok s2" "pinned s2 = pinned s" using wf by (simp_all add: bframe_header [OF f2])
  have v2: "overlay ?L E (lblk s i) = V (home s i)" if "i < ?n" for i E
    using overlay_log_writes [OF lay that n(1)] ha(4) [OF that] by simp
  let ?M = "map (\<lambda>i. (home s i, V (home s i))) [0..<?n]"
  have M: "home_writes s2 (overlay ?L V) ?n = ?M" using v2 b2 unfolding home_writes_def by (simp cong: map_cong)
  have "wpr (install_trans False s2) (\<lambda>_ s'. bframe s2 s' \<and>
      cst s' (ldev s) (quiet (overlay ?M (overlay ?L V)) (overlay ?M (overlay ?L D)) (\<lambda>_. 0) (T @ ?L @ ?M)))"
    using install_trans_ok [of s2 "overlay ?L V" "overlay ?L D" False "T @ ?L", OF _ hw(1)] c2 v2
    unfolding b2 hw(2) M by (simp add: Let_def)
  then obtain s3 where s3: "install_trans False s2 = Ret () s3" and f23: "bframe s2 s3"
    and c3: "cst s3 (ldev s) (quiet (overlay ?M (overlay ?L V)) (overlay ?M (overlay ?L D)) (\<lambda>_. 0) (T @ ?L @ ?M))"
    by (auto elim!: wprE)
  have f3: "bframe s s3" using f2 f23 by (rule bframe_trans)
  note b3 = bframe_blocks [OF f3] bframe_log [OF f3]
  let ?V = "overlay ?M (overlay ?L V)" and ?D = "overlay ?M (overlay ?L D)"
  have v: "?V ?h = H" by (simp add: ha(3))
  have l: "length (put_head (?lh\<lparr>lh_n := 0\<rparr>) H) = BSIZE" using put_head_ok(1) [OF lenH] by simp
  have "wpr (write_head (clear_lh s3)) (\<lambda>_ s'. bframe (clear_lh s3) s' \<and>
      cst s' (ldev s) (let W = commit_writes s V in quiet (overlay W V) (overlay W D) (\<lambda>_. 0) (T @ W)))"
    using write_head_ok [of "clear_lh s3" ?V ?D "\<lambda>_. 0" "T @ ?L @ ?M"] c3 l
    unfolding modlog_blocks b3 v by (simp add: clear_lh_def commit_writes_def Let_def H_def)
  moreover have "bframe (clear_lh s) (clear_lh s3)" using bframe_modlog [OF f3] unfolding clear_lh_def .
  moreover have "commit s = write_head (clear_lh s3)" using pos s2 s3 by (simp add: commit_def rbind_assoc [symmetric])
  ultimately show ?thesis by (auto elim!: wprE intro: bframe_trans)
qed

section \<open>Recovery\<close>

text \<open>The header that \<open>read_head\<close> installs, and the state with it.\<close>

definition loaded :: "u8 list \<Rightarrow> 'a lstate_scheme \<Rightarrow> 'a lstate_scheme" where
  "loaded d s = (let n = sint (get_le d 0 4 :: u32) in
     modlog (\<lambda>l. l\<lparr>l_lh := \<lparr>lh_n = n,
       lh_block = map (\<lambda>i. sint (get_le d (4 + 4 * i) 4 :: u32)) [0..<nat n] @ drop (nat n) (lh_block (l_lh l))\<rparr>\<rparr>) s)"

lemma loaded_blocks [simp]:
  "hblk (loaded d s) = hblk s" "lblk (loaded d s) = lblk s" "ldev (loaded d s) = ldev s" "region (loaded d s) = region s"
  "layout_ok (loaded d s) = layout_ok s" "logn (loaded d s) = sint (get_le d 0 4 :: u32)"
  by (simp_all add: loaded_def modlog_def hblk_def lblk_def [abs_def] ldev_def region_def layout_ok_def logn_def Let_def)

lemma loaded_home: "int i < sint (get_le d 0 4 :: u32) \<Longrightarrow> home (loaded d s) i = get_le d (4 + 4 * i) 4"
  by (simp add: loaded_def modlog_def home_def logblock_def Let_def nth_append zless_nat_eq_int_zless)

lemma cst_loaded [simp]: "cst (loaded d s) dev a = cst s dev a"
  by (simp add: loaded_def Let_def)

lemma read_head_ok:
  assumes cst: "cst s (ldev s) (quiet V V (\<lambda>_. 0) T)" and n: "sint (get_le (V (hblk s)) 0 4 :: u32) \<le> int LOGSIZE"
  shows "wpr (read_head s) (\<lambda>_ s'. bframe (loaded (V (hblk s)) s) s' \<and> cst s' (ldev s) (quiet V V (\<lambda>_. 0) T))"
proof -
  let ?l = "hblk s" and ?d = "ldev s"
  have "room (quiet V V (\<lambda>_. 0) T) ?l" by (simp add: room_def quiet_def)
  from cst_bread [OF cst _ this] obtain t s1 where
    b1: "bread ?d ?l s = Ret t s1" and f1: "bframe s s1"
    and c1: "cst s1 ?d \<lparr>av = V, ad = V, apins = (\<lambda>_. 0)(?l := Suc 0), aheld = [?l \<mapsto> t], ahist = T\<rparr>"
    by (auto elim!: wprE simp: quiet_def)
  have d: "b_data (getb t s1) = V ?l" using held_buffer(3) [OF c1, of ?l t] by simp
  have c2: "cst (loaded (V ?l) s1) ?d \<lparr>av = V, ad = V, apins = (\<lambda>_. 0)(?l := Suc 0), aheld = [?l \<mapsto> t], ahist = T\<rparr>" using c1 by simp
  have f2: "bframe (loaded (V ?l) s) (loaded (V ?l) s1)" using bframe_modlog [OF f1] by (simp add: loaded_def Let_def)
  have e: "(\<lambda>_. 0 :: nat)(?l := Suc 0, ?l := 0) = (\<lambda>_. 0)" "[?l \<mapsto> t](?l := None) = (\<lambda>_. None)" by auto
  have "read_head s = brelse t (loaded (V ?l) s1)"
    using b1 d n bframe_log [OF f1] unfolding read_head_def log_bread_def
    by (simp add: ldev_def hblk_def loaded_def Let_def)
  then show ?thesis using cst_brelse [OF c2, of ?l t] e
    by (auto elim!: wprE simp: quiet_def intro: bframe_trans [OF f2])
qed

definition recover_writes :: "'a lstate_scheme \<Rightarrow> (u32 \<Rightarrow> u8 list) \<Rightarrow> (u32 \<times> u8 list) list" where
  "recover_writes s D =
     (let d = D (hblk s); s1 = loaded d s in
      home_writes s1 D (nat (logn s1)) @ [(hblk s, put_head ((l_lh (the_log s1))\<lparr>lh_n := 0\<rparr>) d)])"

lemma recover_ok:
  assumes cst: "cst s (ldev s) (quiet D D (\<lambda>_. 0) T)" and wf: "header_ok (loaded (D (hblk s)) s)" and lay: "layout_ok s"
  shows "wpr (recover_from_log s) (\<lambda>_ s'. logn s' = 0 \<and>
    cst s' (ldev s) (let W = recover_writes s D in quiet (overlay W D) (overlay W D) (\<lambda>_. 0) (T @ W)))"
proof -
  let ?h = "hblk s" let ?d = "D ?h" let ?r = "loaded ?d s" let ?n = "nat (logn ?r)"
  have "sint (get_le ?d 0 4 :: u32) \<le> int LOGSIZE" using wf by (auto simp: header_ok_def)
  from read_head_ok [OF cst this] obtain s1 where s1: "read_head s = Ret () s1" and f1: "bframe ?r s1"
    and c1: "cst s1 (ldev s) (quiet D D (\<lambda>_. 0) T)" by (auto elim!: wprE)
  note b1 = bframe_blocks [OF f1, unfolded loaded_blocks] bframe_log [OF f1]
  have hw: "header_ok s1" using wf by (simp add: bframe_header [OF f1])
  let ?M = "home_writes ?r D ?n"
  have M: "home_writes s1 D (nat (logn s1)) = ?M" by (simp add: home_writes_def b1)
  have "wpr (install_trans True s1) (\<lambda>_ s'. bframe s1 s' \<and>
      cst s' (ldev s) (quiet (overlay ?M D) (overlay ?M D) (\<lambda>_. 0) (T @ ?M)))"
    using install_trans_ok [of s1 D D True T, OF _ hw] c1 unfolding M b1(1) by (simp add: Let_def)
  then obtain s2 where s2: "install_trans True s1 = Ret () s2" and f12: "bframe s1 s2"
    and c2: "cst s2 (ldev s) (quiet (overlay ?M D) (overlay ?M D) (\<lambda>_. 0) (T @ ?M))" by (auto elim!: wprE)
  have f2: "bframe ?r s2" using f1 f12 by (rule bframe_trans)
  note b2 = bframe_blocks [OF f2, unfolded loaded_blocks] bframe_log [OF f2]
  have v: "overlay ?M D ?h = ?d" using head_apart(3) [OF wf, of "\<lambda>i. D (lblk s i)" D] lay by (simp add: home_writes_def)
  have "length ?d = BSIZE" using cst_lengths(1) [OF cst, of ?h] by (simp add: quiet_def)
  then have l: "length (put_head ((l_lh (the_log ?r))\<lparr>lh_n := 0\<rparr>) ?d) = BSIZE" by (rule put_head_ok(1)) simp
  have "wpr (write_head (clear_lh s2)) (\<lambda>_ s'. bframe (clear_lh s2) s' \<and>
      cst s' (ldev s) (let W = recover_writes s D in quiet (overlay W D) (overlay W D) (\<lambda>_. 0) (T @ W)))"
    using write_head_ok [of "clear_lh s2" "overlay ?M D" "overlay ?M D" "\<lambda>_. 0" "T @ ?M"] c2 l
    unfolding modlog_blocks b2 v by (simp add: clear_lh_def recover_writes_def Let_def)
  moreover have "logn s' = 0" if "bframe (clear_lh s2) s'" for s' using bframe_blocks(5) [OF that] by (simp add: logn_def)
  ultimately show ?thesis using s1 s2 by (auto elim!: wprE simp: recover_from_log_def)
qed

section \<open>Crashes\<close>

text \<open>The state after a reboot: an empty cache over the disk \<open>D\<close>, the log at the place it had in \<open>s\<close>.\<close>

definition booted :: "'a lstate_scheme \<Rightarrow> 'a lstate_scheme \<Rightarrow> (u32 \<Rightarrow> u8 list) \<Rightarrow> bool" where
  "booted r s D \<longleftrightarrow> cst r (ldev s) (quiet D D (\<lambda>_. 0) (dwrites r)) \<and> ldev r = ldev s \<and> l_start (the_log r) = l_start (the_log s)"

lemma bootedD:
  assumes "booted r s D"
  shows "cst r (ldev r) (quiet D D (\<lambda>_. 0) (dwrites r))" "ldev r = ldev s" "hblk r = hblk s" "lblk r = lblk s" "region r = region s"
    "layout_ok r = layout_ok s"
  using assms by (auto simp: booted_def hblk_def lblk_def [abs_def] region_def layout_ok_def)

lemma cst_quiet: "cst s dev (quiet V D P T) \<Longrightarrow> disk s = D \<and> dwrites s = T"
  using cstD(6,7) [of s dev "quiet V D P T"] by (simp add: quiet_def)

lemma recover_booted:
  assumes "booted r s D" "header_ok (loaded (D (hblk s)) r)" "layout_ok s"
  shows "wpr (recover_from_log r) (\<lambda>_ r'. disk r' = overlay (recover_writes r D) D \<and> dwrites r' = dwrites r @ recover_writes r D)"
proof -
  note b = bootedD [OF assms(1)]
  show ?thesis
    by (rule wpr_mono [OF recover_ok [OF b(1), unfolded b(3,6), OF assms(2,3)]])
      (auto dest!: cst_quiet simp: Let_def)
qed

text \<open>With an empty header on disk recovery changes nothing outside the log.\<close>

lemma recover_empty:
  assumes "sint (get_le (D (hblk r)) 0 4 :: u32) = 0"
  shows "header_ok (loaded (D (hblk r)) r)" "m \<notin> region r \<Longrightarrow> overlay (recover_writes r D) D m = D m"
  using assms by (auto simp: header_ok_def recover_writes_def Let_def region_def)

text \<open>With a full log recovery installs every logged block.\<close>

lemma overlay_home_writes:
  assumes "inj_on (home s) {..<n}"
  shows "overlay (home_writes s V n) D m = (if m \<in> home s ` {..<n} then V (lblk s (the_inv_into {..<n} (home s) m)) else D m)"
proof (cases "m \<in> home s ` {..<n}")
  case True
  then obtain i where i: "i < n" "m = home s i" by auto
  have "overlay (home_writes s V n) D m = V (lblk s i)"
  proof (rule overlay_hit)
    show "m \<in> fst ` set (home_writes s V n)" using True by (simp add: fst_log_writes)
    fix d assume "(m, d) \<in> set (home_writes s V n)"
    then obtain j where "j < n" "m = home s j" "d = V (lblk s j)" by (auto simp: home_writes_def)
    then show "d = V (lblk s i)" using inj_onD [OF assms, of i j] i by auto
  qed
  then show ?thesis using True i assms by (simp add: the_inv_into_f_f)
qed (simp add: overlay_other fst_log_writes)

lemma recover_result:
  assumes "header_ok (loaded (D (hblk r)) r)" "m \<notin> region r"
  shows "overlay (recover_writes r D) D m =
    (let s = loaded (D (hblk r)) r; n = nat (logn s)
     in if m \<in> home s ` {..<n} then D (lblk r (the_inv_into {..<n} (home s) m)) else D m)"
  using overlay_home_writes [of "loaded (D (hblk r)) r" _ D D m] assms
  by (auto simp: header_ok_def recover_writes_def Let_def region_def)

text \<open>Recovery depends only on the log: the homes may hold anything.\<close>

lemma recover_redo:
  assumes wf: "header_ok (loaded (D (hblk r)) r)"
    and same: "hblk q = hblk r" "lblk q = lblk r" "region q = region r"
    and E: "\<And>x. x \<notin> home (loaded (D (hblk r)) r) ` {..<nat (sint (get_le (D (hblk r)) 0 4 :: u32))} \<Longrightarrow> E x = D x"
  shows "header_ok (loaded (E (hblk r)) q)" "m \<notin> region r \<Longrightarrow> overlay (recover_writes q E) E m = overlay (recover_writes r D) D m"
proof -
  let ?d = "D (hblk r)" let ?s = "loaded ?d r" let ?n = "nat (logn ?s)"
  have reg: "home ?s ` {..<?n} \<inter> region r = {}" using wf by (simp add: header_ok_def)
  have er: "E x = D x" if "x \<in> region r" for x using that reg by (intro E) auto
  have h: "E (hblk r) = ?d" by (rule er) (simp add: region_def)
  have hm: "home (loaded ?d q) i = home ?s i" if "i < ?n" for i using that loaded_home [of i ?d q] loaded_home [of i ?d r] by (simp add: zless_nat_eq_int_zless)
  have im: "home (loaded ?d q) ` {..<?n} = home ?s ` {..<?n}" using hm by (intro image_cong) auto
  have inj: "inj_on (home (loaded ?d q)) {..<?n}" using wf hm unfolding header_ok_def by (simp add: inj_on_def)
  show ok: "header_ok (loaded (E (hblk r)) q)" using wf inj im same unfolding h header_ok_def by simp
  have l: "lblk r i \<in> region r" if "i < ?n" for i using that wf by (auto simp: header_ok_def region_def)
  assume m: "m \<notin> region r"
  show "overlay (recover_writes q E) E m = overlay (recover_writes r D) D m"
  proof (cases "m \<in> home ?s ` {..<?n}")
    case True
    then obtain i where i: "i < ?n" "m = home ?s i" by auto
    have "the_inv_into {..<?n} (home (loaded ?d q)) m = i" "the_inv_into {..<?n} (home ?s) m = i"
      using i hm the_inv_into_f_f [OF inj, of i] the_inv_into_f_f [of "home ?s" "{..<?n}" i] wf by (auto simp: header_ok_def)
    then show ?thesis using recover_result [of D r m, OF wf m] recover_result [of E q m] ok m True im er [OF l [OF i(1)]]
      by (simp add: h same Let_def)
  next
    case False
    then show ?thesis using recover_result [of D r m, OF wf m] recover_result [of E q m] ok m im E [of m]
      by (simp add: h same Let_def)
  qed
qed

text \<open>Recovery may itself be cut short after any number of its writes and started again.\<close>

lemma recover_again:
  assumes wf: "header_ok (loaded (D (hblk r)) r)" and len: "length (D (hblk r)) = BSIZE"
    and same: "hblk q = hblk r" "lblk q = lblk r" "region q = region r" and E: "E = overlay (take j (recover_writes r D)) D"
  shows "header_ok (loaded (E (hblk r)) q) \<and> (m \<notin> region r \<longrightarrow> overlay (recover_writes q E) E m = overlay (recover_writes r D) D m)"
proof -
  let ?s = "loaded (D (hblk r)) r" let ?n = "nat (logn ?s)" let ?H = "home_writes ?s D ?n"
  have lenH: "length ?H = ?n" by (simp add: home_writes_def)
  show ?thesis
  proof (cases "?n < j")
    case True
    then have E: "E = overlay (recover_writes r D) D" using lenH by (simp add: E recover_writes_def Let_def)
    have "get_le (E (hblk r)) 0 4 = (0 :: u32)"
      unfolding E using put_head_ok(2) [OF len, of "(l_lh (the_log ?s))\<lparr>lh_n := 0\<rparr>"]
      by (simp add: recover_writes_def Let_def)
    then show ?thesis using recover_empty [of E q] same by (simp add: E)
  next
    case False
    then have E: "E = overlay (take j ?H) D" using lenH by (simp add: E recover_writes_def Let_def)
    have "fst ` set (take j ?H) \<subseteq> home ?s ` {..<?n}" using set_take_subset [of j ?H] fst_log_writes(2) [of ?s D ?n] by blast
    then have "E x = D x" if "x \<notin> home ?s ` {..<?n}" for x unfolding E using that by (intro overlay_other) blast
    then show ?thesis using recover_redo(1) [of D r q E, OF wf same] recover_redo(2) [of D r q E m, OF wf same] by simp
  qed
qed

text \<open>What is on the disk after some of the writes of a commit: the old blocks, or a full log.\<close>

lemma take_app3: "take k (A @ [x] @ B @ [y]) =
  (if k \<le> length A then take k A else if k \<le> length A + 1 + length B then A @ [x] @ take (k - length A - 1) B else A @ [x] @ B @ [y])"
  by (auto simp: take_Cons' take_append)

lemma commit_image:
  assumes wf: "header_ok s" and clean: "\<And>m. m \<notin> home s ` {..<nat (logn s)} \<Longrightarrow> V m = D m" and m: "m \<notin> region s"
  shows "overlay (commit_writes s V) D m = V m"
proof -
  have n: "nat (logn s) \<le> LOGSIZE" using wf by (auto simp: header_ok_def)
  then have A: "m \<notin> lblk s ` {..<nat (logn s)}" and h: "m \<noteq> hblk s" using m by (auto simp: region_def)
  show ?thesis
  proof (cases "m \<in> home s ` {..<nat (logn s)}")
    case True
    then have "overlay (map (\<lambda>i. (home s i, V (home s i))) [0..<nat (logn s)]) F m = V m" for F
      by (intro overlay_hit) force+
    then show ?thesis using h by (simp add: commit_writes_def Let_def)
  next
    case False
    then have "overlay (map (\<lambda>i. (home s i, V (home s i))) [0..<nat (logn s)]) F m = F m" for F
      by (intro overlay_other) auto
    then show ?thesis using h A False clean by (simp add: commit_writes_def Let_def overlay_other fst_log_writes)
  qed
qed

lemma crash_image:
  assumes wf: "header_ok s" and lay: "layout_ok s" and clean: "\<And>m. m \<notin> home s ` {..<nat (logn s)} \<Longrightarrow> V m = D m"
  defines "H \<equiv> put_head (l_lh (the_log s)) (V (hblk s))" and "n \<equiv> nat (logn s)"
  assumes E: "E = overlay (take k (commit_writes s V)) D"
  shows "(E (hblk s) = D (hblk s) \<and> (\<forall>m. m \<notin> region s \<longrightarrow> E m = D m)) \<or>
    (E (hblk s) = H \<and> (\<forall>i<n. E (lblk s i) = V (home s i)) \<and> (\<forall>m. m \<notin> region s \<longrightarrow> m \<notin> home s ` {..<n} \<longrightarrow> E m = V m)) \<or>
    (E (hblk s) = put_head ((l_lh (the_log s))\<lparr>lh_n := 0\<rparr>) H \<and> (\<forall>m. m \<notin> region s \<longrightarrow> E m = V m))"
proof -
  let ?A = "log_writes s V n" and ?x = "(hblk s, H)" and ?B = "map (\<lambda>i. (home s i, V (home s i))) [0..<n]"
    and ?y = "(hblk s, put_head ((l_lh (the_log s))\<lparr>lh_n := 0\<rparr>) H)"
  have C: "commit_writes s V = ?A @ [?x] @ ?B @ [?y]" by (simp add: commit_writes_def Let_def H_def n_def)
  note ha = head_apart [OF wf lay, folded n_def]
  have n: "n \<le> LOGSIZE" using wf by (auto simp: header_ok_def n_def)
  have A: "lblk s ` {..<n} \<subseteq> region s" using n by (auto simp: region_def)
  have hb: "hblk s \<in> region s" by (simp add: region_def)
  have hs: "home s ` {..<n} \<inter> region s = {}" using wf by (simp add: header_ok_def n_def)
  have lx: "lblk s i \<notin> home s ` {..<n}" if "i < n" for i using A hs that by blast
  have B: "overlay (take j ?B) F m = F m" if "m \<notin> home s ` {..<n}" for j F m
    using that set_take_subset [of j ?B] by (intro overlay_other) auto
  have dV: "overlay ?A D m = V m" if "m \<notin> region s" "m \<notin> home s ` {..<n}" for m
    using that A clean [of m, folded n_def] by (subst overlay_other) (auto simp: fst_log_writes)
  consider "k \<le> n" | "n < k" "k \<le> n + 1 + n" | "n + 1 + n < k" by linarith
  then show ?thesis
  proof cases
    case 1
    then have "E = overlay (take k ?A) D" unfolding E C take_app3 by (simp add: log_writes_def)
    moreover have "fst ` set (take k ?A) \<subseteq> lblk s ` {..<n}" using set_take_subset [of k ?A] fst_log_writes(1) [of s V n] by blast
    ultimately have "E m = D m" if "m \<notin> lblk s ` {..<n}" for m using that by (auto intro!: overlay_other)
    then show ?thesis using A ha(4) by (metis image_iff lessThan_iff subsetD)
  next
    case 2
    then have e: "E = overlay (take (k - n - 1) ?B) ((overlay ?A D)(hblk s := H))"
      unfolding E C take_app3 by (simp add: log_writes_def)
    have "E (lblk s i) = V (home s i)" if "i < n" for i
      using B [OF lx [OF that]] overlay_log_writes [OF lay that n] ha(4) [OF that] by (simp add: e)
    moreover have "E (hblk s) = H" using hb hs by (subst e, subst B) auto
    moreover have "E m = V m" if "m \<notin> region s" "m \<notin> home s ` {..<n}" for m
      using B [OF that(2)] dV [OF that] that hb by (auto simp: e)
    ultimately show ?thesis by blast
  next
    case 3
    then have e: "E = overlay (commit_writes s V) D" unfolding E C take_app3 by (simp add: log_writes_def)
    then have "E (hblk s) = put_head ((l_lh (the_log s))\<lparr>lh_n := 0\<rparr>) H" unfolding C by simp
    then show ?thesis using commit_image [OF wf clean] by (simp add: e)
  qed
qed

text \<open>Recovery from a full log gives the new blocks.\<close>

lemma sint_small: "0 \<le> n \<Longrightarrow> n < 2 ^ 31 \<Longrightarrow> sint (of_int n :: u32) = n"
  by (simp add: signed_take_bit_int_eq_self sint_sbintrunc')

lemma recover_full:
  assumes wf: "header_ok s" and len: "length (V (hblk s)) = BSIZE" and same: "hblk r = hblk s" "lblk r = lblk s" "region r = region s"
    and H: "E (hblk s) = put_head (l_lh (the_log s)) (V (hblk s))" and L: "\<And>i. i < nat (logn s) \<Longrightarrow> E (lblk s i) = V (home s i)"
    and R: "\<And>m. m \<notin> region s \<Longrightarrow> m \<notin> home s ` {..<nat (logn s)} \<Longrightarrow> E m = V m"
  shows "header_ok (loaded (E (hblk r)) r) \<and> (m \<notin> region s \<longrightarrow> overlay (recover_writes r E) E m = V m)"
proof -
  let ?d = "E (hblk r)" let ?q = "loaded ?d r" let ?n = "nat (logn s)"
  have n: "lh_n (l_lh (the_log s)) \<le> int LOGSIZE" "0 \<le> logn s" "logn s < int NBUF" using wf by (auto simp: header_ok_def logn_def)
  note p = put_head_ok [OF len n(1), folded H]
  have sn: "sint (get_le (E (hblk s)) 0 4 :: u32) = logn s" using p(2) n sint_small [of "logn s"] by (simp add: logn_def)
  then have ln: "logn ?q = logn s" by (simp add: same(1))
  have hm: "home ?q i = home s i" if "i < ?n" for i
  proof -
    have "int i < logn s" using that by (simp add: zless_nat_eq_int_zless)
    then show ?thesis using loaded_home [of i "E (hblk s)" r] p(3) [of i] sn by (simp add: same(1) logn_def home_def [of s] logblock_def)
  qed
  have im: "home ?q ` {..<?n} = home s ` {..<?n}" using hm by (intro image_cong) auto
  have inj: "inj_on (home ?q) {..<?n}" using wf hm unfolding header_ok_def by (simp add: inj_on_def)
  have ok: "header_ok ?q" using wf inj im n unfolding header_ok_def ln by (simp add: same)
  moreover have "overlay (recover_writes r E) E m = V m" if m: "m \<notin> region s"
  proof (cases "m \<in> home s ` {..<?n}")
    case True
    then obtain i where i: "i < ?n" "m = home s i" by auto
    then have "the_inv_into {..<?n} (home ?q) m = i" using the_inv_into_f_f [OF inj, of i] hm by simp
    then show ?thesis using recover_result [of E r m, OF ok] m True i im L by (simp add: same sn Let_def)
  next
    case False
    then show ?thesis using recover_result [of E r m, OF ok] m im R by (simp add: same sn Let_def)
  qed
  ultimately show ?thesis by simp
qed

section \<open>Adding a block to the transaction\<close>

text \<open>What \<open>log_write\<close> checks, and the sizes that \<open>initlog\<close> sets up.\<close>

definition log_room :: "'a lstate_scheme \<Rightarrow> bool" where
  "log_room s \<longleftrightarrow> logn s < l_size (the_log s) - 1 \<and> l_size (the_log s) \<le> int LOGSIZE \<and> l_outstanding (the_log s) \<ge> 1 \<and>
     length (lh_block (l_lh (the_log s))) = LOGSIZE"

lemma log_slot_cases:
  assumes wf: "header_ok s" and room: "log_room s"
  obtains (absorbed) i where "i < nat (logn s)" "home s i = bno" "log_slot bno (l_lh (the_log s)) = i"
  | (fresh) "bno \<notin> home s ` {..<nat (logn s)}" "log_slot bno (l_lh (the_log s)) = nat (logn s)"
proof -
  let ?n = "nat (logn s)" and ?bs = "lh_block (l_lh (the_log s))"
  have n: "?n < length ?bs" using wf room by (auto simp: header_ok_def log_room_def)
  have nth: "take ?n ?bs ! i = ?bs ! i" "of_int (?bs ! i) = home s i" if "i < ?n" for i using that by (simp_all add: home_def logblock_def)
  show thesis
  proof (cases "find_index (\<lambda>x. of_int x = bno) (take ?n ?bs)")
    case None
    then have "bno \<notin> home s ` {..<?n}" using n nth by (force simp: find_index_None in_set_conv_nth)
    then show thesis using fresh None by (simp add: log_slot_def logn_def)
  next
    case (Some i)
    then have "i < ?n" "of_int (?bs ! i) = bno" using n by (auto simp: find_index_Some)
    then show thesis using absorbed [of i] Some nth by (simp add: log_slot_def logn_def)
  qed
qed

lemma log_write_ok:
  fixes D :: "u32 \<Rightarrow> u8 list" and s :: "'a lstate_scheme"
  assumes cst: "cst s (ldev s) \<lparr>av = V, ad = D, apins = (pinned s 0)(n := Suc (pinned s 0 n)), aheld = [n \<mapsto> b], ahist = T\<rparr>"
    and wf: "header_ok s" and room: "log_room s" and n: "n \<notin> region s"
  shows "wpr (log_write b s) (\<lambda>_ s'. header_ok s' \<and> home s' ` {..<nat (logn s')} = insert n (home s ` {..<nat (logn s)}) \<and>
    logn s' = (if n \<in> home s ` {..<nat (logn s)} then logn s else logn s + 1) \<and>
    cst s' (ldev s) \<lparr>av = V, ad = D, apins = (pinned s' 0)(n := 2), aheld = [n \<mapsto> b], ahist = T\<rparr> \<and>
    (\<exists>lh. bframe (modlog (\<lambda>l. l\<lparr>l_lh := lh\<rparr>) s) s' \<and> length (lh_block lh) = LOGSIZE))"
proof -
  have bno: "b_blockno (getb b s) = n" using held_buffer(11) [OF cst, of n b] by simp
  let ?lh = "l_lh (the_log s)" let ?i = "log_slot n ?lh" let ?n = "nat (logn s)"
  let ?s = "modlog (\<lambda>l. l\<lparr>l_lh := (l_lh l)\<lparr>lh_block := (lh_block (l_lh l))[?i := sint n]\<rparr>\<rparr>) s"
  have g: "0 \<le> logn s" "logn s < l_size (the_log s) - 1" "l_size (the_log s) \<le> int LOGSIZE" "l_outstanding (the_log s) \<ge> 1"
    and len: "length (lh_block ?lh) = LOGSIZE"
    using wf room by (auto simp: header_ok_def log_room_def)
  have lw: "log_write b s = Ret () (if int ?i = logn s then modlog (\<lambda>l. l\<lparr>l_lh := (l_lh l)\<lparr>lh_n := lh_n (l_lh l) + 1\<rparr>\<rparr>) (bpin b ?s) else ?s)"
    using g by (simp add: log_write_def bno Let_def)
  have reg: "region (modlog (\<lambda>l. l\<lparr>l_lh := lh\<rparr>) s) = region s" for lh
    by (simp add: region_def hblk_def lblk_def [abs_def] modlog_def)
  show ?thesis using wf room
  proof (cases rule: log_slot_cases [where bno = n])
    case (absorbed i)
    have home: "home ?s = home s"
      using absorbed len g by (auto simp: fun_eq_iff home_def logblock_def modlog_def nth_list_update)
    have l: "logn ?s = logn s" by (simp add: logn_def modlog_def)
    have s: "?s = modlog (\<lambda>l. l\<lparr>l_lh := ?lh\<lparr>lh_block := (lh_block ?lh)[?i := sint n]\<rparr>\<rparr>) s" by (simp add: modlog_def)
    have r: "region ?s = region s" unfolding s by (rule reg)
    have in_n: "n \<in> home s ` {..<?n}" using absorbed by blast
    then have p: "pinned ?s 0 = pinned s 0" "pinned s 0 n = 1" by (auto simp: pinned_def fun_eq_iff home l atLeast0LessThan)
    have "header_ok ?s" using wf by (simp add: header_ok_def home l r)
    moreover have "bframe (modlog (\<lambda>l. l\<lparr>l_lh := ?lh\<lparr>lh_block := (lh_block ?lh)[?i := sint n]\<rparr>\<rparr>) s) ?s" unfolding s [symmetric] by simp
    moreover have "log_write b s = Ret () ?s" using absorbed g lw by auto
    ultimately show ?thesis using cst p in_n len home l
      by (auto simp: insert_absorb numeral_2_eq_2 intro!: exI [of _ "?lh\<lparr>lh_block := (lh_block ?lh)[?i := sint n]\<rparr>"])
  next
    case fresh
    let ?lh' = "\<lparr>lh_n = lh_n ?lh + 1, lh_block = (lh_block ?lh)[?n := sint n]\<rparr>"
    let ?t = "modlog (\<lambda>l. l\<lparr>l_lh := (l_lh l)\<lparr>lh_n := lh_n (l_lh l) + 1\<rparr>\<rparr>) (bpin b ?s)"
    have t: "?t = modlog (\<lambda>l. l\<lparr>l_lh := ?lh'\<rparr>) (bpin b s)" using fresh(2) by (simp add: modlog_def bpin_def modb_def)
    have l: "logn ?t = logn s + 1" unfolding t by (simp add: logn_def modlog_def bpin_def modb_def)
    have home: "home ?t = (home s)(?n := n)"
      unfolding t using len g by (auto simp: fun_eq_iff home_def logblock_def modlog_def bpin_def modb_def nth_list_update)
    have r: "region ?t = region s" unfolding t by (simp add: region_def hblk_def lblk_def [abs_def] modlog_def bpin_def modb_def)
    have nn: "{..<nat (logn s + 1)} = insert ?n {..<?n}" using g(1) by auto
    have im: "home ?t ` {..<nat (logn ?t)} = insert n (home s ` {..<?n})" unfolding home l nn by auto
    have p: "pinned ?t 0 = (pinned s 0)(n := 1)" "pinned s 0 n = 0"
      using im fresh(1) by (auto simp: pinned_def fun_eq_iff atLeast0LessThan)
    have inj: "inj_on (home ?t) {..<nat (logn ?t)}"
      unfolding home l nn using wf fresh(1) by (auto simp: header_ok_def inj_on_def)
    have "home ?t ` {..<nat (logn ?t)} \<inter> region ?t = {}" unfolding im r using wf n by (auto simp: header_ok_def)
    then have ok: "header_ok ?t" unfolding header_ok_def using inj l g by simp
    have c1: "cst (bpin b s) (ldev s) \<lparr>av = V, ad = D, apins = (pinned s 0)(n := 2), aheld = [n \<mapsto> b], ahist = T\<rparr>"
      using cst_bpin [OF cst, of n b] p(2) by (simp add: numeral_2_eq_2 [symmetric])
    have "cst ?t (ldev s) \<lparr>av = V, ad = D, apins = (pinned ?t 0)(n := 2), aheld = [n \<mapsto> b], ahist = T\<rparr>"
      unfolding p using c1 by (simp add: t)
    moreover have "bframe (modlog (\<lambda>l. l\<lparr>l_lh := ?lh'\<rparr>) s) ?t" unfolding t by (rule bframe_modlog) (simp add: bpin_def)
    moreover have "log_write b s = Ret () ?t" using fresh(2) g lw by simp
    moreover have "length (lh_block ?lh') = LOGSIZE" using len by simp
    ultimately show ?thesis using ok im l fresh(1) by (simp only: wpr.simps) auto
  qed
qed

text \<open>
  The state of a transaction: \<open>V\<close> is what its system calls see, \<open>D\<close> what is on disk; the blocks
  that differ are logged and pinned.
\<close>

definition txn :: "'a lstate_scheme \<Rightarrow> (u32 \<Rightarrow> u8 list) \<Rightarrow> (u32 \<Rightarrow> u8 list) \<Rightarrow> (u32 \<times> u8 list) list \<Rightarrow> bool" where
  "txn s V D T \<longleftrightarrow> cst s (ldev s) (quiet V D (pinned s 0) T) \<and> header_ok s \<and> layout_ok s \<and> l_size (the_log s) \<le> int LOGSIZE \<and>
     l_outstanding (the_log s) \<ge> 1 \<and> length (lh_block (l_lh (the_log s))) = LOGSIZE"

lemma txn_bread:
  assumes t: "txn s V D T"
  shows "wpr (bread (ldev s) n s) (\<lambda>b s'. bframe s s' \<and> b_data (getb b s') = V n \<and>
    cst s' (ldev s) \<lparr>av = V, ad = D, apins = (pinned s 0)(n := Suc (pinned s 0 n)), aheld = [n \<mapsto> b], ahist = T\<rparr>)"
proof -
  have c: "cst s (ldev s) (quiet V D (pinned s 0) T)" and few: "card {m. pinned s 0 m > 0} < NBUF"
    using t head_apart(5) [of s] by (auto simp: txn_def)
  have "pinned s 0 n \<le> 1" by (simp add: pinned_def)
  then have "room (quiet V D (pinned s 0) T) n" using few by (simp add: room_def quiet_def)
  then have "wpr (bread (ldev s) n s) (\<lambda>b s'.
      cst s' (ldev s) \<lparr>av = V, ad = D, apins = (pinned s 0)(n := Suc (pinned s 0 n)), aheld = [n \<mapsto> b], ahist = T\<rparr> \<and> bframe s s')"
    using cst_bread [OF c] by (simp add: quiet_def)
  then show ?thesis by (rule wpr_mono) (auto dest: held_buffer(3))
qed

text \<open>Reading, changing, logging and releasing a block is a write to \<open>V\<close>.\<close>

lemma txn_write:
  assumes t: "txn s V D T" and n: "n \<notin> region s" and room: "logn s < l_size (the_log s) - 1" and len: "length (f (V n)) = BSIZE"
  shows "wpr (rbind (bread (ldev s) n s) (\<lambda>b s. rbind (log_write b (modb b (\<lambda>x. x\<lparr>b_data := f (b_data x)\<rparr>) s)) (\<lambda>_. brelse b)))
    (\<lambda>_ s'. txn s' (V(n := f (V n))) D T \<and> home s' ` {..<nat (logn s')} = insert n (home s ` {..<nat (logn s)}) \<and>
      logn s' = (if n \<in> home s ` {..<nat (logn s)} then logn s else logn s + 1) \<and>
      (\<exists>lh. bframe (modlog (\<lambda>l. l\<lparr>l_lh := lh\<rparr>) s) s'))"
proof -
  let ?V = "V(n := f (V n))"
  obtain b s1 where b1: "bread (ldev s) n s = Ret b s1" and f1: "bframe s s1" and d1: "b_data (getb b s1) = V n"
    and c1: "cst s1 (ldev s) \<lparr>av = V, ad = D, apins = (pinned s 0)(n := Suc (pinned s 0 n)), aheld = [n \<mapsto> b], ahist = T\<rparr>"
    using txn_bread [OF t, of n] by (auto elim!: wprE)
  let ?s2 = "modb b (\<lambda>x. x\<lparr>b_data := f (V n)\<rparr>) s1"
  have s2: "modb b (\<lambda>x. x\<lparr>b_data := f (b_data x)\<rparr>) s1 = ?s2" using d1 by (intro modb_cong) simp
  have f2: "bframe s ?s2" using f1 bframe_modb by (rule bframe_trans)
  have c2: "cst ?s2 (ldev s) \<lparr>av = ?V, ad = D, apins = (pinned s 0)(n := Suc (pinned s 0 n)), aheld = [n \<mapsto> b], ahist = T\<rparr>"
    using cst_modify [OF c1, of n b "f (V n)"] len by simp
  note h2 = bframe_blocks [OF f2] bframe_header [OF f2] bframe_log [OF f2]
  have "header_ok s" "log_room ?s2" using t n room by (simp_all add: h2 txn_def log_room_def)
  from log_write_ok [of ?s2 ?V D n b T, unfolded h2, OF c2 this n] obtain s3 lh where l3: "log_write b ?s2 = Ret () s3" and ok3: "header_ok s3"
    and im: "home s3 ` {..<nat (logn s3)} = insert n (home s ` {..<nat (logn s)})"
    and ln: "logn s3 = (if n \<in> home s ` {..<nat (logn s)} then logn s else logn s + 1)"
    and c3: "cst s3 (ldev s) \<lparr>av = ?V, ad = D, apins = (pinned s3 0)(n := 2), aheld = [n \<mapsto> b], ahist = T\<rparr>"
    and f3: "bframe (modlog (\<lambda>l. l\<lparr>l_lh := lh\<rparr>) ?s2) s3" and lh: "length (lh_block lh) = LOGSIZE"
    by (elim wprE) auto
  have f3': "bframe (modlog (\<lambda>l. l\<lparr>l_lh := lh\<rparr>) s) s3" using bframe_modlog [OF f2] f3 by (rule bframe_trans)
  have p3: "pinned s3 0 n = 1" using im by (simp add: pinned_def atLeast0LessThan)
  obtain s4 where b4: "brelse b s3 = Ret () s4" and f4: "bframe s3 s4"
    and c4: "cst s4 (ldev s) \<lparr>av = ?V, ad = D, apins = (pinned s3 0)(n := 2, n := 1), aheld = [n \<mapsto> b](n := None), ahist = T\<rparr>"
    using cst_brelse [OF c3, of n b] by (auto elim!: wprE)
  have e: "(pinned s3 0)(n := 2, n := 1) = pinned s3 0" "[n \<mapsto> b](n := None) = (\<lambda>_. None)" using p3 by (auto simp: fun_eq_iff)
  have f4': "bframe (modlog (\<lambda>l. l\<lparr>l_lh := lh\<rparr>) s) s4" using f3' f4 by (rule bframe_trans)
  note h4 = bframe_blocks [OF f4] bframe_header [OF f4] and l4 = bframe_log [OF f4']
  have "ldev s4 = ldev s" "layout_ok s4" using t l4 by (simp_all add: ldev_def layout_ok_def modlog_def txn_def)
  then have "txn s4 ?V D T" using t c4 ok3 lh l4 unfolding txn_def e h4 quiet_def by (simp add: modlog_def)
  then show ?thesis using b1 l3 b4 f4' im ln h4 by (auto simp: s2)
qed

section \<open>Atomic commit\<close>

lemma cst_clean:
  assumes "cst s dev a" "apins a n = 0"
  shows "av a n = ad a n"
proof -
  note c = cstD [OF assms(1)]
  have "bview s dev n = disk s n"
  proof (cases "\<exists>i. holds s dev n i \<and> b_valid (getb i s)")
    case True
    then obtain i where i: "holds s dev n i" "b_valid (getb i s)" by blast
    then have "i < NBUF" "b_blockno (getb i s) = n" "b_refcnt (getb i s) = 0"
      using c(8) [OF i(1)] assms(2) by (simp_all add: holds_def unat_eq_zero)
    then show ?thesis using bview_cached [OF c(2,3) i] c(2) i(2) by (auto simp: cinv_def)
  qed (blast intro: bview_uncached)
  then show ?thesis using c(5) [of n] c(6) by simp
qed

text \<open>A transaction ready to commit: the logged blocks are pinned in the cache, the header on disk is empty.\<close>

definition ready_to_commit :: "'a lstate_scheme \<Rightarrow> (u32 \<Rightarrow> u8 list) \<Rightarrow> bool" where
  "ready_to_commit s V \<longleftrightarrow> cst s (ldev s) (quiet V (disk s) (pinned s 0) (dwrites s)) \<and> header_ok s \<and> layout_ok s \<and>
     logn s > 0 \<and> get_le (disk s (hblk s)) 0 4 = (0 :: u32)"

lemma commit_result:
  assumes "ready_to_commit s V"
  shows "wpr (commit s) (\<lambda>_ s'. logn s' = 0 \<and> disk s' = overlay (commit_writes s V) (disk s) \<and> dwrites s' = dwrites s @ commit_writes s V)"
proof -
  have r: "cst s (ldev s) (quiet V (disk s) (pinned s 0) (dwrites s))" "header_ok s" "layout_ok s" "logn s > 0"
    using assms by (auto simp: ready_to_commit_def)
  show ?thesis
  proof (rule wpr_mono [OF commit_ok [OF r]], goal_cases)
    case (1 x s')
    then show ?case using bframe_blocks(5) [of "clear_lh s" s'] by (auto dest!: cst_quiet simp: Let_def logn_def)
  qed
qed

lemma ready_clean:
  assumes "ready_to_commit s V" "m \<notin> home s ` {..<nat (logn s)}"
  shows "V m = disk s m"
proof -
  have "apins (quiet V (disk s) (pinned s 0) (dwrites s)) m = 0" using assms(2) by (simp add: quiet_def pinned_def atLeast0LessThan)
  then show ?thesis using cst_clean [of s "ldev s" "quiet V (disk s) (pinned s 0) (dwrites s)" m] assms(1)
    by (simp add: ready_to_commit_def quiet_def)
qed

lemma commit_crash:
  assumes r: "ready_to_commit s V" and b: "booted q s E" and E: "E = overlay (take k (commit_writes s V)) (disk s)"
  shows "wpr (recover_from_log q) (\<lambda>_ q'. (\<forall>m. m \<notin> region s \<longrightarrow> disk q' m = disk s m) \<or> (\<forall>m. m \<notin> region s \<longrightarrow> disk q' m = V m))"
proof -
  have s: "cst s (ldev s) (quiet V (disk s) (pinned s 0) (dwrites s))" "header_ok s" "layout_ok s" "get_le (disk s (hblk s)) 0 4 = (0 :: u32)"
    using r by (auto simp: ready_to_commit_def)
  have len: "length (V (hblk s)) = BSIZE" using cst_lengths(1) [OF s(1)] by (simp add: quiet_def)
  note bq = bootedD [OF b]
  let ?H = "put_head (l_lh (the_log s)) (V (hblk s))"
  have "lh_n (l_lh (the_log s)) \<le> int LOGSIZE" using s(2) by (simp add: header_ok_def logn_def)
  then have lenH: "length ?H = BSIZE" by (rule put_head_ok(1) [OF len])
  have z: "get_le (put_head ((l_lh (the_log s))\<lparr>lh_n := 0\<rparr>) ?H) 0 4 = (0 :: u32)" using put_head_ok(2) [OF lenH] by simp
  have "header_ok (loaded (E (hblk s)) q) \<and> ((\<forall>m. m \<notin> region s \<longrightarrow> overlay (recover_writes q E) E m = disk s m) \<or>
      (\<forall>m. m \<notin> region s \<longrightarrow> overlay (recover_writes q E) E m = V m))"
  proof -
    have cl: "\<And>m. m \<notin> home s ` {..<nat (logn s)} \<Longrightarrow> V m = disk s m" using ready_clean [OF r] .
    consider (old) "E (hblk s) = disk s (hblk s)" "\<forall>m. m \<notin> region s \<longrightarrow> E m = disk s m"
      | (full) "E (hblk s) = ?H" "\<forall>i<nat (logn s). E (lblk s i) = V (home s i)"
        "\<forall>m. m \<notin> region s \<longrightarrow> m \<notin> home s ` {..<nat (logn s)} \<longrightarrow> E m = V m"
      | (new) "E (hblk s) = put_head ((l_lh (the_log s))\<lparr>lh_n := 0\<rparr>) ?H" "\<forall>m. m \<notin> region s \<longrightarrow> E m = V m"
      using crash_image [of s V "disk s" E k, OF s(2,3) _ E] cl by blast
    then show ?thesis
    proof cases
      case old
      then show ?thesis using recover_empty [of E q] s(4) bq by simp
    next
      case full
      then show ?thesis using recover_full [of s V q E, OF s(2) len bq(3-5)] bq(3) by auto
    next
      case new
      then show ?thesis using recover_empty [of E q] z bq by simp
    qed
  qed
  then show ?thesis
    using recover_booted [OF b _ s(3)] by (auto elim!: wpr_mono)
qed

text \<open>A freshly booted kernel, before \<open>binit\<close>: a blank cache over a disk of zeros, the log in blocks 2 to 31.\<close>

definition log0 :: log where
  "log0 = \<lparr>l_start = 2, l_size = 30, l_outstanding = 1, l_committing = False, l_dev = 1, l_lh = \<lparr>lh_n = 0, lh_block = replicate 30 0\<rparr>\<rparr>"

definition boot0 :: lstate where
  "boot0 = \<lparr>memory = \<lambda>_. 0, freelist = 0, kend = 0x80022000, procs = [proc0\<lparr>p_state := RUNNING, p_pid := 1\<rparr>],
     initproc = Some 0, nextpid = 2, curproc = Some 0, ticks = 0,
     bufs = replicate 31 buf0, disk = (\<lambda>_. replicate BSIZE 0), dwrites = [], vq = vdisk0, the_log = log0\<rparr>"

definition zeros :: "u32 \<Rightarrow> u8 list" where
  "zeros n = replicate BSIZE 0"

lemma boot0_init:
  assumes "\<And>n. length (D n) = BSIZE"
  shows "cst (binit (boot0\<lparr>disk := D\<rparr>)) 1 (quiet D D (\<lambda>_. 0) [])" "the_log (binit (boot0\<lparr>disk := D\<rparr>)) = log0"
    "dwrites (binit (boot0\<lparr>disk := D\<rparr>)) = []" "disk (binit (boot0\<lparr>disk := D\<rparr>)) = D"
proof -
  have b: "blank (boot0\<lparr>disk := D\<rparr>)" using assms by (auto simp: blank_def boot0_def buf0_def)
  then obtain bs where bs: "binit (boot0\<lparr>disk := D\<rparr>) = boot0\<lparr>disk := D, bufs := bs\<rparr>"
    using binit_frame [of "boot0\<lparr>disk := D\<rparr>"] by (auto simp: blank_def simp del: NBUF_def)
  show "cst (binit (boot0\<lparr>disk := D\<rparr>)) 1 (quiet D D (\<lambda>_. 0) [])"
    using binit_cst(2) [OF b, of 1 0] by (simp add: boot0_def myproc_def)
  show "the_log (binit (boot0\<lparr>disk := D\<rparr>)) = log0" "dwrites (binit (boot0\<lparr>disk := D\<rparr>)) = []" "disk (binit (boot0\<lparr>disk := D\<rparr>)) = D"
    unfolding bs by (simp_all add: boot0_def)
qed

lemma log0_facts:
  assumes "the_log s = log0"
  shows "layout_ok s" "ldev s = 1" "logn s = 0" "header_ok s" "pinned s 0 = (\<lambda>_. 0)" "hblk s = 2" "l_start (the_log s) = 2"
  using assms by (simp_all add: layout_ok_def ldev_def logn_def header_ok_def pinned_def hblk_def fun_eq_iff log0_def)

lemma zeros_facts [simp]: "length (zeros n) = BSIZE" "get_le (zeros n) 0 4 = (0 :: u32)"
  by (simp_all add: zeros_def get_le_def le_get_cong [of 4 _ "\<lambda>_. 0"])

lemma boot0_txn: "txn (binit (boot0\<lparr>disk := zeros\<rparr>)) zeros zeros []"
  using boot0_init [of zeros] log0_facts [of "binit (boot0\<lparr>disk := zeros\<rparr>)"] by (simp add: txn_def) (simp add: log0_def)

text \<open>One block is written in a transaction.\<close>

definition sevens :: "u8 list" where
  "sevens = replicate BSIZE 7"

lemma sample_txn: "\<exists>s :: lstate. ready_to_commit s (zeros(100 := sevens)) \<and> disk s = zeros \<and> l_start (the_log s) = 2 \<and> ldev s = 1"
proof -
  let ?s = "binit (boot0\<lparr>disk := zeros\<rparr>)"
  note l = boot0_init(2) [of zeros, simplified]
  note f = log0_facts [OF l]
  have "(100 :: u32) \<notin> region ?s" using region_range [OF f(1)] f(7) by simp
  from txn_write [OF boot0_txn this, of "\<lambda>_. sevens"]
  obtain s lh where t: "txn s (zeros(100 := sevens)) zeros []" and n: "logn s = 1" and b: "bframe (modlog (\<lambda>l. l\<lparr>l_lh := lh\<rparr>) ?s) s"
    using f l by (auto elim!: wprE simp: sevens_def log0_def)
  have d: "l_start (the_log s) = 2" "ldev s = 1" using bframe_log [OF b] l by (simp_all add: modlog_def log0_def ldev_def)
  have c: "cst s (ldev s) (quiet (zeros(100 := sevens)) zeros (pinned s 0) [])" using t by (simp add: txn_def)
  have "ready_to_commit s (zeros(100 := sevens))" using t n c cst_quiet [OF c] by (simp add: txn_def ready_to_commit_def)
  then show ?thesis using d cst_quiet [OF c] by blast
qed

lemma overlay_length:
  "(\<And>n. length (D n) = BSIZE) \<Longrightarrow> (\<And>w. w \<in> set W \<Longrightarrow> length (snd w) = BSIZE) \<Longrightarrow> length (overlay W D n) = BSIZE"
proof (induction W rule: rev_induct)
  case (snoc w W)
  then have "length (overlay W D n) = BSIZE" "length (snd w) = BSIZE" by auto
  then show ?case by (cases w) simp
qed simp

lemma commit_writes_length:
  assumes "ready_to_commit s V" "w \<in> set (commit_writes s V)"
  shows "length (snd w) = BSIZE"
proof -
  have r: "cst s (ldev s) (quiet V (disk s) (pinned s 0) (dwrites s))" "lh_n (l_lh (the_log s)) \<le> int LOGSIZE"
    using assms(1) by (auto simp: ready_to_commit_def header_ok_def logn_def)
  have V: "length (V n) = BSIZE" for n using cst_lengths(1) [OF r(1), of n] by (simp add: quiet_def)
  note H = put_head_ok(1) [OF V r(2)]
  have "length (put_head ((l_lh (the_log s))\<lparr>lh_n := 0\<rparr>) (put_head (l_lh (the_log s)) (V n))) = BSIZE" for n
    by (rule put_head_ok(1) [OF H]) simp
  then show ?thesis using assms(2) V H by (auto simp: commit_writes_def Let_def log_writes_def)
qed

section \<open>Properties\<close>





end
