(* ===== verification/Fs.thy ===== *)
theory Fs
  imports Log
begin

text \<open>
  The file system, \<^verbatim>\<open>kernel/fs.c\<close>: block allocation, inodes, file contents, directories and
  paths. An in-memory inode is known by its slot in \<open>itable\<close>. A pointer to a local variable of
  the caller is the destination \<open>Local\<close> (the call returns the bytes stored there) or the source
  \<open>LocalSrc\<close>. Diagnostic output by \<open>printf\<close> is left out.
\<close>

section \<open>On-disk layout\<close>

definition ROOTINO :: u32 where [simp]: "ROOTINO = 1"
definition FSMAGIC :: u32 where "FSMAGIC = 0x10203040"
definition NDIRECT :: nat where [simp]: "NDIRECT = 12"
definition NINDIRECT :: nat where [simp]: "NINDIRECT = BSIZE div 4"
definition MAXFILE :: nat where [simp]: "MAXFILE = NDIRECT + NINDIRECT"
definition IPB :: nat where [simp]: "IPB = BSIZE div 64"
definition BPB :: nat where [simp]: "BPB = BSIZE * 8"
definition DIRSIZ :: nat where [simp]: "DIRSIZ = 14"
definition T_DIR :: u16 where [simp]: "T_DIR = 1"
definition T_FILE :: u16 where [simp]: "T_FILE = 2"
definition T_DEVICE :: u16 where [simp]: "T_DEVICE = 3"

record superblock =
  sb_magic :: u32
  sb_size :: u32
  sb_nblocks :: u32
  sb_ninodes :: u32
  sb_nlog :: u32
  sb_logstart :: u32
  sb_inodestart :: u32
  sb_bmapstart :: u32

record dinode =
  d_type :: u16
  d_major :: u16
  d_minor :: u16
  d_nlink :: u16
  d_size :: u32
  d_addrs :: "u32 list"

record inode =
  i_dev :: u32
  i_inum :: u32
  i_ref :: int
  i_lock :: sleeplock
  i_valid :: bool
  i_type :: u16
  i_major :: u16
  i_minor :: u16
  i_nlink :: u16
  i_size :: u32
  i_addrs :: "u32 list"

record stat =
  st_dev :: u32
  st_ino :: u32
  st_type :: u16
  st_nlink :: u16
  st_size :: u64

record fstate = lstate +
  sb :: superblock
  itable :: "inode list"

definition geti :: "nat \<Rightarrow> 'a fstate_scheme \<Rightarrow> inode" where
  "geti ip s = itable s ! ip"

definition modi :: "nat \<Rightarrow> (inode \<Rightarrow> inode) \<Rightarrow> 'a fstate_scheme \<Rightarrow> 'a fstate_scheme" where
  "modi ip f s = s\<lparr>itable := (itable s)[ip := f (itable s ! ip)]\<rparr>"

definition IBLOCK :: "u32 \<Rightarrow> superblock \<Rightarrow> u32" where
  "IBLOCK i sbk = of_nat (unat i div IPB) + sb_inodestart sbk"

definition BBLOCK :: "u32 \<Rightarrow> superblock \<Rightarrow> u32" where
  "BBLOCK b sbk = of_nat (unat b div BPB) + sb_bmapstart sbk"

text \<open>The structures as they lie in a block.\<close>

definition get_sb :: "u8 list \<Rightarrow> superblock" where
  "get_sb d = \<lparr>sb_magic = get_le d 0 4, sb_size = get_le d 4 4, sb_nblocks = get_le d 8 4, sb_ninodes = get_le d 12 4,
     sb_nlog = get_le d 16 4, sb_logstart = get_le d 20 4, sb_inodestart = get_le d 24 4, sb_bmapstart = get_le d 28 4\<rparr>"

definition dinode_off :: "u32 \<Rightarrow> nat" where
  "dinode_off inum = 64 * (unat inum mod IPB)"

definition get_dinode :: "u8 list \<Rightarrow> nat \<Rightarrow> dinode" where
  "get_dinode d ofs = \<lparr>d_type = get_le d ofs 2, d_major = get_le d (ofs + 2) 2, d_minor = get_le d (ofs + 4) 2,
     d_nlink = get_le d (ofs + 6) 2, d_size = get_le d (ofs + 8) 4,
     d_addrs = map (\<lambda>i. get_le d (ofs + 12 + 4 * i) 4) [0..<Suc NDIRECT]\<rparr>"

definition put_addrs :: "u32 list \<Rightarrow> nat \<Rightarrow> u8 list \<Rightarrow> u8 list" where
  "put_addrs as ofs d = fold (\<lambda>i d. put_le d (ofs + 4 * i) 4 (as ! i)) [0..<Suc NDIRECT] d"

definition put_dinode :: "dinode \<Rightarrow> nat \<Rightarrow> u8 list \<Rightarrow> u8 list" where
  "put_dinode di ofs d =
     put_addrs (d_addrs di) (ofs + 12)
       (put_le (put_le (put_le (put_le (put_le d ofs 2 (d_type di)) (ofs + 2) 2 (d_major di)) (ofs + 4) 2 (d_minor di))
         (ofs + 6) 2 (d_nlink di)) (ofs + 8) 4 (d_size di))"

section \<open>Superblock and blocks\<close>

definition readsb :: "u32 \<Rightarrow> 'a fstate_scheme \<Rightarrow> (unit, 'a fstate_scheme) res" where
  "readsb dev s =
     rbind (bread dev 1 s) (\<lambda>bp s. brelse bp (s\<lparr>sb := get_sb (b_data (getb bp s))\<rparr>))"

definition fsinit :: "u32 \<Rightarrow> 'a fstate_scheme \<Rightarrow> (unit, 'a fstate_scheme) res" where
  "fsinit dev s =
     rbind (readsb dev s) (\<lambda>_ s.
       if sb_magic (sb s) \<noteq> FSMAGIC then Panic ''invalid file system''
       else initlog (sint dev) (sb_logstart (sb s)) (sb_nlog (sb s)) s)"

text \<open>Setting the data of a held buffer, logging and releasing it.\<close>

definition log_and_release :: "nat \<Rightarrow> 'a fstate_scheme \<Rightarrow> (unit, 'a fstate_scheme) res" where
  "log_and_release bp s = rbind (log_write bp s) (\<lambda>_ s. brelse bp s)"

definition bzero :: "u32 \<Rightarrow> u32 \<Rightarrow> 'a fstate_scheme \<Rightarrow> (unit, 'a fstate_scheme) res" where
  "bzero dev bno s =
     rbind (bread dev bno s) (\<lambda>bp s.
       log_and_release bp (modb bp (\<lambda>x. x\<lparr>b_data := replicate BSIZE 0\<rparr>) s))"

definition bit_free :: "u8 list \<Rightarrow> nat \<Rightarrow> bool" where
  "bit_free d bi \<longleftrightarrow> d ! (bi div 8) AND push_bit (bi mod 8) 1 = 0"

definition set_bit_used :: "nat \<Rightarrow> u8 list \<Rightarrow> u8 list" where
  "set_bit_used bi d = d[bi div 8 := d ! (bi div 8) OR push_bit (bi mod 8) 1]"

definition clear_bit_used :: "nat \<Rightarrow> u8 list \<Rightarrow> u8 list" where
  "clear_bit_used bi d = d[bi div 8 := d ! (bi div 8) AND NOT (push_bit (bi mod 8) 1)]"

text \<open>The outer loop of \<open>balloc\<close> over the first block numbers of the bitmap blocks.\<close>

fun balloc_loop :: "u32 \<Rightarrow> nat list \<Rightarrow> 'a fstate_scheme \<Rightarrow> (u32, 'a fstate_scheme) res" where
  "balloc_loop dev [] s = Ret 0 s"
| "balloc_loop dev (b # bs) s =
     rbind (bread dev (BBLOCK (of_nat b) (sb s)) s) (\<lambda>bp s.
       case find (bit_free (b_data (getb bp s))) [0..<min BPB (unat (sb_size (sb s)) - b)] of
         Some bi \<Rightarrow>
           let s = modb bp (\<lambda>x. x\<lparr>b_data := set_bit_used bi (b_data x)\<rparr>) s in
           rbind (log_and_release bp s) (\<lambda>_ s.
           rbind (bzero dev (of_nat (b + bi)) s) (\<lambda>_ s. Ret (of_nat (b + bi)) s))
       | None \<Rightarrow> rbind (brelse bp s) (\<lambda>_ s. balloc_loop dev bs s))"

definition balloc :: "u32 \<Rightarrow> 'a fstate_scheme \<Rightarrow> (u32, 'a fstate_scheme) res" where
  "balloc dev s = balloc_loop dev (map ((*) BPB) [0..<(unat (sb_size (sb s)) + BPB - 1) div BPB]) s"

definition bfree :: "u32 \<Rightarrow> u32 \<Rightarrow> 'a fstate_scheme \<Rightarrow> (unit, 'a fstate_scheme) res" where
  "bfree dev b s =
     rbind (bread dev (BBLOCK b (sb s)) s) (\<lambda>bp s.
       let bi = unat b mod BPB in
       if bit_free (b_data (getb bp s)) bi then Panic ''freeing free block''
       else log_and_release bp (modb bp (\<lambda>x. x\<lparr>b_data := clear_bit_used bi (b_data x)\<rparr>) s))"

section \<open>Inodes\<close>

definition iinit :: "'a fstate_scheme \<Rightarrow> 'a fstate_scheme" where
  "iinit s = s\<lparr>itable := map (\<lambda>ip. ip\<lparr>i_lock := initsleeplock ''inode'' (i_lock ip)\<rparr>) (itable s)\<rparr>"

definition iget :: "u32 \<Rightarrow> u32 \<Rightarrow> 'a fstate_scheme \<Rightarrow> (nat, 'a fstate_scheme) res" where
  "iget dev inum s =
     (case find_index (\<lambda>ip. i_ref ip > 0 \<and> i_dev ip = dev \<and> i_inum ip = inum) (itable s) of
        Some ip \<Rightarrow> Ret ip (modi ip (\<lambda>x. x\<lparr>i_ref := i_ref x + 1\<rparr>) s)
      | None \<Rightarrow>
          (case find_index (\<lambda>ip. i_ref ip = 0) (itable s) of
             None \<Rightarrow> Panic ''iget: no inodes''
           | Some ip \<Rightarrow> Ret ip (modi ip (\<lambda>x. x\<lparr>i_dev := dev, i_inum := inum, i_ref := 1, i_valid := False\<rparr>) s)))"

fun ialloc_loop :: "u32 \<Rightarrow> u16 \<Rightarrow> nat list \<Rightarrow> 'a fstate_scheme \<Rightarrow> (nat option, 'a fstate_scheme) res" where
  "ialloc_loop dev ty [] s = Ret None s"
| "ialloc_loop dev ty (inum # inums) s =
     rbind (bread dev (IBLOCK (of_nat inum) (sb s)) s) (\<lambda>bp s.
       let ofs = dinode_off (of_nat inum) in
       if d_type (get_dinode (b_data (getb bp s)) ofs) = 0 then
         let s = modb bp (\<lambda>x. x\<lparr>b_data := put_le (blit (b_data x) ofs (replicate 64 0)) ofs 2 ty\<rparr>) s in
         rbind (log_and_release bp s) (\<lambda>_ s. rbind (iget dev (of_nat inum) s) (\<lambda>ip s. Ret (Some ip) s))
       else rbind (brelse bp s) (\<lambda>_ s. ialloc_loop dev ty inums s))"

definition ialloc :: "u32 \<Rightarrow> u16 \<Rightarrow> 'a fstate_scheme \<Rightarrow> (nat option, 'a fstate_scheme) res" where
  "ialloc dev ty s = ialloc_loop dev ty [1..<unat (sb_ninodes (sb s))] s"

definition dinode_of :: "inode \<Rightarrow> dinode" where
  "dinode_of ip = \<lparr>d_type = i_type ip, d_major = i_major ip, d_minor = i_minor ip, d_nlink = i_nlink ip,
     d_size = i_size ip, d_addrs = i_addrs ip\<rparr>"

definition iupdate :: "nat \<Rightarrow> 'a fstate_scheme \<Rightarrow> (unit, 'a fstate_scheme) res" where
  "iupdate ip s =
     rbind (bread (i_dev (geti ip s)) (IBLOCK (i_inum (geti ip s)) (sb s)) s) (\<lambda>bp s.
       log_and_release bp (modb bp (\<lambda>x. x\<lparr>b_data :=
         put_dinode (dinode_of (geti ip s)) (dinode_off (i_inum (geti ip s))) (b_data x)\<rparr>) s))"

definition idup :: "nat \<Rightarrow> 'a fstate_scheme \<Rightarrow> (nat, 'a fstate_scheme) res" where
  "idup ip s = Ret ip (modi ip (\<lambda>x. x\<lparr>i_ref := i_ref x + 1\<rparr>) s)"

text \<open>Taking the sleep lock of an inode.\<close>

definition ilock_acquire :: "nat \<Rightarrow> 'a fstate_scheme \<Rightarrow> (unit, 'a fstate_scheme) res" where
  "ilock_acquire ip s =
     rbind (acquiresleep (ChanInodeLock ip) (i_lock (geti ip s)) s) (\<lambda>lk s. Ret () (modi ip (\<lambda>x. x\<lparr>i_lock := lk\<rparr>) s))"

definition ilock_release :: "nat \<Rightarrow> 'a fstate_scheme \<Rightarrow> 'a fstate_scheme" where
  "ilock_release ip s =
     (let (lk, s) = releasesleep (ChanInodeLock ip) (i_lock (geti ip s)) s in modi ip (\<lambda>x. x\<lparr>i_lock := lk\<rparr>) s)"

definition load_dinode :: "dinode \<Rightarrow> inode \<Rightarrow> inode" where
  "load_dinode di x = x\<lparr>i_type := d_type di, i_major := d_major di, i_minor := d_minor di,
     i_nlink := d_nlink di, i_size := d_size di, i_addrs := d_addrs di\<rparr>"

definition ilock :: "nat option \<Rightarrow> 'a fstate_scheme \<Rightarrow> (unit, 'a fstate_scheme) res" where
  "ilock ipo s =
     (case ipo of None \<Rightarrow> Panic ''ilock''
      | Some ip \<Rightarrow>
          if i_ref (geti ip s) < 1 then Panic ''ilock''
          else rbind (ilock_acquire ip s) (\<lambda>_ s.
            if i_valid (geti ip s) then Ret () s
            else rbind (bread (i_dev (geti ip s)) (IBLOCK (i_inum (geti ip s)) (sb s)) s) (\<lambda>bp s.
              let di = get_dinode (b_data (getb bp s)) (dinode_off (i_inum (geti ip s))) in
              rbind (brelse bp (modi ip (load_dinode di) s)) (\<lambda>_ s.
                let s = modi ip (\<lambda>x. x\<lparr>i_valid := True\<rparr>) s in
                if i_type (geti ip s) = 0 then Panic ''ilock: no type'' else Ret () s))))"

definition iunlock :: "nat option \<Rightarrow> 'a fstate_scheme \<Rightarrow> (unit, 'a fstate_scheme) res" where
  "iunlock ipo s =
     (case ipo of None \<Rightarrow> Panic ''iunlock''
      | Some ip \<Rightarrow>
          if \<not> holdingsleep (i_lock (geti ip s)) s \<or> i_ref (geti ip s) < 1 then Panic ''iunlock''
          else Ret () (ilock_release ip s))"

text \<open>Freeing the direct blocks, then those of the indirect block.\<close>

definition itrunc_direct :: "nat \<Rightarrow> nat \<Rightarrow> 'a fstate_scheme \<Rightarrow> (unit, 'a fstate_scheme) res" where
  "itrunc_direct ip i s =
     (if i_addrs (geti ip s) ! i \<noteq> 0
      then rbind (bfree (i_dev (geti ip s)) (i_addrs (geti ip s) ! i) s) (\<lambda>_ s.
        Ret () (modi ip (\<lambda>x. x\<lparr>i_addrs := (i_addrs x)[i := 0]\<rparr>) s))
      else Ret () s)"

definition itrunc_indirect :: "nat \<Rightarrow> nat \<Rightarrow> nat \<Rightarrow> 'a fstate_scheme \<Rightarrow> (unit, 'a fstate_scheme) res" where
  "itrunc_indirect ip bp j s =
     (let a = get_le (b_data (getb bp s)) (4 * j) 4
      in if a \<noteq> 0 then bfree (i_dev (geti ip s)) a s else Ret () s)"

definition itrunc :: "nat \<Rightarrow> 'a fstate_scheme \<Rightarrow> (unit, 'a fstate_scheme) res" where
  "itrunc ip s =
     rbind (rfor [0..<NDIRECT] (itrunc_direct ip) s) (\<lambda>_ s.
     rbind
       (if i_addrs (geti ip s) ! NDIRECT \<noteq> 0 then
          rbind (bread (i_dev (geti ip s)) (i_addrs (geti ip s) ! NDIRECT) s) (\<lambda>bp s.
          rbind (rfor [0..<NINDIRECT] (itrunc_indirect ip bp) s) (\<lambda>_ s.
          rbind (brelse bp s) (\<lambda>_ s.
          rbind (bfree (i_dev (geti ip s)) (i_addrs (geti ip s) ! NDIRECT) s) (\<lambda>_ s.
            Ret () (modi ip (\<lambda>x. x\<lparr>i_addrs := (i_addrs x)[NDIRECT := 0]\<rparr>) s)))))
        else Ret () s)
       (\<lambda>_ s. iupdate ip (modi ip (\<lambda>x. x\<lparr>i_size := 0\<rparr>) s)))"

definition iput :: "nat \<Rightarrow> 'a fstate_scheme \<Rightarrow> (unit, 'a fstate_scheme) res" where
  "iput ip s =
     rbind
       (if i_ref (geti ip s) = 1 \<and> i_valid (geti ip s) \<and> i_nlink (geti ip s) = 0 then
          rbind (ilock_acquire ip s) (\<lambda>_ s.
          rbind (itrunc ip s) (\<lambda>_ s.
          rbind (iupdate ip (modi ip (\<lambda>x. x\<lparr>i_type := 0\<rparr>) s)) (\<lambda>_ s.
            Ret () (ilock_release ip (modi ip (\<lambda>x. x\<lparr>i_valid := False\<rparr>) s)))))
        else Ret () s)
       (\<lambda>_ s. Ret () (modi ip (\<lambda>x. x\<lparr>i_ref := i_ref x - 1\<rparr>) s))"

definition iunlockput :: "nat \<Rightarrow> 'a fstate_scheme \<Rightarrow> (unit, 'a fstate_scheme) res" where
  "iunlockput ip s = rbind (iunlock (Some ip) s) (\<lambda>_ s. iput ip s)"

section \<open>File contents\<close>

definition bmap :: "nat \<Rightarrow> nat \<Rightarrow> 'a fstate_scheme \<Rightarrow> (u32, 'a fstate_scheme) res" where
  "bmap ip bn s =
     (if bn < NDIRECT then
        if i_addrs (geti ip s) ! bn = 0 then
          rbind (balloc (i_dev (geti ip s)) s) (\<lambda>addr s.
            if addr = 0 then Ret 0 s
            else Ret addr (modi ip (\<lambda>x. x\<lparr>i_addrs := (i_addrs x)[bn := addr]\<rparr>) s))
        else Ret (i_addrs (geti ip s) ! bn) s
      else let bn = bn - NDIRECT in
      if bn < NINDIRECT then
        rbind
          (if i_addrs (geti ip s) ! NDIRECT = 0 then
             rbind (balloc (i_dev (geti ip s)) s) (\<lambda>addr s.
               if addr = 0 then Ret 0 s
               else Ret addr (modi ip (\<lambda>x. x\<lparr>i_addrs := (i_addrs x)[NDIRECT := addr]\<rparr>) s))
           else Ret (i_addrs (geti ip s) ! NDIRECT) s)
          (\<lambda>addr s. if addr = 0 then Ret 0 s else
             rbind (bread (i_dev (geti ip s)) addr s) (\<lambda>bp s.
               let addr = get_le (b_data (getb bp s)) (4 * bn) 4 in
               rbind
                 (if addr = 0 then
                    rbind (balloc (i_dev (geti ip s)) s) (\<lambda>addr s.
                      if addr \<noteq> 0 then
                        rbind (log_write bp (modb bp (\<lambda>x. x\<lparr>b_data := put_le (b_data x) (4 * bn) 4 addr\<rparr>) s)) (\<lambda>_ s. Ret addr s)
                      else Ret addr s)
                  else Ret addr s)
                 (\<lambda>addr s. rbind (brelse bp s) (\<lambda>_ s. Ret addr s))))
      else Panic ''bmap: out of range'')"

definition stati :: "nat \<Rightarrow> 'a fstate_scheme \<Rightarrow> stat" where
  "stati ip s = (let x = geti ip s in
     \<lparr>st_dev = i_dev x, st_ino = i_inum x, st_type = i_type x, st_nlink = i_nlink x, st_size = ucast (i_size x)\<rparr>)"

datatype dest = UserDst u64 | KernDst u64 | Local
datatype source = UserSrc u64 | LocalSrc "u8 list"

fun deliver :: "dest \<Rightarrow> u8 list \<Rightarrow> 'a fstate_scheme \<Rightarrow> (int, 'a fstate_scheme) res" where
  "deliver (UserDst a) bs s = either_copyout True a bs s"
| "deliver (KernDst a) bs s = either_copyout False a bs s"
| "deliver Local bs s = Ret 0 s"

fun dest_plus :: "dest \<Rightarrow> nat \<Rightarrow> dest" where
  "dest_plus (UserDst a) m = UserDst (a + of_nat m)"
| "dest_plus (KernDst a) m = KernDst (a + of_nat m)"
| "dest_plus Local m = Local"

fun fetch :: "source \<Rightarrow> nat \<Rightarrow> 'a fstate_scheme \<Rightarrow> (int \<times> u8 list, 'a fstate_scheme) res" where
  "fetch (UserSrc a) m s = either_copyin True a m s"
| "fetch (LocalSrc bs) m s = Ret (0, take m bs) s"

fun source_plus :: "source \<Rightarrow> nat \<Rightarrow> source" where
  "source_plus (UserSrc a) m = UserSrc (a + of_nat m)"
| "source_plus (LocalSrc bs) m = LocalSrc (drop m bs)"

text \<open>
  The loop of \<open>readi\<close>, \<open>left\<close> bytes before its end; the entry check has excluded wrap-around
  of \<open>off\<close>, which is a number here. Its value is the return value and the bytes delivered.
\<close>

function readi_loop :: "nat \<Rightarrow> dest \<Rightarrow> nat \<Rightarrow> nat \<Rightarrow> nat \<Rightarrow> u8 list \<Rightarrow> 'a fstate_scheme \<Rightarrow> (int \<times> u8 list, 'a fstate_scheme) res" where
  "readi_loop ip dst off left tot acc s =
     (if left = 0 then Ret (s32 (int tot), acc) s
      else rbind (bmap ip (off div BSIZE) s) (\<lambda>addr s.
        if addr = 0 then Ret (s32 (int tot), acc) s
        else rbind (bread (i_dev (geti ip s)) addr s) (\<lambda>bp s.
          let m = min left (BSIZE - off mod BSIZE); bs = take m (drop (off mod BSIZE) (b_data (getb bp s))) in
          rbind (deliver dst bs s) (\<lambda>r s.
            if r = -1 then rbind (brelse bp s) (\<lambda>_ s. Ret (-1, acc) s)
            else rbind (brelse bp s) (\<lambda>_ s.
              readi_loop ip (dest_plus dst m) (off + m) (left - m) (tot + m) (acc @ bs) s)))))"
  by pat_completeness auto
termination
  by (relation "measure (\<lambda>(ip, dst, off, left, tot, acc, s). left)") (auto simp: min_def)

declare readi_loop.simps [simp del]

definition readi :: "nat \<Rightarrow> dest \<Rightarrow> u32 \<Rightarrow> u32 \<Rightarrow> 'a fstate_scheme \<Rightarrow> (int \<times> u8 list, 'a fstate_scheme) res" where
  "readi ip dst off n s =
     (if off > i_size (geti ip s) \<or> off + n < off then Ret (0, []) s
      else let n = (if off + n > i_size (geti ip s) then i_size (geti ip s) - off else n)
           in readi_loop ip dst (unat off) (unat n) 0 [] s)"

text \<open>The loop of \<open>writei\<close>; its value is the number of bytes written.\<close>

function writei_loop :: "nat \<Rightarrow> source \<Rightarrow> nat \<Rightarrow> nat \<Rightarrow> nat \<Rightarrow> 'a fstate_scheme \<Rightarrow> (nat, 'a fstate_scheme) res" where
  "writei_loop ip src off left tot s =
     (if left = 0 then Ret tot s
      else rbind (bmap ip (off div BSIZE) s) (\<lambda>addr s.
        if addr = 0 then Ret tot s
        else rbind (bread (i_dev (geti ip s)) addr s) (\<lambda>bp s.
          let m = min left (BSIZE - off mod BSIZE) in
          rbind (fetch src m s) (\<lambda>(r, bs) s.
            let s = modb bp (\<lambda>x. x\<lparr>b_data := blit (b_data x) (off mod BSIZE) bs\<rparr>) s in
            if r = -1 then rbind (brelse bp s) (\<lambda>_ s. Ret tot s)
            else rbind (log_write bp s) (\<lambda>_ s. rbind (brelse bp s) (\<lambda>_ s.
              writei_loop ip (source_plus src m) (off + m) (left - m) (tot + m) s))))))"
  by pat_completeness auto
termination
  by (relation "measure (\<lambda>(ip, src, off, left, tot, s). left)") (auto simp: min_def)

declare writei_loop.simps [simp del]

definition writei :: "nat \<Rightarrow> source \<Rightarrow> u32 \<Rightarrow> u32 \<Rightarrow> 'a fstate_scheme \<Rightarrow> (int, 'a fstate_scheme) res" where
  "writei ip src off n s =
     (if off > i_size (geti ip s) \<or> off + n < off then Ret (-1) s
      else if unat (off + n) > MAXFILE * BSIZE then Ret (-1) s
      else rbind (writei_loop ip src (unat off) (unat n) 0 s) (\<lambda>tot s.
        let end_off = off + of_nat tot;
            s = (if end_off > i_size (geti ip s) then modi ip (\<lambda>x. x\<lparr>i_size := end_off\<rparr>) s else s)
        in rbind (iupdate ip s) (\<lambda>_ s. Ret (s32 (int tot)) s)))"

section \<open>Directories\<close>

text \<open>A string as an array of bytes: the bytes given, then the terminator.\<close>

definition chars :: "u8 list \<Rightarrow> nat \<Rightarrow> u8" where
  "chars xs i = (if i < length xs then xs ! i else 0)"

definition namecmp :: "u8 list \<Rightarrow> u8 list \<Rightarrow> int" where
  "namecmp s t = strncmp (chars s) (chars t) 0 DIRSIZ"

text \<open>A directory entry: 2 bytes of inode number, 14 bytes of name.\<close>

definition de_inum :: "u8 list \<Rightarrow> u16" where "de_inum de = get_le de 0 2"
definition de_name :: "u8 list \<Rightarrow> u8 list" where "de_name de = take DIRSIZ (drop 2 de)"
definition dirent :: "u16 \<Rightarrow> u8 list \<Rightarrow> u8 list" where
  "dirent inum name = map (le_byte inum) [0..<2] @ name"

definition dir_offsets :: "u32 \<Rightarrow> nat list" where
  "dir_offsets sz = map ((*) 16) [0..<(unat sz + 15) div 16]"

fun dirlookup_loop :: "nat \<Rightarrow> u8 list \<Rightarrow> nat list \<Rightarrow> 'a fstate_scheme \<Rightarrow> ((nat \<times> nat) option, 'a fstate_scheme) res" where
  "dirlookup_loop dp name [] s = Ret None s"
| "dirlookup_loop dp name (off # offs) s =
     rbind (readi dp Local (of_nat off) 16 s) (\<lambda>(r, de) s.
       if r \<noteq> 16 then Panic ''dirlookup read''
       else if de_inum de = 0 then dirlookup_loop dp name offs s
       else if namecmp name (de_name de) = 0
       then rbind (iget (i_dev (geti dp s)) (ucast (de_inum de)) s) (\<lambda>ip s. Ret (Some (ip, off)) s)
       else dirlookup_loop dp name offs s)"

text \<open>The inode found and the offset of its entry.\<close>

definition dirlookup :: "nat \<Rightarrow> u8 list \<Rightarrow> 'a fstate_scheme \<Rightarrow> ((nat \<times> nat) option, 'a fstate_scheme) res" where
  "dirlookup dp name s =
     (if i_type (geti dp s) \<noteq> T_DIR then Panic ''dirlookup not DIR''
      else dirlookup_loop dp name (dir_offsets (i_size (geti dp s))) s)"

text \<open>The offset at which \<open>dirlink\<close>'s search for an empty entry stops.\<close>

fun dirlink_loop :: "nat \<Rightarrow> nat list \<Rightarrow> nat \<Rightarrow> 'a fstate_scheme \<Rightarrow> (nat, 'a fstate_scheme) res" where
  "dirlink_loop dp [] end_off s = Ret end_off s"
| "dirlink_loop dp (off # offs) end_off s =
     rbind (readi dp Local (of_nat off) 16 s) (\<lambda>(r, de) s.
       if r \<noteq> 16 then Panic ''dirlink read''
       else if de_inum de = 0 then Ret off s else dirlink_loop dp offs end_off s)"

definition dirlink :: "nat \<Rightarrow> u8 list \<Rightarrow> u32 \<Rightarrow> 'a fstate_scheme \<Rightarrow> (int, 'a fstate_scheme) res" where
  "dirlink dp name inum s =
     rbind (dirlookup dp name s) (\<lambda>r s.
       case r of
         Some (ip, _) \<Rightarrow> rbind (iput ip s) (\<lambda>_ s. Ret (-1) s)
       | None \<Rightarrow>
           let offs = dir_offsets (i_size (geti dp s)) in
           rbind (dirlink_loop dp offs (16 * length offs) s) (\<lambda>off s.
             let de = dirent (ucast inum) (strncpy (chars name) 0 DIRSIZ) in
             rbind (writei dp (LocalSrc de) (of_nat off) 16 s) (\<lambda>r s.
               if r \<noteq> 16 then Ret (-1) s else Ret 0 s)))"

section \<open>Paths\<close>

definition slash :: u8 where "slash = 47"

text \<open>
  A path is the list of its characters up to its terminator (or beyond); \<open>skipelem\<close> gives the rest
  of the path and the new contents of \<open>name\<close>.
\<close>

definition skipelem :: "u8 list \<Rightarrow> u8 list \<Rightarrow> (u8 list \<times> u8 list) option" where
  "skipelem path name =
     (let path = dropWhile (\<lambda>c. c = slash) path in
      if chars path 0 = 0 then None
      else let s = path; path = dropWhile (\<lambda>c. c \<noteq> slash \<and> c \<noteq> 0) path; len = length s - length path;
               name = (if len \<ge> DIRSIZ then blit name 0 (take DIRSIZ s) else blit name 0 (take len s @ [0]))
           in Some (dropWhile (\<lambda>c. c = slash) path, name))"

lemma skipelem_shorter: "skipelem path name = Some (path', name') \<Longrightarrow> length path' < length path"
proof -
  assume a: "skipelem path name = Some (path', name')"
  let ?s = "dropWhile (\<lambda>c. c = slash) path"
  have "?s \<noteq> []" and hd: "hd ?s \<noteq> 0" using a
    by (auto simp: skipelem_def Let_def chars_def hd_conv_nth split: if_splits)
  moreover have "hd ?s \<noteq> slash" using hd_dropWhile [OF \<open>?s \<noteq> []\<close>] by simp
  ultimately have "length (dropWhile (\<lambda>c. c \<noteq> slash \<and> c \<noteq> 0) ?s) < length ?s"
    by (cases ?s) (auto simp: le_imp_less_Suc length_dropWhile_le)
  moreover have "length path' \<le> length (dropWhile (\<lambda>c. c \<noteq> slash \<and> c \<noteq> 0) ?s)"
    using a by (auto simp: skipelem_def Let_def length_dropWhile_le split: if_splits)
  moreover have "length ?s \<le> length path" by (rule length_dropWhile_le)
  ultimately show ?thesis by simp
qed

text \<open>The walk of \<open>namex\<close>: the inode reached, if any, and the last contents of \<open>name\<close>.\<close>

function namex_loop :: "nat \<Rightarrow> u8 list \<Rightarrow> bool \<Rightarrow> u8 list \<Rightarrow> 'a fstate_scheme \<Rightarrow> (nat option \<times> u8 list, 'a fstate_scheme) res" where
  "namex_loop ip path nameiparent name s =
     (case skipelem path name of
        None \<Rightarrow>
          if nameiparent then rbind (iput ip s) (\<lambda>_ s. Ret (None, name) s) else Ret (Some ip, name) s
      | Some (path', name') \<Rightarrow>
          rbind (ilock (Some ip) s) (\<lambda>_ s.
            if i_type (geti ip s) \<noteq> T_DIR then rbind (iunlockput ip s) (\<lambda>_ s. Ret (None, name') s)
            else if nameiparent \<and> chars path' 0 = 0 then rbind (iunlock (Some ip) s) (\<lambda>_ s. Ret (Some ip, name') s)
            else rbind (dirlookup ip name' s) (\<lambda>r s.
              case r of
                None \<Rightarrow> rbind (iunlockput ip s) (\<lambda>_ s. Ret (None, name') s)
              | Some (nxt, _) \<Rightarrow> rbind (iunlockput ip s) (\<lambda>_ s. namex_loop nxt path' nameiparent name' s))))"
  by pat_completeness auto
termination
  by (relation "measure (\<lambda>(ip, path, np, name, s). length path)") (auto dest: skipelem_shorter)

declare namex_loop.simps [simp del]

definition namex :: "u8 list \<Rightarrow> bool \<Rightarrow> u8 list \<Rightarrow> 'a fstate_scheme \<Rightarrow> (nat option \<times> u8 list, 'a fstate_scheme) res" where
  "namex path nameiparent name s =
     rbind
       (if chars path 0 = slash then iget ROOTDEV ROOTINO s
        else with_myproc s (\<lambda>p. case p_cwd (getp p s) of None \<Rightarrow> Panic ''kerneltrap'' | Some d \<Rightarrow> idup d s))
       (\<lambda>ip s. namex_loop ip path nameiparent name s)"

definition namei :: "u8 list \<Rightarrow> 'a fstate_scheme \<Rightarrow> (nat option, 'a fstate_scheme) res" where
  "namei path s = rbind (namex path False (replicate DIRSIZ 0) s) (\<lambda>(ip, _) s. Ret ip s)"

definition nameiparent :: "u8 list \<Rightarrow> u8 list \<Rightarrow> 'a fstate_scheme \<Rightarrow> (nat option \<times> u8 list, 'a fstate_scheme) res" where
  "nameiparent path name s = namex path True name s"

end
