(* ===== verification/Fs_Alloc.thy ===== *)
theory Fs_Alloc
  imports Fs Log_Safe
begin

text \<open>
  Block allocation inside a transaction. \<open>txn s V D T\<close> says that a transaction is open, that \<open>V\<close> is what the file system
  reads, and that the disk still holds \<open>D\<close>. The operations of \<^verbatim>\<open>kernel/fs.c\<close> on the bitmap are specified by what they
  do to \<open>V\<close>; the log makes the changes atomic.
\<close>

section \<open>Reading and changing blocks\<close>

definition same_fs :: "'a fstate_scheme \<Rightarrow> 'a fstate_scheme \<Rightarrow> bool" where
  "same_fs s s' \<longleftrightarrow> sb s' = sb s \<and> itable s' = itable s \<and> ldev s' = ldev s \<and> region s' = region s \<and> l_size (the_log s') = l_size (the_log s)"

lemma same_fs_refl [simp]: "same_fs s s"
  by (simp add: same_fs_def)

lemma same_fs_trans: "same_fs s t \<Longrightarrow> same_fs t u \<Longrightarrow> same_fs s u"
  by (simp add: same_fs_def)

lemma bframe_same_fs: "bframe s s' \<Longrightarrow> same_fs s s'"
  using bframe_header(1) [of s s'] bframe_blocks(1) [of s s'] bframe_log [of s s'] by (auto simp: same_fs_def bframe_def)

lemma modlog_same_fs: "same_fs s (modlog (\<lambda>l. l\<lparr>l_lh := lh\<rparr>) s)"
  by (simp add: same_fs_def modlog_def ldev_def region_def hblk_def lblk_def [abs_def])

text \<open>Blocks can be read whenever the cache has room, inside a transaction or not; reading changes nothing that can be read.\<close>

definition reading :: "'a lstate_scheme \<Rightarrow> (u32 \<Rightarrow> u8 list) \<Rightarrow> (u32 \<Rightarrow> u8 list) \<Rightarrow> (u32 \<Rightarrow> nat) \<Rightarrow> (u32 \<times> u8 list) list \<Rightarrow> bool" where
  "reading s V D P T \<longleftrightarrow> cst s (ldev s) (quiet V D P T) \<and> (\<forall>n. room (quiet V D P T) n)"

lemma txn_reading:
  assumes "txn s V D T"
  shows "reading s V D (pinned s 0) T"
proof -
  have "card {m. pinned s 0 m > 0} < NBUF" using assms head_apart(5) [of s] by (auto simp: txn_def)
  moreover have "pinned s 0 n < 2 ^ 32 - 1" for n by (simp add: pinned_def)
  ultimately show ?thesis using assms by (auto simp: reading_def txn_def room_def quiet_def)
qed

lemma reading_read:
  assumes "reading s V D P T"
  obtains b s1 s2 where "bread (ldev s) n s = Ret b s1" "b_data (getb b s1) = V n" "bframe s s1"
    "brelse b s1 = Ret () s2" "bframe s s2" "reading s2 V D P T"
proof -
  have c: "cst s (ldev s) (quiet V D P T)" "room (quiet V D P T) n" using assms by (auto simp: reading_def)
  obtain b s1 where b: "bread (ldev s) n s = Ret b s1" "bframe s s1"
    and c1: "cst s1 (ldev s) \<lparr>av = V, ad = D, apins = P(n := Suc (P n)), aheld = [n \<mapsto> b], ahist = T\<rparr>"
    using cst_bread [OF c(1) _ c(2)] by (auto simp: quiet_def elim!: wprE)
  have "P n = 0 \<Longrightarrow> V n = D n" using cst_clean [OF c(1), of n] by (simp add: quiet_def)
  then have clean: "Suc (P n) > 1 \<or> V n = D n" by auto
  obtain s2 where b2: "brelse b s1 = Ret () s2" and f2: "bframe s1 s2"
    and c2: "cst s2 (ldev s) \<lparr>av = V, ad = D, apins = P(n := Suc (P n), n := P n), aheld = [n \<mapsto> b](n := None), ahist = T\<rparr>"
    using cst_brelse [OF c1, of n b] clean by (auto elim!: wprE)
  have e: "P(n := Suc (P n), n := P n) = P" "[n \<mapsto> b](n := None) = (\<lambda>_. None)" by (auto simp: fun_eq_iff)
  have f: "bframe s s2" using b(2) f2 by (rule bframe_trans)
  have "reading s2 V D P T" using assms c2 unfolding reading_def e bframe_blocks(1) [OF f] quiet_def by (elim conjE) (intro conjI)
  moreover have "b_data (getb b s1) = V n" using held_buffer(3) [OF c1, of n b] by simp
  ultimately show ?thesis using that b b2 f by blast
qed

lemma txn_release:
  assumes t: "txn s V D T" and b: "bread (ldev s) n s = Ret b s1"
  shows "wpr (brelse b s1) (\<lambda>_ s'. txn s' V D T \<and> bframe s s')"
proof -
  obtain b' s1' s2 where r: "bread (ldev s) n s = Ret b' s1'" "brelse b' s1' = Ret () s2" "bframe s s2"
    "reading s2 V D (pinned s 0) T" using reading_read [OF txn_reading [OF t], of n] .
  note h = bframe_blocks [OF r(3)] bframe_header [OF r(3)] bframe_log [OF r(3)]
  have "txn s2 V D T" using t r(4) unfolding txn_def h reading_def by simp
  then show ?thesis using b r by simp
qed

lemma txn_modify:
  assumes t: "txn s V D T" and b: "bread (ldev s) n s = Ret b s1"
    and n: "n \<notin> region s" "logn s < l_size (the_log s) - 1" "length (f (V n)) = BSIZE"
  shows "wpr (log_and_release b (modb b (\<lambda>x. x\<lparr>b_data := f (b_data x)\<rparr>) s1))
    (\<lambda>_ s'. txn s' (V(n := f (V n))) D T \<and> same_fs s s' \<and> logn s' \<le> logn s + 1)"
proof -
  have "wpr (log_and_release b (modb b (\<lambda>x. x\<lparr>b_data := f (b_data x)\<rparr>) s1))
    (\<lambda>_ s'. txn s' (V(n := f (V n))) D T \<and> home s' ` {..<nat (logn s')} = insert n (home s ` {..<nat (logn s)}) \<and>
      logn s' = (if n \<in> home s ` {..<nat (logn s)} then logn s else logn s + 1) \<and>
      (\<exists>lh. bframe (modlog (\<lambda>l. l\<lparr>l_lh := lh\<rparr>) s) s'))"
    using txn_write [where f = f, OF t n] unfolding b log_and_release_def by (simp only: rbind.simps)
  then show ?thesis
  proof (rule wpr_mono)
    fix x s'
    assume a: "txn s' (V(n := f (V n))) D T \<and> home s' ` {..<nat (logn s')} = insert n (home s ` {..<nat (logn s)}) \<and>
      logn s' = (if n \<in> home s ` {..<nat (logn s)} then logn s else logn s + 1) \<and> (\<exists>lh. bframe (modlog (\<lambda>l. l\<lparr>l_lh := lh\<rparr>) s) s')"
    then obtain lh where "bframe (modlog (\<lambda>l. l\<lparr>l_lh := lh\<rparr>) s) s'" by blast
    then have "same_fs s s'" using same_fs_trans [OF modlog_same_fs bframe_same_fs] by blast
    then show "txn s' (V(n := f (V n))) D T \<and> same_fs s s' \<and> logn s' \<le> logn s + 1" using a by simp
  qed
qed

lemma bzero_ok:
  assumes t: "txn s V D T" and n: "n \<notin> region s" "logn s < l_size (the_log s) - 1"
  shows "wpr (bzero (ldev s) n s) (\<lambda>_ s'. txn s' (V(n := replicate BSIZE 0)) D T \<and> same_fs s s' \<and> logn s' \<le> logn s + 1)"
proof -
  obtain b s1 where b: "bread (ldev s) n s = Ret b s1" using txn_bread [OF t, of n] by (auto elim!: wprE)
  then show ?thesis using txn_modify [OF t b n, of "\<lambda>_. replicate BSIZE 0"] by (simp add: bzero_def)
qed


section \<open>The bitmap\<close>

definition bit_of :: "superblock \<Rightarrow> (u32 \<Rightarrow> u8 list) \<Rightarrow> nat \<Rightarrow> bool" where
  "bit_of sbk V b \<longleftrightarrow> bit_free (V (BBLOCK (of_nat b) sbk)) (b mod BPB)"

text \<open>The first free block, in the order of the search, and what allocating it makes of the blocks.\<close>

definition candidates :: "superblock \<Rightarrow> nat list \<Rightarrow> (nat \<times> nat) list" where
  "candidates sbk bs = concat (map (\<lambda>b. map (Pair b) [0..<min BPB (unat (sb_size sbk) - b)]) bs)"

definition allocated :: "superblock \<Rightarrow> (u32 \<Rightarrow> u8 list) \<Rightarrow> nat \<times> nat \<Rightarrow> u32 \<Rightarrow> u8 list" where
  "allocated sbk V = (\<lambda>(b, bi). let n = BBLOCK (of_nat b) sbk in
     (V(n := set_bit_used bi (V n)))(of_nat (b + bi) := replicate BSIZE 0))"

lemma find_append: "find P (xs @ ys) = (case find P xs of None \<Rightarrow> find P ys | Some x \<Rightarrow> Some x)"
  by (induction xs) auto

lemma find_map: "find P (map f xs) = map_option f (find (P \<circ> f) xs)"
  by (induction xs) auto

lemma balloc_loop_ok:
  assumes "txn s V D T" "logn s < l_size (the_log s) - 2" "\<forall>b\<in>set bs. BBLOCK (of_nat b) (sb s) \<notin> region s"
    and "\<forall>n. length (V n) = BSIZE" "\<forall>(b, bi)\<in>set (candidates (sb s) bs). bit_free (V (BBLOCK (of_nat b) (sb s))) bi \<longrightarrow> of_nat (b + bi) \<notin> region s"
  shows "wpr (balloc_loop (ldev s) bs s) (\<lambda>r s'. same_fs s s' \<and>
    (case find (\<lambda>(b, bi). bit_free (V (BBLOCK (of_nat b) (sb s))) bi) (candidates (sb s) bs) of
       None \<Rightarrow> r = 0 \<and> txn s' V D T
     | Some (b, bi) \<Rightarrow> r = of_nat (b + bi) \<and> txn s' (allocated (sb s) V (b, bi)) D T))"
  using assms
proof (induction bs arbitrary: s)
  case Nil
  then show ?case by (simp add: candidates_def)
next
  case (Cons b bs)
  let ?n = "BBLOCK (of_nat b) (sb s)" and ?r = "[0..<min BPB (unat (sb_size (sb s)) - b)]"
  let ?P = "\<lambda>(b, bi). bit_free (V (BBLOCK (of_nat b) (sb s))) bi"
  obtain bp s1 where b: "bread (ldev s) ?n s = Ret bp s1" and d: "b_data (getb bp s1) = V ?n" and f1: "bframe s s1"
    using txn_bread [OF Cons.prems(1), of ?n] by (auto elim!: wprE)
  have sb1: "sb s1 = sb s" using bframe_same_fs [OF f1] by (simp add: same_fs_def)
  have c: "candidates (sb s) (b # bs) = map (Pair b) ?r @ candidates (sb s) bs" by (simp add: candidates_def)
  have o: "?P \<circ> Pair b = bit_free (V ?n)" by (simp add: fun_eq_iff)
  show ?case
  proof (cases "find (bit_free (V ?n)) ?r")
    case None
    then have fd: "find ?P (candidates (sb s) (b # bs)) = find ?P (candidates (sb s) bs)" by (simp add: c find_append find_map o)
    obtain s2 where r: "brelse bp s1 = Ret () s2" "txn s2 V D T" "bframe s s2"
      using txn_release [OF Cons.prems(1) b] by (auto elim!: wprE)
    note f2 = bframe_same_fs [OF r(3), unfolded same_fs_def] and l2 = bframe_blocks(5) [OF r(3)]
    have w: "wpr (balloc_loop (ldev s2) bs s2) (\<lambda>r s'. same_fs s2 s' \<and>
      (case find (\<lambda>(b, bi). bit_free (V (BBLOCK (of_nat b) (sb s2))) bi) (candidates (sb s2) bs) of
         None \<Rightarrow> r = 0 \<and> txn s' V D T
       | Some (b, bi) \<Rightarrow> r = of_nat (b + bi) \<and> txn s' (allocated (sb s2) V (b, bi)) D T))"
      using Cons.prems f2 l2 by (intro Cons.IH [OF r(2)]) (auto simp: c)
    have e: "balloc_loop (ldev s) (b # bs) s = balloc_loop (ldev s2) bs s2"
      using None f2 by (simp add: b d sb1 r(1))
    have "same_fs s2 t \<longleftrightarrow> same_fs s t" "sb s2 = sb s" for t using f2 by (simp_all add: same_fs_def)
    then show ?thesis using w unfolding fd e by presburger
  next
    case (Some bi)
    then have fd: "find ?P (candidates (sb s) (b # bs)) = Some (b, bi)" by (simp add: c find_append find_map o)
    have "(b, bi) \<in> set (candidates (sb s) (b # bs)) \<and> bit_free (V ?n) bi" using fd by (auto simp: find_Some_iff) (metis nth_mem)
    then have nb: "of_nat (b + bi) \<notin> region s" using Cons.prems(5) by blast
    obtain s2 where r: "log_and_release bp (modb bp (\<lambda>x. x\<lparr>b_data := set_bit_used bi (b_data x)\<rparr>) s1) = Ret () s2"
        "txn s2 (V(?n := set_bit_used bi (V ?n))) D T" "same_fs s s2" "logn s2 \<le> logn s + 1"
      using txn_modify [OF Cons.prems(1) b, of "set_bit_used bi"] Cons.prems(2-4) by (auto elim!: wprE simp: set_bit_used_def)
    have "wpr (bzero (ldev s2) (of_nat (b + bi)) s2) (\<lambda>_ s'. txn s' (allocated (sb s) V (b, bi)) D T \<and> same_fs s2 s' \<and> logn s' \<le> logn s2 + 1)"
      using bzero_ok [OF r(2), of "of_nat (b + bi)"] nb r(3,4) Cons.prems(2) by (simp add: same_fs_def allocated_def Let_def)
    then have "wpr (bzero (ldev s) (of_nat (b + bi)) s2) (\<lambda>_ s'. txn s' (allocated (sb s) V (b, bi)) D T \<and> same_fs s s')"
      using r(3) by (auto simp: same_fs_def elim!: wpr_mono)
    then obtain s3 where "bzero (ldev s) (of_nat (b + bi)) s2 = Ret () s3" "txn s3 (allocated (sb s) V (b, bi)) D T" "same_fs s s3"
      by (auto elim!: wprE)
    then show ?thesis unfolding fd using Some by (simp add: b d sb1 r(1) Let_def)
  qed
qed


text \<open>The search visits the blocks in order.\<close>

lemma candidates_upt:
  "candidates sbk (map ((*) BPB) [0..<m]) = map (\<lambda>x. (BPB * (x div BPB), x mod BPB)) [0..<min (BPB * m) (unat (sb_size sbk))]"
proof (induction m)
  case 0
  then show ?case by (simp add: candidates_def)
next
  case (Suc m)
  let ?sz = "unat (sb_size sbk)" and ?g = "\<lambda>x. (BPB * (x div BPB), x mod BPB)"
  have "[0..<min (BPB * Suc m) ?sz] = [0..<min (BPB * m) ?sz] @ map ((+) (BPB * m)) [0..<min BPB (?sz - BPB * m)]"
  proof (cases "BPB * m \<le> ?sz")
    case True
    then have "min (BPB * m) ?sz = BPB * m" "min (BPB * Suc m) ?sz = BPB * m + min BPB (?sz - BPB * m)" by simp_all
    moreover have "map ((+) (BPB * m)) [0..<k] = [BPB * m..<BPB * m + k]" for k
    proof -
      have "map ((+) (BPB * m)) [0..<k] = map (\<lambda>i. i + BPB * m) [0..<k]" by simp
      also have "\<dots> = [BPB * m..<BPB * m + k]" using map_add_upt [of "BPB * m" k] by (simp only: add.commute)
      finally show ?thesis .
    qed
    ultimately show ?thesis using upt_add_eq_append [of 0 "BPB * m" "min BPB (?sz - BPB * m)"] by (simp only: le0 if_True)
  qed simp
  moreover have "map ?g (map ((+) (BPB * m)) [0..<min BPB (?sz - BPB * m)]) = map (Pair (BPB * m)) [0..<min BPB (?sz - BPB * m)]"
    by (simp add: comp_def)
  moreover have "candidates sbk (map ((*) BPB) [0..<Suc m]) = candidates sbk (map ((*) BPB) [0..<m]) @ map (Pair (BPB * m)) [0..<min BPB (?sz - BPB * m)]"
    by (simp add: candidates_def)
  ultimately show ?case using Suc by (simp only: map_append)
qed

lemma len_u32: "LENGTH(32) = 32"
  by simp

lemma BBLOCK_round: "x < 2 ^ 32 \<Longrightarrow> BBLOCK (of_nat (BPB * (x div BPB))) sbk = BBLOCK (of_nat x) sbk"
proof -
  assume x: "x < 2 ^ 32"
  then have "BPB * (x div BPB) < 2 ^ 32" by (metis le_less_trans times_div_less_eq_dividend)
  then have "unat (of_nat (BPB * (x div BPB)) :: u32) = BPB * (x div BPB)" "unat (of_nat x :: u32) = x"
    using x unat_of_nat_lt [where 'a = 32, unfolded len_u32] by blast+
  then show ?thesis by (simp only: BBLOCK_def) simp
qed

lemma bit_free_iff: "bit_free d bi \<longleftrightarrow> \<not> bit (d ! (bi div 8)) (bi mod 8)"
  by (simp add: bit_free_def push_bit_of_1 and_exp_eq_0_iff_not_bit)

lemma bit_free_set:
  "bi div 8 < length d \<Longrightarrow> bit_free (set_bit_used bi d) bj \<longleftrightarrow> bj \<noteq> bi \<and> bit_free d bj"
  "bi div 8 < length d \<Longrightarrow> bit_free (clear_bit_used bi d) bj \<longleftrightarrow> bj = bi \<or> bit_free d bj"
proof -
  have e: "bj = bi \<longleftrightarrow> bj div 8 = bi div 8 \<and> bj mod 8 = bi mod 8" by (metis div_mult_mod_eq)
  have m: "bi mod 8 < 8" "bj mod 8 < 8" by simp_all
  show "bi div 8 < length d \<Longrightarrow> bit_free (set_bit_used bi d) bj \<longleftrightarrow> bj \<noteq> bi \<and> bit_free d bj"
    using m by (cases "bj div 8 = bi div 8") (auto simp: bit_free_iff set_bit_used_def e bit_simps)
  show "bi div 8 < length d \<Longrightarrow> bit_free (clear_bit_used bi d) bj \<longleftrightarrow> bj = bi \<or> bit_free d bj"
    using m by (cases "bj div 8 = bi div 8") (auto simp: bit_free_iff clear_bit_used_def e bit_simps)
qed


section \<open>Allocation\<close>

text \<open>The bitmap marks the log and itself as used.\<close>

definition bitmap_ok :: "'a fstate_scheme \<Rightarrow> (u32 \<Rightarrow> u8 list) \<Rightarrow> bool" where
  "bitmap_ok s V \<longleftrightarrow> (\<forall>n. length (V n) = BSIZE) \<and>
     (\<forall>b < unat (sb_size (sb s)). BBLOCK (of_nat b) (sb s) \<notin> region s \<and>
        (bit_of (sb s) V b \<longrightarrow> of_nat b \<notin> region s \<and> (\<forall>c < unat (sb_size (sb s)). of_nat b \<noteq> BBLOCK (of_nat c) (sb s))))"

lemma BBLOCK_same:
  assumes "b < 2 ^ 32" "c < 2 ^ 32" "BBLOCK (of_nat c) sbk = BBLOCK (of_nat b) sbk"
  shows "c mod BPB = b mod BPB \<longleftrightarrow> c = b"
proof -
  have u: "unat (of_nat b :: u32) = b" "unat (of_nat c :: u32) = c" using assms(1,2) by (simp_all add: unat_of_nat_lt)
  have "(of_nat (c div BPB) :: u32) = of_nat (b div BPB)" using assms(3) by (simp add: BBLOCK_def u)
  moreover have "b div BPB < 2 ^ LENGTH(32)" "c div BPB < 2 ^ LENGTH(32)"
    unfolding len_u32 using assms(1,2) by (meson div_le_dividend le_less_trans)+
  ultimately have "c div BPB = b div BPB" by (metis unat_of_nat_lt)
  then show ?thesis by (metis div_mult_mod_eq)
qed

lemma bit_of_set:
  assumes "length (V (BBLOCK (of_nat b) sbk)) = BSIZE" "b < 2 ^ 32" "c < 2 ^ 32"
    and "V' (BBLOCK (of_nat c) sbk) = (V(BBLOCK (of_nat b) sbk := set_bit_used (b mod BPB) (V (BBLOCK (of_nat b) sbk)))) (BBLOCK (of_nat c) sbk)"
  shows "bit_of sbk V' c \<longleftrightarrow> c \<noteq> b \<and> bit_of sbk V c"
proof (cases "BBLOCK (of_nat c) sbk = BBLOCK (of_nat b) sbk")
  case True
  have "b mod BPB div 8 < length (V (BBLOCK (of_nat b) sbk))" using assms(1) by (simp add: less_mult_imp_div_less)
  from bit_free_set(1) [OF this, of "c mod BPB"] show ?thesis using True assms(4) BBLOCK_same [OF assms(2,3) True] by (simp add: bit_of_def)
qed (use assms(4) in \<open>auto simp: bit_of_def\<close>)

lemma bit_of_clear:
  assumes "length (V (BBLOCK (of_nat b) sbk)) = BSIZE" "b < 2 ^ 32" "c < 2 ^ 32"
    and "V' (BBLOCK (of_nat c) sbk) = (V(BBLOCK (of_nat b) sbk := clear_bit_used (b mod BPB) (V (BBLOCK (of_nat b) sbk)))) (BBLOCK (of_nat c) sbk)"
  shows "bit_of sbk V' c \<longleftrightarrow> c = b \<or> bit_of sbk V c"
proof (cases "BBLOCK (of_nat c) sbk = BBLOCK (of_nat b) sbk")
  case True
  have "b mod BPB div 8 < length (V (BBLOCK (of_nat b) sbk))" using assms(1) by (simp add: less_mult_imp_div_less)
  from bit_free_set(2) [OF this, of "c mod BPB"] show ?thesis using True assms(4) BBLOCK_same [OF assms(2,3) True] by (simp add: bit_of_def)
qed (use assms(4) in \<open>auto simp: bit_of_def\<close>)

lemma allocated_bits:
  assumes "bitmap_ok s V" "b < unat (sb_size (sb s))" "bit_of (sb s) V b"
  defines "V' \<equiv> allocated (sb s) V (BPB * (b div BPB), b mod BPB)"
  shows "V' (of_nat b) = replicate BSIZE 0"
    "\<forall>c < unat (sb_size (sb s)). bit_of (sb s) V' c \<longleftrightarrow> c \<noteq> b \<and> bit_of (sb s) V c"
    "\<forall>n. n \<noteq> of_nat b \<longrightarrow> n \<noteq> BBLOCK (of_nat b) (sb s) \<longrightarrow> V' n = V n"
proof -
  let ?n = "BBLOCK (of_nat b) (sb s)"
  have sz: "unat (sb_size (sb s)) < 2 ^ 32" using unsigned_less [of "sb_size (sb s)", where 'a = nat] by simp
  then have b32: "b < 2 ^ 32" using assms(2) by (rule less_trans [rotated])
  have b: "BPB * (b div BPB) + b mod BPB = b" by (rule mult_div_mod_eq)
  have v: "V' = (V(?n := set_bit_used (b mod BPB) (V ?n)))(of_nat b := replicate BSIZE 0)"
    unfolding V'_def allocated_def prod.case Let_def b BBLOCK_round [OF b32] ..
  show "V' (of_nat b) = replicate BSIZE 0" "\<forall>n. n \<noteq> of_nat b \<longrightarrow> n \<noteq> ?n \<longrightarrow> V' n = V n" by (simp_all add: v)
  show "\<forall>c < unat (sb_size (sb s)). bit_of (sb s) V' c \<longleftrightarrow> c \<noteq> b \<and> bit_of (sb s) V c"
  proof (intro allI impI)
    fix c
    assume c: "c < unat (sb_size (sb s))"
    then have "of_nat b \<noteq> BBLOCK (of_nat c) (sb s)" "length (V ?n) = BSIZE" using assms(1-3) unfolding bitmap_ok_def by blast+
    then show "bit_of (sb s) V' c \<longleftrightarrow> c \<noteq> b \<and> bit_of (sb s) V c"
      using bit_of_set [of V b "sb s" c V'] b32 less_trans [OF c sz] by (simp add: v)
  qed
qed

text \<open>
  C4: \<open>balloc\<close> hands out the first block that the bitmap has free. The block is zeroed, its bit and no other is set, nothing else
  that the file system can read changes, and the transaction stays open. Only when every block is in use does it return 0, with
  nothing changed.
\<close>

theorem balloc_first_free:
  assumes "txn s V D T" "bitmap_ok s V" "logn s < l_size (the_log s) - 2"
  shows "(\<exists>b s' V'. b < unat (sb_size (sb s)) \<and> bit_of (sb s) V b \<and> (\<forall>c<b. \<not> bit_of (sb s) V c) \<and>
      balloc (ldev s) s = Ret (of_nat b) s' \<and> same_fs s s' \<and> txn s' V' D T \<and> V' (of_nat b) = replicate BSIZE 0 \<and>
      (\<forall>c < unat (sb_size (sb s)). bit_of (sb s) V' c \<longleftrightarrow> c \<noteq> b \<and> bit_of (sb s) V c) \<and>
      (\<forall>n. n \<noteq> of_nat b \<longrightarrow> n \<noteq> BBLOCK (of_nat b) (sb s) \<longrightarrow> V' n = V n)) \<or>
    (\<exists>s'. (\<forall>b < unat (sb_size (sb s)). \<not> bit_of (sb s) V b) \<and> balloc (ldev s) s = Ret 0 s' \<and> same_fs s s' \<and> txn s' V D T)"
proof -
  let ?sz = "unat (sb_size (sb s))" and ?g = "\<lambda>x. (BPB * (x div BPB), x mod BPB)"
  let ?m = "(?sz + BPB - 1) div BPB"
  have sz: "?sz < 2 ^ 32" using unsigned_less [of "sb_size (sb s)", where 'a = nat] by simp
  have m: "min (BPB * ?m) ?sz = ?sz"
  proof -
    have "?sz \<le> BPB * ?m" by simp
    then show ?thesis by simp
  qed
  have c: "candidates (sb s) (map ((*) BPB) [0..<?m]) = map ?g [0..<?sz]" by (simp only: candidates_upt m)
  let ?P = "\<lambda>(b, bi). bit_free (V (BBLOCK (of_nat b) (sb s))) bi"
  have p: "?P (?g x) = bit_of (sb s) V x" if "x < ?sz" for x using BBLOCK_round [of x "sb s"] that sz by (simp add: bit_of_def)
  have bb: "\<forall>b\<in>set (map ((*) BPB) [0..<?m]). BBLOCK (of_nat b) (sb s) \<notin> region s"
  proof
    fix x
    assume "x \<in> set (map ((*) BPB) [0..<?m])"
    then obtain k where k: "k < ?m" "x = BPB * k" by auto
    then have "x < ?sz" by simp
    then show "BBLOCK (of_nat x) (sb s) \<notin> region s" using assms(2) unfolding bitmap_ok_def by blast
  qed
  have nr: "\<forall>(b, bi)\<in>set (candidates (sb s) (map ((*) BPB) [0..<?m])). bit_free (V (BBLOCK (of_nat b) (sb s))) bi \<longrightarrow> of_nat (b + bi) \<notin> region s"
    unfolding c
  proof clarify
    fix b bi
    assume "(b, bi) \<in> set (map ?g [0..<?sz])" and fr: "bit_free (V (BBLOCK (of_nat b) (sb s))) bi" "of_nat (b + bi) \<in> region s"
    then obtain x where x: "x < ?sz" "(b, bi) = ?g x" by auto
    then have "bit_of (sb s) V x" "of_nat x \<in> region s" using p [OF x(1)] fr x(2) by (auto simp del: BPB_def of_nat_add)
    then show False using assms(2) x(1) unfolding bitmap_ok_def by blast
  qed
  have len: "\<forall>n. length (V n) = BSIZE" using assms(2) by (simp add: bitmap_ok_def)
  have w: "wpr (balloc (ldev s) s) (\<lambda>r s'. same_fs s s' \<and>
    (case find ?P (map ?g [0..<?sz]) of None \<Rightarrow> r = 0 \<and> txn s' V D T
     | Some (b, bi) \<Rightarrow> r = of_nat (b + bi) \<and> txn s' (allocated (sb s) V (b, bi)) D T))"
    using balloc_loop_ok [OF assms(1,3) bb len nr] unfolding c balloc_def .
  have fe: "find ?P (map ?g [0..<?sz]) = map_option ?g (find (bit_of (sb s) V) [0..<?sz])"
    unfolding find_map by (intro arg_cong [of _ _ "map_option ?g"] find_cong refl) (use p in simp)
  show ?thesis
  proof (cases "find (bit_of (sb s) V) [0..<?sz]")
    case None
    then have "\<forall>b < ?sz. \<not> bit_of (sb s) V b" by (auto simp: find_None_iff)
    then show ?thesis using w None fe by (auto elim!: wprE)
  next
    case (Some b)
    then have b: "b < ?sz" "bit_of (sb s) V b" "\<forall>c<b. \<not> bit_of (sb s) V c" by (auto simp: find_Some_iff)
    let ?V = "allocated (sb s) V (?g b)"
    have "BPB * (b div BPB) + b mod BPB = b" by (rule mult_div_mod_eq)
    then obtain s' where s': "balloc (ldev s) s = Ret (of_nat b) s'" "same_fs s s'" "txn s' ?V D T"
      using w unfolding fe Some by (auto elim!: wprE simp del: BPB_def of_nat_add)
    show ?thesis using b s' allocated_bits [OF assms(2) b(1,2)] by blast
  qed
qed


text \<open>
  C5: \<open>bfree\<close> clears the bit of the block and nothing else; freeing a block that is already free is caught.
\<close>

theorem bfree_exact:
  assumes "txn s V D T" "length (V (BBLOCK b (sb s))) = BSIZE" "BBLOCK b (sb s) \<notin> region s" "logn s < l_size (the_log s) - 1"
  shows "if bit_of (sb s) V (unat b) then bfree (ldev s) b s = Panic ''freeing free block''
    else \<exists>s' V'. bfree (ldev s) b s = Ret () s' \<and> same_fs s s' \<and> txn s' V' D T \<and>
      (\<forall>c < 2 ^ 32. bit_of (sb s) V' c \<longleftrightarrow> c = unat b \<or> bit_of (sb s) V c) \<and>
      (\<forall>n. n \<noteq> BBLOCK b (sb s) \<longrightarrow> V' n = V n)"
proof -
  let ?n = "BBLOCK b (sb s)" and ?bi = "unat b mod BPB"
  let ?V = "V(?n := clear_bit_used ?bi (V ?n))"
  obtain bp s1 where b: "bread (ldev s) ?n s = Ret bp s1" and d: "b_data (getb bp s1) = V ?n"
    using txn_bread [OF assms(1), of ?n] by (auto elim!: wprE)
  have bo: "bit_of (sb s) V (unat b) = bit_free (V ?n) ?bi" by (simp add: bit_of_def)
  show ?thesis
  proof (cases "bit_of (sb s) V (unat b)")
    case True
    then show ?thesis using bo by (simp add: bfree_def b d)
  next
    case False
    obtain s' where s': "log_and_release bp (modb bp (\<lambda>x. x\<lparr>b_data := clear_bit_used ?bi (b_data x)\<rparr>) s1) = Ret () s'"
        "txn s' ?V D T" "same_fs s s'"
      using txn_modify [OF assms(1) b assms(3,4), of "clear_bit_used ?bi"] assms(2) by (auto elim!: wprE simp: clear_bit_used_def)
    have "bfree (ldev s) b s = Ret () s'" using s'(1) False bo by (simp add: bfree_def b d Let_def del: BPB_def)
    moreover have "\<forall>c < 2 ^ 32. bit_of (sb s) ?V c \<longleftrightarrow> c = unat b \<or> bit_of (sb s) V c"
    proof (intro allI impI)
      fix c :: nat
      assume "c < 2 ^ 32"
      moreover have "unat b < 2 ^ 32" using unsigned_less [of b, where 'a = nat] by simp
      ultimately show "bit_of (sb s) ?V c \<longleftrightarrow> c = unat b \<or> bit_of (sb s) V c"
        using assms(2) by (intro bit_of_clear) simp_all
    qed
    ultimately show ?thesis using False s'(2,3) by (intro if_not_P [THEN iffD2]) auto
  qed
qed

section \<open>A file system\<close>

text \<open>A new file system of 2000 blocks: the bitmap, block 45, has the first 50 blocks in use.\<close>

definition bitmap0 :: "u8 list" where
  "bitmap0 = replicate 6 255 @ 3 # replicate 1017 0"

definition image0 :: "u32 \<Rightarrow> u8 list" where
  "image0 = zeros(45 := bitmap0)"

definition fboot0 :: fstate where
  "fboot0 = \<lparr>memory = \<lambda>_. 0, freelist = 0, kend = 0x80022000, procs = [proc0\<lparr>p_state := RUNNING, p_pid := 1\<rparr>],
     initproc = Some 0, nextpid = 2, curproc = Some 0, ticks = 0,
     bufs = replicate 31 buf0, disk = image0, dwrites = [], vq = vdisk0, the_log = log0,
     sb = \<lparr>sb_magic = FSMAGIC, sb_size = 2000, sb_nblocks = 1954, sb_ninodes = 200, sb_nlog = 30, sb_logstart = 2, sb_inodestart = 32, sb_bmapstart = 45\<rparr>,
     itable = []\<rparr>"

lemma image0_length [simp]: "length (image0 n) = BSIZE"
  by (simp add: image0_def bitmap0_def)

lemma fboot_init:
  assumes "\<And>n. length (D n) = BSIZE"
  shows "txn (binit (fboot0\<lparr>disk := D, itable := it\<rparr>)) D D []" "sb (binit (fboot0\<lparr>disk := D, itable := it\<rparr>)) = sb fboot0"
    "the_log (binit (fboot0\<lparr>disk := D, itable := it\<rparr>)) = log0" "itable (binit (fboot0\<lparr>disk := D, itable := it\<rparr>)) = it"
proof -
  let ?f = "fboot0\<lparr>disk := D, itable := it\<rparr>"
  have b: "blank ?f" using assms by (auto simp: blank_def fboot0_def buf0_def)
  then obtain bs where bs: "binit ?f = ?f\<lparr>bufs := bs\<rparr>"
    using binit_frame [of ?f] by (auto simp: blank_def simp del: NBUF_def)
  show l: "sb (binit ?f) = sb fboot0" "the_log (binit ?f) = log0" "itable (binit ?f) = it" unfolding bs by (simp_all add: fboot0_def)
  have "cst (binit ?f) 1 (quiet D D (\<lambda>_. 0) [])"
    using binit_cst(2) [OF b, of 1 0] by (simp add: fboot0_def myproc_def)
  then show "txn (binit ?f) D D []" using log0_facts [OF l(2)] by (simp add: txn_def l(2)) (simp add: log0_def)
qed

lemma fs0: "txn (binit fboot0) image0 image0 []" "sb (binit fboot0) = sb fboot0" "the_log (binit fboot0) = log0"
proof -
  have "fboot0\<lparr>disk := image0, itable := []\<rparr> = fboot0" by (simp add: fboot0_def)
  then show "txn (binit fboot0) image0 image0 []" "sb (binit fboot0) = sb fboot0" "the_log (binit fboot0) = log0"
    using fboot_init [of image0 "[]"] by simp_all
qed

lemma fs0_facts: "ldev (binit fboot0) = 1" "logn (binit fboot0) = 0" "l_size (the_log (binit fboot0)) = 30"
  "n \<in> region (binit fboot0) \<Longrightarrow> n < 33"
proof -
  note f = log0_facts [OF fs0(3)]
  show "ldev (binit fboot0) = 1" "logn (binit fboot0) = 0" "l_size (the_log (binit fboot0)) = 30" using f fs0(3) by (simp_all add: log0_def)
  assume "n \<in> region (binit fboot0)"
  then show "n < 33" using region_range [OF f(1)] f(7) by (auto simp: word_less_def)
qed


lemma fs0_block: "BBLOCK (of_nat b) (sb fboot0) = 45" if "b < 2000"
  using that by (simp add: BBLOCK_def fboot0_def unat_of_nat_lt)

lemma fs0_bit: "bit_of (sb fboot0) image0 b \<longleftrightarrow> 50 \<le> b" if "b < 2000"
proof -
  have d: "bitmap0 ! i = (if i < 6 then 255 else if i = 6 then 3 else 0)" if "i < 1024" for i
    using that by (simp add: bitmap0_def nth_append nth_Cons')
  have f: "bit (255 :: u8) k" "bit (3 :: u8) k \<longleftrightarrow> k < 2" if "k < 8" for k
  proof -
    have "(255 :: u8) = mask 8" "(3 :: u8) = mask 2" by (simp_all add: mask_eq_exp_minus_1)
    then show "bit (255 :: u8) k" "bit (3 :: u8) k \<longleftrightarrow> k < 2" using that by (simp_all only: bit_mask_iff) auto
  qed
  have m: "b mod 8192 = b" "b div 8 < 1024" "b mod 8 < 8" using that by simp_all
  have "bit_of (sb fboot0) image0 b \<longleftrightarrow> \<not> bit (bitmap0 ! (b div 8)) (b mod 8)"
    using m by (simp add: bit_of_def fs0_block [OF that] image0_def bit_free_iff)
  also have "\<dots> \<longleftrightarrow> \<not> (b div 8 < 6 \<or> b div 8 = 6 \<and> b mod 8 < 2)" using d [OF m(2)] f m(3) by auto
  also have "\<dots> \<longleftrightarrow> 50 \<le> b" by presburger
  finally show ?thesis .
qed

lemma fs0_bitmap: "bitmap_ok (binit fboot0) image0"
proof -
  have sz: "unat (sb_size (sb (binit fboot0))) = 2000" unfolding fs0(2) by (simp add: fboot0_def)
  have r: "(45 :: u32) \<notin> region (binit fboot0)" using fs0_facts(4) by fastforce
  have o: "of_nat b \<notin> region (binit fboot0)" "of_nat b \<noteq> (45 :: u32)" if "b < 2000" "50 \<le> b" for b
  proof -
    have u: "unat (of_nat b :: u32) = b" using that by (simp add: unat_of_nat_lt)
    then have "\<not> (of_nat b :: u32) < 33" using that by (simp add: word_less_nat_alt)
    then show "of_nat b \<notin> region (binit fboot0)" using fs0_facts(4) by blast
    show "of_nat b \<noteq> (45 :: u32)" using u that by auto
  qed
  show ?thesis unfolding bitmap_ok_def sz unfolding fs0(2) using r o by (auto simp: fs0_bit fs0_block)
qed

theorem balloc_first_free_witness:
  "\<exists>s' V'. balloc 1 (binit fboot0) = Ret 50 s' \<and> txn s' V' image0 [] \<and> V' 50 = replicate BSIZE 0 \<and> \<not> bit_of (sb fboot0) V' 50"
proof -
  have sz: "unat (sb_size (sb fboot0)) = 2000" by (simp add: fboot0_def)
  have "logn (binit fboot0) < l_size (the_log (binit fboot0)) - 2" by (simp add: fs0_facts)
  from balloc_first_free [OF fs0(1) fs0_bitmap this, unfolded fs0(2) sz fs0_facts(1)]
  obtain b s' V' where b: "b < 2000" "bit_of (sb fboot0) image0 b" "\<forall>c<b. \<not> bit_of (sb fboot0) image0 c"
      and s': "balloc 1 (binit fboot0) = Ret (of_nat b) s'" "txn s' V' image0 []" "V' (of_nat b) = replicate BSIZE 0"
      and bits: "\<forall>c<2000. bit_of (sb fboot0) V' c \<longleftrightarrow> c \<noteq> b \<and> bit_of (sb fboot0) image0 c"
    using fs0_bit [of 50] by auto
  have "bit_of (sb fboot0) image0 50" using fs0_bit [of 50] by simp
  then have "\<not> 50 < b" using b(3) by blast
  then have "b = 50" using fs0_bit [OF b(1)] b(2) by simp
  then show ?thesis using s' bits by auto
qed

theorem bfree_exact_witness:
  "(\<exists>s' V'. bfree 1 10 (binit fboot0) = Ret () s' \<and> txn s' V' image0 [] \<and> bit_of (sb fboot0) V' 10) \<and>
   bfree 1 60 (binit fboot0) = Panic ''freeing free block''"
proof -
  have n: "BBLOCK 10 (sb (binit fboot0)) = 45" "BBLOCK 60 (sb (binit fboot0)) = 45"
    unfolding fs0(2) by (simp_all add: BBLOCK_def fboot0_def)
  have r: "(45 :: u32) \<notin> region (binit fboot0)" using fs0_facts(4) by fastforce
  have l: "logn (binit fboot0) < l_size (the_log (binit fboot0)) - 1" by (simp add: fs0_facts)
  have "unat (10 :: u32) = 10" "unat (60 :: u32) = 60" by simp_all
  then show ?thesis
    using bfree_exact [OF fs0(1), of 10] bfree_exact [OF fs0(1), of 60] r l fs0_bit [of 10] fs0_bit [of 60]
    unfolding n unfolding fs0_facts(1) fs0(2) by simp force
qed

end
