(* ===== verification/Fs_Files.thy ===== *)
theory Fs_Files
  imports Fs_Alloc Cstring
begin

text \<open>
  Reading files and directories. The contents of a file are the bytes of its blocks, found through the direct addresses
  and the indirect block; \<open>readi\<close> returns them, and \<open>dirlookup\<close> finds the first entry of a directory with a given name.
\<close>

section \<open>Blocks of a file\<close>

definition file_addr :: "(u32 \<Rightarrow> u8 list) \<Rightarrow> inode \<Rightarrow> nat \<Rightarrow> u32" where
  "file_addr V x bn = (if bn < NDIRECT then i_addrs x ! bn else get_le (V (i_addrs x ! NDIRECT)) (4 * (bn - NDIRECT)) 4)"

text \<open>All blocks of the file are allocated.\<close>

definition file_ok :: "(u32 \<Rightarrow> u8 list) \<Rightarrow> inode \<Rightarrow> bool" where
  "file_ok V x \<longleftrightarrow> unat (i_size x) \<le> MAXFILE * BSIZE \<and>
     (\<forall>bn. bn * BSIZE < unat (i_size x) \<longrightarrow> file_addr V x bn \<noteq> 0 \<and> (NDIRECT \<le> bn \<longrightarrow> i_addrs x ! NDIRECT \<noteq> 0)) \<and>
     (\<forall>n. length (V n) = BSIZE)"

definition file_bytes :: "(u32 \<Rightarrow> u8 list) \<Rightarrow> inode \<Rightarrow> u8 list" where
  "file_bytes V x = map (\<lambda>i. V (file_addr V x (i div BSIZE)) ! (i mod BSIZE)) [0..<unat (i_size x)]"

lemma length_file_bytes [simp]: "length (file_bytes V x) = unat (i_size x)"
  by (simp add: file_bytes_def)

lemma BSIZE_pos: "BSIZE \<noteq> 0"
  by simp

text \<open>One block's share of the contents.\<close>

lemma file_bytes_block:
  assumes "off + m \<le> unat (i_size x)" "m \<le> BSIZE - off mod BSIZE" "length (V (file_addr V x (off div BSIZE))) = BSIZE"
  shows "take m (drop (off mod BSIZE) (V (file_addr V x (off div BSIZE)))) = take m (drop off (file_bytes V x))"
proof (rule nth_equalityI)
  have "off mod BSIZE < BSIZE" by simp
  then show len: "length (take m (drop (off mod BSIZE) (V (file_addr V x (off div BSIZE))))) = length (take m (drop off (file_bytes V x)))"
    using assms by simp
  fix i
  assume "i < length (take m (drop (off mod BSIZE) (V (file_addr V x (off div BSIZE)))))"
  then have i: "i < m" by simp
  have "(off + i) div BSIZE = off div BSIZE" "(off + i) mod BSIZE = off mod BSIZE + i"
  proof -
    have lt: "off mod BSIZE + i < BSIZE" using i assms(2) by linarith
    have e: "off + i = off mod BSIZE + i + BSIZE * (off div BSIZE)" using mult_div_mod_eq [of BSIZE off] by linarith
    show "(off + i) div BSIZE = off div BSIZE" unfolding e using lt by (simp only: div_mult_self2 [OF BSIZE_pos] div_less add_0_right)
    show "(off + i) mod BSIZE = off mod BSIZE + i" unfolding e using lt by (simp only: mod_mult_self2 mod_less)
  qed
  then show "take m (drop (off mod BSIZE) (V (file_addr V x (off div BSIZE)))) ! i = take m (drop off (file_bytes V x)) ! i"
    using i assms by (simp add: file_bytes_def del: BSIZE_def)
qed

lemma bframe_geti: "bframe s s' \<Longrightarrow> geti ip s' = geti ip s"
  using bframe_same_fs [of s s'] by (simp add: same_fs_def geti_def)

lemma bmap_ok:
  assumes "reading s V D P T" "i_dev (geti ip s) = ldev s" "file_ok V (geti ip s)" "bn * BSIZE < unat (i_size (geti ip s))"
  obtains s' where "bmap ip bn s = Ret (file_addr V (geti ip s) bn) s'" "bframe s s'" "reading s' V D P T"
proof -
  let ?x = "geti ip s"
  have a: "file_addr V ?x bn \<noteq> 0" "NDIRECT \<le> bn \<Longrightarrow> i_addrs ?x ! NDIRECT \<noteq> 0"
    using assms(3,4) unfolding file_ok_def by blast+
  have "bn * BSIZE < MAXFILE * BSIZE" using assms(3,4) unfolding file_ok_def by linarith
  then have m: "bn < MAXFILE" by simp
  show ?thesis
  proof (cases "bn < NDIRECT")
    case True
    then have "bmap ip bn s = Ret (file_addr V ?x bn) s" using a(1) by (simp add: bmap_def file_addr_def del: NDIRECT_def)
    then show ?thesis using that assms(1) by simp
  next
    case False
    obtain b s1 s2 where r: "bread (ldev s) (i_addrs ?x ! NDIRECT) s = Ret b s1" "b_data (getb b s1) = V (i_addrs ?x ! NDIRECT)"
      "bframe s s1" "brelse b s1 = Ret () s2" "bframe s s2" "reading s2 V D P T" using reading_read [OF assms(1)] .
    have "bmap ip bn s = Ret (file_addr V ?x bn) s2"
      using False a m r(1,2,4) assms(2) by (simp add: bmap_def file_addr_def Let_def del: NDIRECT_def BSIZE_def)
    then show ?thesis using that r(5,6) by blast
  qed
qed

section \<open>readi\<close>

lemma take_drop_split: "m \<le> left \<Longrightarrow> take m (drop off ys) @ take (left - m) (drop (off + m) ys) = take left (drop off ys)"
proof -
  assume "m \<le> left"
  then have "take left (drop off ys) = take (m + (left - m)) (drop off ys)" by simp
  also have "\<dots> = take m (drop off ys) @ take (left - m) (drop (off + m) ys)" unfolding take_add by (simp add: add.commute)
  finally show ?thesis by simp
qed

lemma s32_int: "k < 2 ^ 31 \<Longrightarrow> s32 (int k) = int k"
  by (intro s32_id) simp_all

lemma readi_loop_ok:
  assumes "reading s V D P T" "i_dev (geti ip s) = ldev s" "file_ok V (geti ip s)" "off + left \<le> unat (i_size (geti ip s))"
  shows "wpr (readi_loop ip Local off left tot acc s) (\<lambda>r s'.
    r = (s32 (int (tot + left)), acc @ take left (drop off (file_bytes V (geti ip s)))) \<and> bframe s s' \<and> reading s' V D P T)"
  using assms
proof (induction left arbitrary: off tot acc s rule: less_induct)
  case (less left)
  note st = readi_loop.simps [of ip Local off left tot acc s]
  let ?x = "geti ip s" and ?m = "min left (BSIZE - off mod BSIZE)"
  show ?case
  proof (cases "left = 0")
    case True
    then show ?thesis using less.prems(1) by (subst st) simp
  next
    case False
    have m: "0 < ?m" "?m \<le> left" using False by simp_all
    have "off div BSIZE * BSIZE \<le> off" by simp
    then have bn: "off div BSIZE * BSIZE < unat (i_size ?x)" using less.prems(4) False by linarith
    obtain s1 where s1: "bmap ip (off div BSIZE) s = Ret (file_addr V ?x (off div BSIZE)) s1" "bframe s s1" "reading s1 V D P T"
      using bmap_ok [OF less.prems(1-3) bn] .
    have a: "file_addr V ?x (off div BSIZE) \<noteq> 0" "length (V n) = BSIZE" for n
      using less.prems(3) bn unfolding file_ok_def by blast+
    have g1: "geti ip s1 = ?x" "ldev s1 = ldev s" using bframe_geti [OF s1(2)] bframe_blocks(1) [OF s1(2)] by auto
    obtain b s2 s3 where r: "bread (ldev s1) (file_addr V ?x (off div BSIZE)) s1 = Ret b s2"
        "b_data (getb b s2) = V (file_addr V ?x (off div BSIZE))" "brelse b s2 = Ret () s3" "bframe s1 s3" "reading s3 V D P T"
      using reading_read [OF s1(3)] .
    have f3: "bframe s s3" using s1(2) r(4) by (rule bframe_trans)
    have g3: "geti ip s3 = ?x" "ldev s3 = ldev s" using bframe_geti [OF f3] bframe_blocks(1) [OF f3] by auto
    have bs: "take ?m (drop (off mod BSIZE) (V (file_addr V ?x (off div BSIZE)))) = take ?m (drop off (file_bytes V ?x))"
      using less.prems(4) m(2) a(2) by (intro file_bytes_block) (simp_all del: BSIZE_def)
    have step: "readi_loop ip Local off left tot acc s =
        readi_loop ip Local (off + ?m) (left - ?m) (tot + ?m) (acc @ take ?m (drop off (file_bytes V ?x))) s3"
      using False a(1) s1(1) g1 r(1,2,3) less.prems(2) bs by (simp add: st Let_def del: BSIZE_def)
    have "wpr (readi_loop ip Local (off + ?m) (left - ?m) (tot + ?m) (acc @ take ?m (drop off (file_bytes V ?x))) s3) (\<lambda>r s'.
      r = (s32 (int (tot + ?m + (left - ?m))), (acc @ take ?m (drop off (file_bytes V ?x))) @ take (left - ?m) (drop (off + ?m) (file_bytes V (geti ip s3)))) \<and>
      bframe s3 s' \<and> reading s' V D P T)"
      using less.prems m g3 by (intro less.IH r(5)) simp_all
    then show ?thesis unfolding step
    proof (rule wpr_mono)
      fix r s'
      assume a: "r = (s32 (int (tot + ?m + (left - ?m))), (acc @ take ?m (drop off (file_bytes V ?x))) @ take (left - ?m) (drop (off + ?m) (file_bytes V (geti ip s3)))) \<and>
        bframe s3 s' \<and> reading s' V D P T"
      have "tot + ?m + (left - ?m) = tot + left" using m(2) by linarith
      then show "r = (s32 (int (tot + left)), acc @ take left (drop off (file_bytes V ?x))) \<and> bframe s s' \<and> reading s' V D P T"
        using a bframe_trans [OF f3] by (simp only: g3(1) append_assoc take_drop_split [OF m(2)])
    qed
  qed
qed


lemma u32_overflow:
  "off + n < off \<longleftrightarrow> \<not> unat off + unat n < 2 ^ 32" "unat off + unat n < 2 ^ 32 \<Longrightarrow> unat (off + n) = unat off + unat n" for off n :: u32
proof -
  have b: "unat off < 4294967296" "unat n < 4294967296" using unsigned_less [of off, where 'a = nat] unsigned_less [of n, where 'a = nat] by simp_all
  have s: "unat (off + n) = (unat off + unat n) mod 4294967296" by (simp add: unat_word_ariths)
  then show "unat off + unat n < 2 ^ 32 \<Longrightarrow> unat (off + n) = unat off + unat n" by simp
  show "off + n < off \<longleftrightarrow> \<not> unat off + unat n < 2 ^ 32"
  proof (cases "unat off + unat n < 4294967296")
    case False
    then have "(unat off + unat n) mod 4294967296 = unat off + unat n - 4294967296" using b by (simp add: le_mod_geq)
    then show ?thesis using False b s by (simp add: word_less_nat_alt)
  qed (simp add: word_less_nat_alt s)
qed

lemma readi_bytes:
  assumes "reading s V D P T" "i_dev (geti ip s) = ldev s" "file_ok V (geti ip s)"
  shows "\<exists>s'. readi ip Local off n s =
      (let bs = (if unat off + unat n < 2 ^ 32 then take (unat n) (drop (unat off) (file_bytes V (geti ip s))) else [])
       in Ret (int (length bs), bs) s') \<and> bframe s s' \<and> reading s' V D P T"
proof -
  let ?x = "geti ip s" and ?B = "file_bytes V (geti ip s)"
  note ov = u32_overflow(1) [of off n] and nw = u32_overflow(2) [of off n]
  show ?thesis
  proof (cases "off > i_size ?x \<or> off + n < off")
    case True
    then have "(if unat off + unat n < 2 ^ 32 then take (unat n) (drop (unat off) ?B) else []) = []"
      using ov by (auto simp: word_less_nat_alt)
    then show ?thesis using True assms(1) by (auto simp: readi_def)
  next
    case False
    then have off: "unat off \<le> unat (i_size ?x)" and fit: "unat off + unat n < 2 ^ 32" using ov by (auto simp: word_le_nat_alt not_less)
    let ?n = "if off + n > i_size ?x then i_size ?x - off else n"
    have n: "unat ?n = min (unat n) (unat (i_size ?x) - unat off)"
    proof (cases "off + n > i_size ?x")
      case True
      then have "unat (i_size ?x) < unat off + unat n" using nw [OF fit] by (simp add: word_less_nat_alt)
      moreover have "unat (i_size ?x - off) = unat (i_size ?x) - unat off" using off by (intro unat_sub) (simp add: word_le_nat_alt)
      ultimately show ?thesis using True by simp
    next
      case False
      then have "unat off + unat n \<le> unat (i_size ?x)" using nw [OF fit] by (simp add: word_le_nat_alt not_less)
      then show ?thesis using False by simp
    qed
    have tk: "take (unat ?n) (drop (unat off) ?B) = take (unat n) (drop (unat off) ?B)" unfolding n by (simp add: min_def)
    have r: "readi ip Local off n s = readi_loop ip Local (unat off) (unat ?n) 0 [] s" using False by (simp add: readi_def Let_def)
    have "unat (i_size ?x) < 2 ^ 31" using assms(3) by (simp add: file_ok_def)
    then have "min (unat n) (unat (i_size ?x) - unat off) < 2 ^ 31" by linarith
    then have small: "s32 (int (min (unat n) (unat (i_size ?x) - unat off))) = int (min (unat n) (unat (i_size ?x) - unat off))"
      by (rule s32_int)
    have "unat off + unat ?n \<le> unat (i_size ?x)" using off unfolding n by simp
    from readi_loop_ok [OF assms this, of 0 "[]"] obtain s' where s': "bframe s s'" "reading s' V D P T"
      "readi_loop ip Local (unat off) (unat ?n) 0 [] s = Ret (s32 (int (0 + unat ?n)), [] @ take (unat ?n) (drop (unat off) ?B)) s'"
      by (auto elim!: wprE)
    have "length (take (unat n) (drop (unat off) ?B)) = min (unat n) (unat (i_size ?x) - unat off)" using off by (simp add: min.commute)
    then have "readi ip Local off n s = Ret (int (length (take (unat n) (drop (unat off) ?B))), take (unat n) (drop (unat off) ?B)) s'"
      unfolding r s'(3) tk unfolding n by (simp only: add_0 append_Nil small)
    then show ?thesis using s'(1,2) fit unfolding Let_def by auto
  qed
qed


section \<open>Directories\<close>

definition entry :: "(u32 \<Rightarrow> u8 list) \<Rightarrow> inode \<Rightarrow> nat \<Rightarrow> u8 list" where
  "entry V x k = take 16 (drop (16 * k) (file_bytes V x))"

definition names :: "u8 list \<Rightarrow> u8 list \<Rightarrow> bool" where
  "names name de \<longleftrightarrow> de_inum de \<noteq> 0 \<and> cstr (chars name) 0 DIRSIZ = cstr (chars (de_name de)) 0 DIRSIZ"

lemma names_code: "names name de \<longleftrightarrow> de_inum de \<noteq> 0 \<and> namecmp name (de_name de) = 0"
  by (simp add: names_def namecmp_def strncmp_eq_0)

lemma readi_entry:
  assumes "reading s V D P T" "i_dev (geti dp s) = ldev s" "file_ok V (geti dp s)" "k < unat (i_size (geti dp s)) div 16"
  obtains s' where "readi dp Local (of_nat (16 * k)) 16 s = Ret (16, entry V (geti dp s) k) s'" "bframe s s'" "reading s' V D P T"
proof -
  have k: "16 * k + 16 \<le> unat (i_size (geti dp s))" using assms(4) by simp
  have "16 * k < 2 ^ LENGTH(32)" using k unsigned_less [of "i_size (geti dp s)", where 'a = nat] by simp
  then have u: "unat (of_nat (16 * k) :: u32) = 16 * k" by (rule unat_of_nat_lt)
  have lt: "16 * k + unat (16 :: u32) < 2 ^ 32" using k assms(3) by (simp add: file_ok_def)
  have len: "length (entry V (geti dp s) k) = 16" using k by (simp add: entry_def)
  obtain s' where "readi dp Local (of_nat (16 * k)) 16 s = Ret (int (length (entry V (geti dp s) k)), entry V (geti dp s) k) s'"
      "bframe s s'" "reading s' V D P T"
    using readi_bytes [OF assms(1-3), of "of_nat (16 * k)" 16] lt unfolding u Let_def entry_def by auto
  then show ?thesis using that unfolding len by simp
qed

lemma dirlookup_loop_ok:
  assumes "reading s V D P T" "i_dev (geti dp s) = ldev s" "file_ok V (geti dp s)" "\<forall>k\<in>set ks. k < unat (i_size (geti dp s)) div 16"
  shows "\<exists>s'. bframe s s' \<and> reading s' V D P T \<and> dirlookup_loop dp name (map ((*) 16) ks) s =
    (case find (\<lambda>k. names name (entry V (geti dp s) k)) ks of
       None \<Rightarrow> Ret None s'
     | Some k \<Rightarrow> rbind (iget (ldev s) (ucast (de_inum (entry V (geti dp s) k))) s') (\<lambda>ip t. Ret (Some (ip, 16 * k)) t))"
  using assms
proof (induction ks arbitrary: s)
  case Nil
  then show ?case by auto
next
  case (Cons k ks)
  obtain s1 where s1: "readi dp Local (of_nat (16 * k)) 16 s = Ret (16, entry V (geti dp s) k) s1" "bframe s s1" "reading s1 V D P T"
    using readi_entry [OF Cons.prems(1-3), of k] Cons.prems(4) by auto
  have g: "geti dp s1 = geti dp s" "ldev s1 = ldev s" using bframe_geti [OF s1(2)] bframe_blocks(1) [OF s1(2)] by auto
  show ?case
  proof (cases "names name (entry V (geti dp s) k)")
    case True
    then show ?thesis using s1 g Cons.prems(2) by (intro exI [of _ s1]) (simp add: names_code)
  next
    case False
    have "dirlookup_loop dp name (map ((*) 16) (k # ks)) s = dirlookup_loop dp name (map ((*) 16) ks) s1"
      using False s1(1) by (auto simp: names_code)
    moreover have "\<exists>s'. bframe s1 s' \<and> reading s' V D P T \<and> dirlookup_loop dp name (map ((*) 16) ks) s1 =
      (case find (\<lambda>k. names name (entry V (geti dp s1) k)) ks of
         None \<Rightarrow> Ret None s'
       | Some k \<Rightarrow> rbind (iget (ldev s1) (ucast (de_inum (entry V (geti dp s1) k))) s') (\<lambda>ip t. Ret (Some (ip, 16 * k)) t))"
      using Cons.prems g by (intro Cons.IH s1(3)) simp_all
    ultimately show ?thesis using bframe_trans [OF s1(2)] False unfolding g by auto
  qed
qed


lemma reading_modi [simp]: "reading (modi ip f s) V D P T = reading s V D P T"
proof -
  have *: "cst (s\<lparr>itable := it\<rparr>) dev a" if c: "cst s dev a" for s :: "'a fstate_scheme" and it dev a
  proof -
    obtain xs where "lru s xs" using cstD(1) [OF c] unfolding binv_def by blast
    then have "lru (s\<lparr>itable := it\<rparr>) xs" by (simp add: lru_bufs [of "s\<lparr>itable := it\<rparr>" s])
    then show ?thesis
      by (intro cst_cong [OF c, where xs = xs]) (simp_all add: bcore_def getb_def myproc_def mypid_def getp_def)
  qed
  have "cst (s\<lparr>itable := it\<rparr>) dev a = cst s dev a" for it dev a
    using * [of s dev a it] * [of "s\<lparr>itable := it\<rparr>" dev a "itable s"] by auto
  then show ?thesis by (simp add: reading_def modi_def ldev_def)
qed

text \<open>The in-memory inode for \<open>inum\<close>: a slot in use for it, or else a free one.\<close>

lemma iget_ok:
  assumes "\<exists>x\<in>set (itable s). i_ref x = 0"
  obtains ip f where "iget dev inum s = Ret ip (modi ip f s)" "ip < length (itable s)" "i_dev (f (geti ip s)) = dev" "i_inum (f (geti ip s)) = inum"
    "i_ref (f (geti ip s)) = max 0 (i_ref (geti ip s)) + 1"
proof (cases "find_index (\<lambda>ip. i_ref ip > 0 \<and> i_dev ip = dev \<and> i_inum ip = inum) (itable s)")
  case (Some ip)
  then have "iget dev inum s = Ret ip (modi ip (\<lambda>x. x\<lparr>i_ref := i_ref x + 1\<rparr>) s)" by (simp add: iget_def)
  moreover have "ip < length (itable s)" "i_ref (geti ip s) > 0" "i_dev (geti ip s) = dev" "i_inum (geti ip s) = inum"
    using Some by (simp_all add: find_index_Some geti_def)
  ultimately show ?thesis using that [of ip "\<lambda>x. x\<lparr>i_ref := i_ref x + 1\<rparr>"] by simp
next
  case None
  obtain ip where ip: "find_index (\<lambda>ip. i_ref ip = 0) (itable s) = Some ip"
    using assms find_index_None [of "\<lambda>ip. i_ref ip = 0" "itable s"] by (cases "find_index (\<lambda>ip. i_ref ip = 0) (itable s)") auto
  then have "iget dev inum s = Ret ip (modi ip (\<lambda>x. x\<lparr>i_dev := dev, i_inum := inum, i_ref := 1, i_valid := False\<rparr>) s)"
    using None by (simp add: iget_def)
  moreover have "ip < length (itable s)" "i_ref (geti ip s) = 0" using ip by (simp_all add: find_index_Some geti_def)
  ultimately show ?thesis using that [of ip "\<lambda>x. x\<lparr>i_dev := dev, i_inum := inum, i_ref := 1, i_valid := False\<rparr>"] by simp
qed

text \<open>
  C7: looking up a name. \<open>dirlookup\<close> scans the entries of the directory in order and stops at the first one in use that has
  the name, as C strings of at most 14 characters: it returns the offset of the entry and an in-memory inode for its inode
  number, with one more reference. When there is no such entry it says so. The disk and the cached blocks read as before.
\<close>

theorem dirlookup_finds:
  assumes "reading s V D P T" "i_dev (geti dp s) = ldev s" "file_ok V (geti dp s)" "i_type (geti dp s) = T_DIR"
    and "16 dvd unat (i_size (geti dp s))" "\<exists>x\<in>set (itable s). i_ref x = 0"
  shows "case find (\<lambda>k. names name (entry V (geti dp s) k)) [0..<unat (i_size (geti dp s)) div 16] of
      None \<Rightarrow> \<exists>s'. dirlookup dp name s = Ret None s' \<and> itable s' = itable s \<and> reading s' V D P T
    | Some k \<Rightarrow> \<exists>ip s'. dirlookup dp name s = Ret (Some (ip, 16 * k)) s' \<and> ip < length (itable s) \<and> reading s' V D P T \<and>
        i_dev (geti ip s') = ldev s \<and> i_inum (geti ip s') = ucast (de_inum (entry V (geti dp s) k)) \<and>
        i_ref (geti ip s') = max 0 (i_ref (geti ip s)) + 1 \<and> (\<forall>j. j \<noteq> ip \<longrightarrow> geti j s' = geti j s)"
proof -
  let ?x = "geti dp s" and ?n = "unat (i_size (geti dp s)) div 16"
  have off: "dir_offsets (i_size ?x) = map ((*) 16) [0..<?n]"
  proof -
    have "(unat (i_size ?x) + 15) div 16 = ?n" using assms(5) by (elim dvdE) simp
    then show ?thesis by (simp add: dir_offsets_def)
  qed
  obtain s' where s': "bframe s s'" "reading s' V D P T" "dirlookup dp name s =
    (case find (\<lambda>k. names name (entry V ?x k)) [0..<?n] of
       None \<Rightarrow> Ret None s'
     | Some k \<Rightarrow> rbind (iget (ldev s) (ucast (de_inum (entry V ?x k))) s') (\<lambda>ip t. Ret (Some (ip, 16 * k)) t))"
    using dirlookup_loop_ok [OF assms(1-3), of "[0..<?n]" name] assms(4) by (auto simp: dirlookup_def off)
  have it: "itable s' = itable s" "geti j s' = geti j s" for j using bframe_same_fs [OF s'(1)] by (simp_all add: same_fs_def geti_def)
  show ?thesis
  proof (cases "find (\<lambda>k. names name (entry V ?x k)) [0..<?n]")
    case None
    then show ?thesis using s' it by simp
  next
    case (Some k)
    obtain ip f where ip: "iget (ldev s) (ucast (de_inum (entry V ?x k))) s' = Ret ip (modi ip f s')" "ip < length (itable s')"
        "i_dev (f (geti ip s')) = ldev s" "i_inum (f (geti ip s')) = ucast (de_inum (entry V ?x k))" "i_ref (f (geti ip s')) = max 0 (i_ref (geti ip s')) + 1"
      using iget_ok [of s' "ldev s" "ucast (de_inum (entry V ?x k))"] assms(6) it(1) by metis
    have "dirlookup dp name s = Ret (Some (ip, 16 * k)) (modi ip f s')" using s'(3) Some ip(1) by simp
    moreover have "geti ip (modi ip f s') = f (geti ip s')" "j \<noteq> ip \<Longrightarrow> geti j (modi ip f s') = geti j s" for j
      using ip(2) it(2) [of j] by (simp_all add: geti_def modi_def)
    ultimately show ?thesis unfolding Some option.case using ip(2-5) s'(2) it by (intro exI [of _ ip] exI [of _ "modi ip f s'"]) simp
  qed
qed

section \<open>A directory\<close>

text \<open>The root directory, in block 46, with the entries \<open>.\<close> and \<open>ls\<close>.\<close>

definition root0 :: inode where
  "root0 = \<lparr>i_dev = 1, i_inum = 1, i_ref = 1, i_lock = \<lparr>sl_locked = True, sl_name = [], sl_pid = 1\<rparr>, i_valid = True,
     i_type = 1, i_major = 0, i_minor = 0, i_nlink = 1, i_size = 32, i_addrs = 46 # replicate 12 0\<rparr>"

definition dirblock0 :: "u8 list" where
  "dirblock0 = dirent 1 (46 # replicate 13 0) @ dirent 2 ([108, 115] @ replicate 12 0) @ replicate 992 0"

definition fs1 :: fstate where
  "fs1 = binit (fboot0\<lparr>disk := image0(46 := dirblock0), itable := [root0, root0\<lparr>i_ref := 0\<rparr>]\<rparr>)"

lemma fs1_facts:
  "reading fs1 (image0(46 := dirblock0)) (image0(46 := dirblock0)) (pinned fs1 0) []" "i_dev (geti 0 fs1) = ldev fs1"
  "geti 0 fs1 = root0" "itable fs1 = [root0, root0\<lparr>i_ref := 0\<rparr>]" "file_ok (image0(46 := dirblock0)) root0"
  "file_bytes (image0(46 := dirblock0)) root0 = take 32 dirblock0"
proof -
  have b: "length dirblock0 = BSIZE" by (simp add: dirblock0_def dirent_def)
  then have l: "length ((image0(46 := dirblock0)) n) = BSIZE" for n by simp
  note f = fboot_init [where D = "image0(46 := dirblock0)" and it = "[root0, root0\<lparr>i_ref := 0\<rparr>]", OF l, folded fs1_def]
  show "reading fs1 (image0(46 := dirblock0)) (image0(46 := dirblock0)) (pinned fs1 0) []" using txn_reading [OF f(1)] .
  show t: "itable fs1 = [root0, root0\<lparr>i_ref := 0\<rparr>]" by (rule f(4))
  then show g: "geti 0 fs1 = root0" by (simp add: geti_def)
  show "i_dev (geti 0 fs1) = ldev fs1" using log0_facts(2) [OF f(3)] by (simp add: g root0_def)
  show "file_ok (image0(46 := dirblock0)) root0" using l by (auto simp: file_ok_def file_addr_def root0_def)
  show "file_bytes (image0(46 := dirblock0)) root0 = take 32 dirblock0"
    by (rule nth_equalityI) (simp_all add: file_bytes_def file_addr_def root0_def b)
qed


theorem dirlookup_finds_witness:
  "\<exists>ip s'. dirlookup 0 [108, 115, 0] fs1 = Ret (Some (ip, 16)) s' \<and> i_inum (geti ip s') = 2"
proof -
  have r: "file_ok (image0(46 := dirblock0)) (geti 0 fs1)" "i_type (geti 0 fs1) = T_DIR" "16 dvd unat (i_size (geti 0 fs1))"
    "\<exists>x\<in>set (itable fs1). i_ref x = 0"
    using fs1_facts(5) unfolding fs1_facts(3,4) by (simp_all add: root0_def)
  have e: "entry (image0(46 := dirblock0)) root0 0 = dirent 1 (46 # replicate 13 0)"
    "entry (image0(46 := dirblock0)) root0 1 = dirent 2 ([108, 115] @ replicate 12 0)"
    unfolding entry_def fs1_facts(6) by (simp_all add: dirblock0_def dirent_def)
  have "\<not> names [108, 115, 0] (dirent 1 (46 # replicate 13 0))" "names [108, 115, 0] (dirent 2 ([108, 115] @ replicate 12 0))"
    "de_inum (dirent 2 ([108, 115] @ replicate 12 0)) = 2" by code_simp+
  moreover have "unat (i_size root0) div 16 = 2" by (simp add: root0_def)
  ultimately have f: "find (\<lambda>k. names [108, 115, 0] (entry (image0(46 := dirblock0)) root0 k)) [0..<unat (i_size root0) div 16] = Some 1"
    and d: "de_inum (dirent 2 ([108, 115] @ replicate 12 0)) = 2" by (simp_all add: upt_rec e [unfolded One_nat_def])
  from dirlookup_finds [OF fs1_facts(1,2) r, of "[108, 115, 0]"] obtain ip s' where
    "dirlookup 0 [108, 115, 0] fs1 = Ret (Some (ip, 16 * 1)) s'"
    "i_inum (geti ip s') = ucast (de_inum (entry (image0(46 := dirblock0)) root0 1))"
    unfolding fs1_facts(3) f option.case by blast
  then show ?thesis unfolding e d by auto
qed

end
