(* ===== verification/Ring.thy ===== *)
theory Ring
  imports Prelude
begin

text \<open>
  Ring buffers: a byte array indexed modulo its size by free-running unsigned counters, as in
  the pipe, the console input line and the UART transmit buffer.
\<close>

text \<open>The bytes between the read and the write counter.\<close>

definition queue :: "('b \<Rightarrow> 'w::len word \<Rightarrow> u8) \<Rightarrow> 'b \<Rightarrow> 'w word \<Rightarrow> 'w word \<Rightarrow> u8 list" where
  "queue get b r w = map (\<lambda>k. get b (r + of_nat k)) [0..<unat (w - r)]"

lemma length_queue [simp]: "length (queue get b r w) = unat (w - r)"
  by (simp add: queue_def)

lemma queue_empty [simp]: "queue get b r r = []"
  by (simp add: queue_def)

lemma queue_empty_iff: "queue get b r w = [] \<longleftrightarrow> w = r"
  by (auto simp: queue_def unat_eq_0)

lemma unat_Suc_diff:
  fixes r w :: "'w::len word"
  assumes "r \<noteq> w"
  shows "unat (w - r) = Suc (unat (w - (r + 1)))"
proof -
  have "w - r \<noteq> 0" using assms by simp
  then have "unat (w - r) \<noteq> 0" "unat (w - r - 1) = unat (w - r) - 1" by (simp_all add: unat_eq_0 unat_minus_one)
  then have "unat (w - r) = Suc (unat (w - r - 1))" by simp
  then show ?thesis by (simp add: diff_diff_eq)
qed

lemma queue_pop:
  assumes "r \<noteq> w"
  shows "queue get b r w = get b r # queue get b (r + 1) w"
proof (rule nth_equalityI)
  show "length (queue get b r w) = length (get b r # queue get b (r + 1) w)"
    using unat_Suc_diff [OF assms] by simp
  fix i assume "i < length (queue get b r w)"
  then show "queue get b r w ! i = (get b r # queue get b (r + 1) w) ! i"
    using unat_Suc_diff [OF assms]
    by (cases i) (simp_all add: queue_def nth_map_upt add.assoc del: upt_Suc)
qed

lemma queue_unpush:
  assumes "r \<noteq> w"
  shows "queue get b r (w - 1) = butlast (queue get b r w)"
proof -
  have "unat (w - 1 - r) = unat (w - r) - 1"
    using assms unat_minus_one [of "w - r"] by (simp add: algebra_simps)
  then show ?thesis by (simp add: queue_def butlast_conv_take take_map)
qed

locale ring_buffer =
  fixes cap :: nat and ok :: "'b \<Rightarrow> bool" and put :: "'b \<Rightarrow> 'w::len word \<Rightarrow> u8 \<Rightarrow> 'b" and get :: "'b \<Rightarrow> 'w word \<Rightarrow> u8"
  assumes cap: "0 < cap" "cap < 2 ^ LENGTH('w)"
    and ok_put: "ok b \<Longrightarrow> ok (put b w c)"
    and get_put_same: "ok b \<Longrightarrow> get (put b w c) w = c"
    and get_put_other: "ok b \<Longrightarrow> w \<noteq> v \<Longrightarrow> unat (w - v) < cap \<Longrightarrow> get (put b w c) v = get b v"
begin

lemma queue_push:
  assumes "ok b" and room: "unat (w - r) < cap"
  shows "queue get (put b w c) r (w + 1) = queue get b r w @ [c]"
proof -
  have "unat (w - r) + 1 < 2 ^ LENGTH('w)" using room cap by linarith
  then have len: "unat (w + 1 - r) = Suc (unat (w - r))"
    using unat_word_ariths(1) [of "w - r" 1] by (simp add: diff_add_eq)
  have other: "get (put b w c) (r + of_nat k) = get b (r + of_nat k)" if "k < unat (w - r)" for k
  proof -
    have k: "unat (of_nat k :: 'w word) = k"
      using that unsigned_less [of "w - r", where ?'a = nat] by (intro unat_of_nat_lt) linarith
    then have "of_nat k \<le> w - r" using that by (simp add: word_le_nat_alt)
    then have d: "unat (w - (r + of_nat k)) = unat (w - r) - k"
      using k by (simp add: unat_sub diff_diff_eq [symmetric])
    then have "w \<noteq> r + of_nat k" using that by auto
    moreover have "unat (w - (r + of_nat k)) < cap" using d room by simp
    ultimately show ?thesis using assms(1) by (rule get_put_other [rotated])
  qed
  have last_k: "r + of_nat (unat (w - r)) = w" by simp
  have "queue get (put b w c) r (w + 1) = map (\<lambda>k. get (put b w c) (r + of_nat k)) [0..<unat (w - r)] @ [get (put b w c) w]"
    unfolding queue_def len by (simp only: upt_Suc_append [OF le0] map_append list.map last_k)
  also have "\<dots> = queue get b r w @ [c]"
    using other get_put_same [OF assms(1)] by (simp add: queue_def)
  finally show ?thesis .
qed

end

text \<open>Arrays indexed modulo a power of two that divides the counter's range.\<close>

definition aput :: "nat \<Rightarrow> u8 list \<Rightarrow> 'w::len word \<Rightarrow> u8 \<Rightarrow> u8 list" where
  "aput n b w c = b[unat w mod n := c]"

definition aget :: "nat \<Rightarrow> u8 list \<Rightarrow> 'w::len word \<Rightarrow> u8" where
  "aget n b w = b ! (unat w mod n)"

lemma mod_distinct:
  fixes w v :: "'w::len word"
  assumes n: "n dvd 2 ^ LENGTH('w)" and "w \<noteq> v" "unat (w - v) < n"
  shows "unat w mod n \<noteq> unat v mod n"
proof
  assume eq: "unat w mod n = unat v mod n"
  have "int (unat (w - v)) = (uint w - uint v) mod 2 ^ LENGTH('w)"
    by (simp add: uint_word_arith_bintrs take_bit_eq_mod)
  moreover have "int n dvd 2 ^ LENGTH('w)" using n by (simp flip: of_nat_dvd_iff [where ?'a = int])
  ultimately have "int (unat (w - v)) mod int n = (uint w - uint v) mod int n"
    by (simp add: mod_mod_cancel)
  also have "\<dots> = 0"
  proof -
    have "uint w mod int n = uint v mod int n" using arg_cong [OF eq, of int] by (simp only: zmod_int uint_nat)
    then show ?thesis by (simp add: mod_eq_dvd_iff)
  qed
  finally have "int (unat (w - v) mod n) = 0" by (simp only: zmod_int)
  then have "unat (w - v) mod n = 0" by simp
  then have "unat (w - v) = 0" using assms(3) by simp
  then show False using assms(2) by (simp add: unat_eq_0)
qed

lemma aring:
  assumes "0 < n" "n < 2 ^ LENGTH('w::len)" "n dvd 2 ^ LENGTH('w)"
  shows "ring_buffer n (\<lambda>b. length b = n) (aput n :: u8 list \<Rightarrow> 'w word \<Rightarrow> u8 \<Rightarrow> u8 list) (aget n)"
proof
  fix b :: "u8 list" and w v :: "'w word" and c
  assume b: "length b = n"
  show "aget n (aput n b w c) w = c" using b assms(1) by (simp add: aget_def aput_def)
  assume "w \<noteq> v" "unat (w - v) < n"
  then have "unat w mod n \<noteq> unat v mod n" by (rule mod_distinct [OF assms(3)])
  then show "aget n (aput n b w c) v = aget n b v" by (simp add: aget_def aput_def)
qed (use assms in \<open>simp_all add: aput_def\<close>)

end
