(* ===== verification/Uart.thy ===== *)
theory Uart
  imports Fs Ring
begin

text \<open>
  The UART driver, \<^verbatim>\<open>kernel/uart.c\<close>. The device is a 16550: writes to the transmit register append to
  \<open>u_out\<close> while the transmitter has room, received bytes wait in \<open>u_in\<close>, and the divisor latch
  shadows registers 0 and 1 while \<open>LCR_BAUD_LATCH\<close> is set. Waiting for the transmitter to be idle
  ends when the device has sent what it held, after which it takes \<open>u_depth\<close> bytes.
\<close>

section \<open>Device\<close>

record uart =
  u_ier :: u8
  u_fcr :: u8
  u_lcr :: u8
  u_dll :: u8
  u_dlm :: u8
  u_depth :: nat
  u_room :: nat
  u_out :: "u8 list"
  u_in :: "u8 list"

definition THR :: nat where [simp]: "THR = 0"
definition RHR :: nat where [simp]: "RHR = 0"
definition IER :: nat where [simp]: "IER = 1"
definition FCR :: nat where [simp]: "FCR = 2"
definition LCR :: nat where [simp]: "LCR = 3"
definition LSR :: nat where [simp]: "LSR = 5"
definition IER_RX_ENABLE :: u8 where [simp]: "IER_RX_ENABLE = 1"
definition IER_TX_ENABLE :: u8 where [simp]: "IER_TX_ENABLE = 2"
definition FCR_FIFO_ENABLE :: u8 where [simp]: "FCR_FIFO_ENABLE = 1"
definition FCR_FIFO_CLEAR :: u8 where [simp]: "FCR_FIFO_CLEAR = 6"
definition LCR_EIGHT_BITS :: u8 where [simp]: "LCR_EIGHT_BITS = 3"
definition LCR_BAUD_LATCH :: u8 where [simp]: "LCR_BAUD_LATCH = 0x80"
definition LSR_RX_READY :: u8 where [simp]: "LSR_RX_READY = 1"
definition LSR_TX_IDLE :: u8 where [simp]: "LSR_TX_IDLE = 0x20"

definition WriteReg :: "nat \<Rightarrow> u8 \<Rightarrow> uart \<Rightarrow> uart" where
  "WriteReg reg v u =
     (if reg = 0 then (if u_lcr u AND LCR_BAUD_LATCH \<noteq> 0 then u\<lparr>u_dll := v\<rparr>
                       else u\<lparr>u_out := u_out u @ [v], u_room := u_room u - 1\<rparr>)
      else if reg = 1 then (if u_lcr u AND LCR_BAUD_LATCH \<noteq> 0 then u\<lparr>u_dlm := v\<rparr> else u\<lparr>u_ier := v\<rparr>)
      else if reg = 2 then u\<lparr>u_fcr := v\<rparr>
      else if reg = 3 then u\<lparr>u_lcr := v\<rparr>
      else u)"

definition read_lsr :: "uart \<Rightarrow> u8" where
  "read_lsr u = (if u_in u \<noteq> [] then LSR_RX_READY else 0) OR (if u_room u > 0 then LSR_TX_IDLE else 0)"

section \<open>Driver\<close>

definition UART_TX_BUF_SIZE :: nat where [simp]: "UART_TX_BUF_SIZE = 32"

record ustate = fstate +
  uart :: uart
  uart_tx_buf :: "u8 list"
  uart_tx_w :: u64
  uart_tx_r :: u64
  panicked :: bool

definition write_uart :: "nat \<Rightarrow> u8 \<Rightarrow> 'a ustate_scheme \<Rightarrow> 'a ustate_scheme" where
  "write_uart reg v s = s\<lparr>uart := WriteReg reg v (uart s)\<rparr>"

definition uartinit :: "'a ustate_scheme \<Rightarrow> 'a ustate_scheme" where
  "uartinit s =
     (let s = write_uart IER 0x00 s; s = write_uart LCR LCR_BAUD_LATCH s; s = write_uart 0 0x03 s;
          s = write_uart 1 0x00 s; s = write_uart LCR LCR_EIGHT_BITS s;
          s = write_uart FCR (FCR_FIFO_ENABLE OR FCR_FIFO_CLEAR) s
      in write_uart IER (IER_TX_ENABLE OR IER_RX_ENABLE) s)"

lemma wakeup_u [simp]:
  "uart (wakeup ch s) = uart s" "uart_tx_w (wakeup ch s) = uart_tx_w s" "uart_tx_r (wakeup ch s) = uart_tx_r s"
  "uart_tx_buf (wakeup ch s) = uart_tx_buf s" "panicked (wakeup ch s) = panicked s"
  by (subst wakeup_procs, simp)+

function uartstart :: "'a ustate_scheme \<Rightarrow> 'a ustate_scheme" where
  "uartstart s =
     (if uart_tx_w s = uart_tx_r s then s
      else if read_lsr (uart s) AND LSR_TX_IDLE = 0 then s
      else let c = aget UART_TX_BUF_SIZE (uart_tx_buf s) (uart_tx_r s);
               s = s\<lparr>uart_tx_r := uart_tx_r s + 1\<rparr>; s = wakeup ChanUart s
           in uartstart (write_uart THR c s))"
  by pat_completeness auto
termination
proof (relation "measure (\<lambda>s. unat (uart_tx_w s - uart_tx_r s))", simp)
  fix s :: "'a ustate_scheme" and c s1 s2
  assume "uart_tx_w s \<noteq> uart_tx_r s"
    and "s1 = s\<lparr>uart_tx_r := uart_tx_r s + 1\<rparr>" "s2 = wakeup ChanUart s1"
  then show "(write_uart THR c s2, s) \<in> measure (\<lambda>s. unat (uart_tx_w s - uart_tx_r s))"
    using unat_Suc_diff [of "uart_tx_r s" "uart_tx_w s"] by (simp add: write_uart_def)
qed

declare uartstart.simps [simp del]

definition uartputc :: "u8 \<Rightarrow> 'a ustate_scheme \<Rightarrow> (unit, 'a ustate_scheme) res" where
  "uartputc c s =
     (if panicked s then Panic ''hang''
      else if uart_tx_w s = uart_tx_r s + of_nat UART_TX_BUF_SIZE then sleep ChanUart s
      else let s = s\<lparr>uart_tx_buf := aput UART_TX_BUF_SIZE (uart_tx_buf s) (uart_tx_w s) c\<rparr>;
               s = s\<lparr>uart_tx_w := uart_tx_w s + 1\<rparr>
           in Ret () (uartstart s))"

text \<open>The device after the driver has polled it until the transmitter is idle.\<close>

definition tx_idle :: "uart \<Rightarrow> uart" where
  "tx_idle u = (if read_lsr u AND LSR_TX_IDLE = 0 then u\<lparr>u_room := u_depth u\<rparr> else u)"

definition uartputc_sync :: "u8 \<Rightarrow> 'a ustate_scheme \<Rightarrow> (unit, 'a ustate_scheme) res" where
  "uartputc_sync c s =
     (if panicked s then Panic ''hang''
      else Ret () (write_uart THR c (s\<lparr>uart := tx_idle (uart s)\<rparr>)))"

definition uartgetc :: "'a ustate_scheme \<Rightarrow> int \<times> 'a ustate_scheme" where
  "uartgetc s =
     (if read_lsr (uart s) AND 0x01 \<noteq> 0
      then (uint (hd (u_in (uart s))), s\<lparr>uart := (uart s)\<lparr>u_in := tl (u_in (uart s))\<rparr>\<rparr>)
      else (-1, s))"

section \<open>The transmit buffer as a queue\<close>

interpretation tx: ring_buffer UART_TX_BUF_SIZE "\<lambda>b. length b = UART_TX_BUF_SIZE"
  "aput UART_TX_BUF_SIZE :: u8 list \<Rightarrow> u64 \<Rightarrow> u8 \<Rightarrow> u8 list" "aget UART_TX_BUF_SIZE"
  by (rule aring) simp_all

end
