(* ===== verification/Console.thy ===== *)
theory Console
  imports Uart
begin

text \<open>
  Console and kernel printing: \<^verbatim>\<open>kernel/console.c\<close>, \<^verbatim>\<open>kernel/printf.c\<close>, \<open>procdump\<close> of
  \<^verbatim>\<open>kernel/proc.c\<close> and \<open>uartintr\<close> of \<^verbatim>\<open>kernel/uart.c\<close>. Output goes to the UART of
  \<^verbatim>\<open>Uart.thy\<close>. Using more arguments than \<open>printf\<close> was given is undefined: \<open>Panic ''ub''\<close>.
\<close>

section \<open>State\<close>

definition INPUT_BUF_SIZE :: nat where [simp]: "INPUT_BUF_SIZE = 128"
definition CONSOLE :: nat where [simp]: "CONSOLE = 1"
definition BACKSPACE :: int where [simp]: "BACKSPACE = 0x100"

record cons =
  c_buf :: "u8 list"
  c_r :: u32
  c_w :: u32
  c_e :: u32

text \<open>The device functions a \<open>devsw\<close> entry may point to.\<close>

datatype devfun = Consoleread | Consolewrite

record devsw =
  dev_read :: "devfun option"
  dev_write :: "devfun option"

record cstate = ustate +
  cons :: cons
  devsw :: "devsw list"
  pr_locking :: bool

definition modcons :: "(cons \<Rightarrow> cons) \<Rightarrow> 'a cstate_scheme \<Rightarrow> 'a cstate_scheme" where
  "modcons f s = s\<lparr>cons := f (cons s)\<rparr>"

section \<open>Printing\<close>

definition consputc :: "int \<Rightarrow> 'a cstate_scheme \<Rightarrow> (unit, 'a cstate_scheme) res" where
  "consputc c s =
     (if c = BACKSPACE
      then rbind (uartputc_sync 8 s) (\<lambda>_ s. rbind (uartputc_sync 32 s) (\<lambda>_ s. uartputc_sync 8 s))
      else uartputc_sync (of_int c) s)"

definition digits :: "u8 list" where
  "digits = str ''0123456789abcdef''"

function print_digits :: "nat \<Rightarrow> nat \<Rightarrow> u8 list" where
  "print_digits x base =
     digits ! (x mod base) # (if base < 2 \<or> x div base = 0 then [] else print_digits (x div base) base)"
  by pat_completeness auto
termination
  by (relation "measure fst") (auto simp: div_less_dividend div_greater_zero_iff)

declare print_digits.simps [simp del]

text \<open>The characters that \<open>printint\<close> puts into \<open>buf\<close>, last character first.\<close>

definition int_chars :: "int \<Rightarrow> nat \<Rightarrow> bool \<Rightarrow> u8 list" where
  "int_chars xx base sign =
     (let neg = (sign \<and> xx < 0); x = (if neg then of_int (- xx) else of_int xx :: u32)
      in print_digits (unat x) base @ (if neg then str ''-'' else []))"

definition put_chars :: "u8 list \<Rightarrow> 'a cstate_scheme \<Rightarrow> (unit, 'a cstate_scheme) res" where
  "put_chars cs s = rfor cs (\<lambda>c. consputc (uint c)) s"

definition printint :: "int \<Rightarrow> nat \<Rightarrow> bool \<Rightarrow> 'a cstate_scheme \<Rightarrow> (unit, 'a cstate_scheme) res" where
  "printint xx base sign s = put_chars (rev (int_chars xx base sign)) s"

definition ptr_chars :: "u64 \<Rightarrow> u8 list" where
  "ptr_chars x = str ''0x'' @ map (\<lambda>i. digits ! unat (drop_bit 60 (push_bit (4 * i) x))) [0..<16]"

definition printptr :: "u64 \<Rightarrow> 'a cstate_scheme \<Rightarrow> (unit, 'a cstate_scheme) res" where
  "printptr x s = put_chars (ptr_chars x) s"

datatype arg = AInt int | APtr u64 | AStr "u8 list option"

fun printf_loop :: "u8 list \<Rightarrow> arg list \<Rightarrow> 'a cstate_scheme \<Rightarrow> (unit, 'a cstate_scheme) res" where
  "printf_loop [] args s = Ret () s"
| "printf_loop [c] args s = (if c = 0 \<or> c = 37 then Ret () s else consputc (uint c) s)"
| "printf_loop (c # d # cs) args s =
     (if c = 0 then Ret () s
      else if c \<noteq> 37 then rbind (consputc (uint c) s) (\<lambda>_ s. printf_loop (d # cs) args s)
      else if d = 0 then Ret () s
      else if d = of_char CHR ''d'' then
        (case args of AInt x # args \<Rightarrow> rbind (printint x 10 True s) (\<lambda>_ s. printf_loop cs args s) | _ \<Rightarrow> Panic ''ub'')
      else if d = of_char CHR ''x'' then
        (case args of AInt x # args \<Rightarrow> rbind (printint x 16 True s) (\<lambda>_ s. printf_loop cs args s) | _ \<Rightarrow> Panic ''ub'')
      else if d = of_char CHR ''p'' then
        (case args of APtr x # args \<Rightarrow> rbind (printptr x s) (\<lambda>_ s. printf_loop cs args s) | _ \<Rightarrow> Panic ''ub'')
      else if d = of_char CHR ''s'' then
        (case args of
           AStr x # args \<Rightarrow>
             let t = (case x of None \<Rightarrow> str ''(null)'' | Some t \<Rightarrow> takeWhile (\<lambda>c. c \<noteq> 0) t)
             in rbind (put_chars t s) (\<lambda>_ s. printf_loop cs args s)
         | _ \<Rightarrow> Panic ''ub'')
      else if d = 37 then rbind (consputc 37 s) (\<lambda>_ s. printf_loop cs args s)
      else rbind (consputc 37 s) (\<lambda>_ s. rbind (consputc (uint d) s) (\<lambda>_ s. printf_loop cs args s)))"

definition printf :: "u8 list option \<Rightarrow> arg list \<Rightarrow> 'a cstate_scheme \<Rightarrow> (unit, 'a cstate_scheme) res" where
  "printf fmt args s = (case fmt of None \<Rightarrow> Panic ''null fmt'' | Some fmt \<Rightarrow> printf_loop fmt args s)"

definition printfinit :: "'a cstate_scheme \<Rightarrow> 'a cstate_scheme" where
  "printfinit s = s\<lparr>pr_locking := True\<rparr>"

text \<open>What \<open>panic\<close> does before it stops for ever.\<close>

definition panic :: "u8 list \<Rightarrow> 'a cstate_scheme \<Rightarrow> (unit, 'a cstate_scheme) res" where
  "panic msg s =
     (let s = s\<lparr>pr_locking := False\<rparr> in
      rbind (printf (Some (str ''panic: '')) [] s) (\<lambda>_ s.
      rbind (printf (Some msg) [] s) (\<lambda>_ s.
      rbind (printf (Some [10]) [] s) (\<lambda>_ s. Ret () (s\<lparr>panicked := True\<rparr>)))))"

definition state_name :: "procstate \<Rightarrow> u8 list" where
  "state_name st = str (case st of UNUSED \<Rightarrow> ''unused'' | USED \<Rightarrow> ''used'' | SLEEPING \<Rightarrow> ''sleep '' | RUNNABLE \<Rightarrow> ''runble''
     | RUNNING \<Rightarrow> ''run   '' | ZOMBIE \<Rightarrow> ''zombie'')"

definition procdump_one :: "nat \<Rightarrow> 'a cstate_scheme \<Rightarrow> (unit, 'a cstate_scheme) res" where
  "procdump_one i s =
     (let p = getp i s in
      if p_state p = UNUSED then Ret () s
      else rbind (printf (Some (str ''%d %s %s'')) [AInt (p_pid p), AStr (Some (state_name (p_state p))), AStr (Some (p_name p))] s)
        (\<lambda>_ s. printf (Some [10]) [] s))"

definition procdump :: "'a cstate_scheme \<Rightarrow> (unit, 'a cstate_scheme) res" where
  "procdump s = rbind (printf (Some [10]) [] s) (\<lambda>_ s. rfor [0..<NPROC] procdump_one s)"

section \<open>Console\<close>

function consolewrite_loop :: "bool \<Rightarrow> u64 \<Rightarrow> int \<Rightarrow> int \<Rightarrow> 'a cstate_scheme \<Rightarrow> (int, 'a cstate_scheme) res" where
  "consolewrite_loop user_src src i n s =
     (if i < n then
        rbind (either_copyin user_src (src + of_int i) 1 s) (\<lambda>(r, bs) s.
          if r = -1 then Ret i s
          else rbind (uartputc (hd bs) s) (\<lambda>_ s. consolewrite_loop user_src src (i + 1) n s))
      else Ret i s)"
  by pat_completeness auto
termination by (relation "measure (\<lambda>(u, a, i, n, s). nat (n - i))") auto

declare consolewrite_loop.simps [simp del]

definition consolewrite :: "bool \<Rightarrow> u64 \<Rightarrow> int \<Rightarrow> 'a cstate_scheme \<Rightarrow> (int, 'a cstate_scheme) res" where
  "consolewrite user_src src n s = consolewrite_loop user_src src 0 n s"

function consoleread_loop :: "bool \<Rightarrow> u64 \<Rightarrow> int \<Rightarrow> int \<Rightarrow> 'a cstate_scheme \<Rightarrow> (int, 'a cstate_scheme) res" where
  "consoleread_loop user_dst dst n target s =
     (if n > 0 then
        if c_r (cons s) = c_w (cons s) then
          with_myproc s (\<lambda>p. if killed p s then Ret (-1) s else sleep ChanCons s)
        else
          let c = aget INPUT_BUF_SIZE (c_buf (cons s)) (c_r (cons s));
              s = modcons (\<lambda>x. x\<lparr>c_r := c_r x + 1\<rparr>) s
          in if c = 4 then Ret (target - n) (if n < target then modcons (\<lambda>x. x\<lparr>c_r := c_r x - 1\<rparr>) s else s)
             else rbind (either_copyout user_dst dst [c] s) (\<lambda>r s.
               if r = -1 then Ret (target - n) s
               else if c = 10 then Ret (target - (n - 1)) s
               else consoleread_loop user_dst (dst + 1) (n - 1) target s)
      else Ret (target - n) s)"
  by pat_completeness auto
termination by (relation "measure (\<lambda>(u, a, n, t, s). nat n)") auto

declare consoleread_loop.simps [simp del]

definition consoleread :: "bool \<Rightarrow> u64 \<Rightarrow> int \<Rightarrow> 'a cstate_scheme \<Rightarrow> (int, 'a cstate_scheme) res" where
  "consoleread user_dst dst n s = consoleread_loop user_dst dst n n s"

lemma uartputc_sync_cons: "uartputc_sync c s = Ret u s' \<Longrightarrow> cons s' = cons s"
  by (auto simp: uartputc_sync_def write_uart_def split: if_splits)

lemma consputc_cons: "consputc c s = Ret u s' \<Longrightarrow> cons s' = cons s"
  by (auto simp: consputc_def rbind_eq_Ret dest!: uartputc_sync_cons split: if_splits)

lemma unat_pred_diff: "e \<noteq> w \<Longrightarrow> unat (e - 1 - w) < unat (e - w)" for e w :: u32
  using unat_minus_one [of "e - w"] by (simp add: diff_diff_eq add.commute unat_gt_0 word_less_nat_alt [symmetric])

text \<open>The loop of \<open>^U\<close>: erase the line being edited.\<close>

function kill_line :: "'a cstate_scheme \<Rightarrow> (unit, 'a cstate_scheme) res" where
  "kill_line s =
     (if c_e (cons s) \<noteq> c_w (cons s) \<and> aget INPUT_BUF_SIZE (c_buf (cons s)) (c_e (cons s) - 1) \<noteq> 10
      then rbind (consputc BACKSPACE (modcons (\<lambda>x. x\<lparr>c_e := c_e x - 1\<rparr>) s)) (\<lambda>_ s. kill_line s)
      else Ret () s)"
  by pat_completeness auto
termination
  by (relation "measure (\<lambda>s. unat (c_e (cons s) - c_w (cons s)))")
    (auto dest!: consputc_cons simp: modcons_def unat_pred_diff)

declare kill_line.simps [simp del]

definition consoleintr :: "int \<Rightarrow> 'a cstate_scheme \<Rightarrow> (unit, 'a cstate_scheme) res" where
  "consoleintr c s =
     (if c = 16 then procdump s
      else if c = 21 then kill_line s
      else if c = 8 \<or> c = 0x7f then
        (if c_e (cons s) \<noteq> c_w (cons s)
         then consputc BACKSPACE (modcons (\<lambda>x. x\<lparr>c_e := c_e x - 1\<rparr>) s)
         else Ret () s)
      else if c \<noteq> 0 \<and> unat (c_e (cons s) - c_r (cons s)) < INPUT_BUF_SIZE then
        let c = (if c = 13 then 10 else c) in
        rbind (consputc c s) (\<lambda>_ s.
          let s = modcons (\<lambda>x. x\<lparr>c_buf := aput INPUT_BUF_SIZE (c_buf x) (c_e x) (of_int c), c_e := c_e x + 1\<rparr>) s in
          if c = 10 \<or> c = 4 \<or> unat (c_e (cons s) - c_r (cons s)) = INPUT_BUF_SIZE
          then Ret () (wakeup ChanCons (modcons (\<lambda>x. x\<lparr>c_w := c_e x\<rparr>) s))
          else Ret () s)
      else Ret () s)"

definition consoleinit :: "'a cstate_scheme \<Rightarrow> 'a cstate_scheme" where
  "consoleinit s =
     (let s = uartinit s
      in s\<lparr>devsw := (devsw s)[CONSOLE := \<lparr>dev_read = Some Consoleread, dev_write = Some Consolewrite\<rparr>]\<rparr>)"

text \<open>\<open>uartintr\<close>: at most \<open>fuel\<close> received bytes, then the transmit buffer.\<close>

fun uartintr_loop :: "nat \<Rightarrow> 'a cstate_scheme \<Rightarrow> (unit, 'a cstate_scheme) res" where
  "uartintr_loop 0 s = Panic ''hang''"
| "uartintr_loop (Suc fuel) s =
     (let (c, s) = uartgetc s in
      if c = -1 then Ret () s else rbind (consoleintr c s) (\<lambda>_ s. uartintr_loop fuel s))"

definition uartintr :: "'a cstate_scheme \<Rightarrow> (unit, 'a cstate_scheme) res" where
  "uartintr s = rbind (uartintr_loop (Suc (length (u_in (uart s)))) s) (\<lambda>_ s. Ret () (uartstart s))"

interpretation line: ring_buffer INPUT_BUF_SIZE "\<lambda>b. length b = INPUT_BUF_SIZE"
  "aput INPUT_BUF_SIZE :: u8 list \<Rightarrow> u32 \<Rightarrow> u8 \<Rightarrow> u8 list" "aget INPUT_BUF_SIZE"
  by (rule aring) simp_all

end
