(* ===== verification/File.thy ===== *)
theory File
  imports Console
begin

text \<open>
  Open files and pipes, \<^verbatim>\<open>kernel/file.c\<close> and \<^verbatim>\<open>kernel/pipe.c\<close>. An open file is known by its slot in
  \<open>ftable\<close>, a pipe by the address of its page; \<open>pipes\<close> holds the structure stored there. The
  record \<open>kernel\<close> is the whole kernel state. \<open>junk\<close> stands for bytes that the code leaves
  uninitialised.
\<close>

section \<open>State\<close>

datatype filetype = FD_NONE | FD_PIPE | FD_INODE | FD_DEVICE

record file_t =
  f_type :: filetype
  f_ref :: int
  f_readable :: bool
  f_writable :: bool
  f_pipe :: u64
  f_ip :: "nat option"
  f_off :: u32
  f_major :: u16

definition PIPESIZE :: nat where [simp]: "PIPESIZE = 512"

record pipe =
  pi_data :: "u8 list"
  pi_nread :: u32
  pi_nwrite :: u32
  pi_readopen :: bool
  pi_writeopen :: bool

text \<open>Addresses of the code the kernel stores in registers and page tables.\<close>

record symtab =
  sym_trampoline :: u64
  sym_uservec :: u64
  sym_userret :: u64
  sym_kernelvec :: u64
  sym_usertrap :: u64
  sym_forkret :: u64

record kernel = cstate +
  ftable :: "file_t list"
  pipes :: "u64 \<Rightarrow> pipe"
  syms :: symtab
  first :: bool

definition getf :: "nat \<Rightarrow> 'a kernel_scheme \<Rightarrow> file_t" where
  "getf f s = ftable s ! f"

definition modf :: "nat \<Rightarrow> (file_t \<Rightarrow> file_t) \<Rightarrow> 'a kernel_scheme \<Rightarrow> 'a kernel_scheme" where
  "modf f g s = s\<lparr>ftable := (ftable s)[f := g (ftable s ! f)]\<rparr>"

definition modpipe :: "u64 \<Rightarrow> (pipe \<Rightarrow> pipe) \<Rightarrow> 'a kernel_scheme \<Rightarrow> 'a kernel_scheme" where
  "modpipe a g s = s\<lparr>pipes := (pipes s)(a := g (pipes s a))\<rparr>"

section \<open>Pipes\<close>

definition pipeclose :: "u64 \<Rightarrow> bool \<Rightarrow> 'a kernel_scheme \<Rightarrow> (unit, 'a kernel_scheme) res" where
  "pipeclose a writable s =
     (let s = (if writable then wakeup (ChanPipeRead a) (modpipe a (\<lambda>x. x\<lparr>pi_writeopen := False\<rparr>) s)
               else wakeup (ChanPipeWrite a) (modpipe a (\<lambda>x. x\<lparr>pi_readopen := False\<rparr>) s))
      in if \<not> pi_readopen (pipes s a) \<and> \<not> pi_writeopen (pipes s a) then kfree a s else Ret () s)"

text \<open>The loop of \<open>pipewrite\<close> from byte \<open>i\<close> on.\<close>

function pipewrite_loop :: "u64 \<Rightarrow> u64 \<Rightarrow> int \<Rightarrow> int \<Rightarrow> nat \<Rightarrow> 'a kernel_scheme \<Rightarrow> (int, 'a kernel_scheme) res" where
  "pipewrite_loop a addr i n pr s =
     (if i < n then
        if \<not> pi_readopen (pipes s a) \<or> killed pr s then Ret (-1) s
        else if pi_nwrite (pipes s a) = pi_nread (pipes s a) + of_nat PIPESIZE
        then sleep (ChanPipeWrite a) (wakeup (ChanPipeRead a) s)
        else rbind (copyin (p_pagetable (getp pr s)) (addr + of_int i) 1 s) (\<lambda>(r, ch) s.
          if r = -1 then Ret i (wakeup (ChanPipeRead a) s)
          else pipewrite_loop a addr (i + 1) n pr
            (modpipe a (\<lambda>x. x\<lparr>pi_data := aput PIPESIZE (pi_data x) (pi_nwrite x) (hd ch), pi_nwrite := pi_nwrite x + 1\<rparr>) s))
      else Ret i (wakeup (ChanPipeRead a) s))"
  by pat_completeness auto
termination by (relation "measure (\<lambda>(a, addr, i, n, pr, s). nat (n - i))") auto

declare pipewrite_loop.simps [simp del]

definition pipewrite :: "u64 \<Rightarrow> u64 \<Rightarrow> int \<Rightarrow> 'a kernel_scheme \<Rightarrow> (int, 'a kernel_scheme) res" where
  "pipewrite a addr n s = with_myproc s (\<lambda>pr. pipewrite_loop a addr 0 n pr s)"

function piperead_loop :: "u64 \<Rightarrow> u64 \<Rightarrow> int \<Rightarrow> int \<Rightarrow> nat \<Rightarrow> 'a kernel_scheme \<Rightarrow> (int, 'a kernel_scheme) res" where
  "piperead_loop a addr i n pr s =
     (if i < n \<and> pi_nread (pipes s a) \<noteq> pi_nwrite (pipes s a) then
        let ch = aget PIPESIZE (pi_data (pipes s a)) (pi_nread (pipes s a));
            s = modpipe a (\<lambda>x. x\<lparr>pi_nread := pi_nread x + 1\<rparr>) s
        in rbind (copyout (p_pagetable (getp pr s)) (addr + of_int i) [ch] s) (\<lambda>r s.
             if r = -1 then Ret i (wakeup (ChanPipeWrite a) s) else piperead_loop a addr (i + 1) n pr s)
      else Ret i (wakeup (ChanPipeWrite a) s))"
  by pat_completeness auto
termination by (relation "measure (\<lambda>(a, addr, i, n, pr, s). nat (n - i))") auto

declare piperead_loop.simps [simp del]

definition piperead :: "u64 \<Rightarrow> u64 \<Rightarrow> int \<Rightarrow> 'a kernel_scheme \<Rightarrow> (int, 'a kernel_scheme) res" where
  "piperead a addr n s =
     with_myproc s (\<lambda>pr.
       if pi_nread (pipes s a) = pi_nwrite (pipes s a) \<and> pi_writeopen (pipes s a) then
         (if killed pr s then Ret (-1) s else sleep (ChanPipeRead a) s)
       else piperead_loop a addr 0 n pr s)"

section \<open>The file table\<close>

definition filealloc :: "'a kernel_scheme \<Rightarrow> (nat option, 'a kernel_scheme) res" where
  "filealloc s =
     (case find_index (\<lambda>f. f_ref f = 0) (ftable s) of
        None \<Rightarrow> Ret None s
      | Some f \<Rightarrow> Ret (Some f) (modf f (\<lambda>x. x\<lparr>f_ref := 1\<rparr>) s))"

definition filedup :: "nat \<Rightarrow> 'a kernel_scheme \<Rightarrow> (nat, 'a kernel_scheme) res" where
  "filedup f s =
     (if f_ref (getf f s) < 1 then Panic ''filedup''
      else Ret f (modf f (\<lambda>x. x\<lparr>f_ref := f_ref x + 1\<rparr>) s))"

definition fileclose :: "nat \<Rightarrow> 'a kernel_scheme \<Rightarrow> (unit, 'a kernel_scheme) res" where
  "fileclose f s =
     (if f_ref (getf f s) < 1 then Panic ''fileclose''
      else let s = modf f (\<lambda>x. x\<lparr>f_ref := f_ref x - 1\<rparr>) s in
      if f_ref (getf f s) > 0 then Ret () s
      else let ff = getf f s; s = modf f (\<lambda>x. x\<lparr>f_ref := 0, f_type := FD_NONE\<rparr>) s in
      case f_type ff of
        FD_PIPE \<Rightarrow> pipeclose (f_pipe ff) (f_writable ff) s
      | FD_NONE \<Rightarrow> Ret () s
      | _ \<Rightarrow> rbind (begin_op s) (\<lambda>_ s.
          rbind (case f_ip ff of None \<Rightarrow> Panic ''kerneltrap'' | Some ip \<Rightarrow> iput ip s) (\<lambda>_ s. end_op s)))"

text \<open>Closing a file if there is one, on the error path of \<open>pipealloc\<close>.\<close>

definition fileclose_opt :: "nat option \<Rightarrow> 'a kernel_scheme \<Rightarrow> (unit, 'a kernel_scheme) res" where
  "fileclose_opt fo s = (case fo of None \<Rightarrow> Ret () s | Some f \<Rightarrow> fileclose f s)"

definition pipealloc_bad :: "nat option \<Rightarrow> nat option \<Rightarrow> 'a kernel_scheme \<Rightarrow> ((nat \<times> nat) option, 'a kernel_scheme) res" where
  "pipealloc_bad f0 f1 s = rbind (fileclose_opt f0 s) (\<lambda>_ s. rbind (fileclose_opt f1 s) (\<lambda>_ s. Ret None s))"

definition pipealloc :: "'a kernel_scheme \<Rightarrow> ((nat \<times> nat) option, 'a kernel_scheme) res" where
  "pipealloc s =
     rbind (filealloc s) (\<lambda>f0 s. case f0 of None \<Rightarrow> pipealloc_bad None None s | Some f0 \<Rightarrow>
     rbind (filealloc s) (\<lambda>f1 s. case f1 of None \<Rightarrow> pipealloc_bad (Some f0) None s | Some f1 \<Rightarrow>
     rbind (kalloc s) (\<lambda>a s.
       if a = 0 then pipealloc_bad (Some f0) (Some f1) s
       else let s = modpipe a (\<lambda>x. x\<lparr>pi_readopen := True, pi_writeopen := True, pi_nwrite := 0, pi_nread := 0\<rparr>) s;
                s = modf f0 (\<lambda>x. x\<lparr>f_type := FD_PIPE, f_readable := True, f_writable := False, f_pipe := a\<rparr>) s;
                s = modf f1 (\<lambda>x. x\<lparr>f_type := FD_PIPE, f_readable := False, f_writable := True, f_pipe := a\<rparr>) s
            in Ret (Some (f0, f1)) s)))"

section \<open>File operations\<close>

text \<open>\<open>struct stat\<close> in memory; four bytes of padding before \<open>size\<close> are not initialised.\<close>

definition stat_bytes :: "(nat \<Rightarrow> u8) \<Rightarrow> stat \<Rightarrow> u8 list" where
  "stat_bytes junk st =
     map (le_byte (st_dev st)) [0..<4] @ map (le_byte (st_ino st)) [0..<4] @ map (le_byte (st_type st)) [0..<2] @
     map (le_byte (st_nlink st)) [0..<2] @ map junk [0..<4] @ map (le_byte (st_size st)) [0..<8]"

definition filestat :: "(nat \<Rightarrow> u8) \<Rightarrow> nat \<Rightarrow> u64 \<Rightarrow> 'a kernel_scheme \<Rightarrow> (int, 'a kernel_scheme) res" where
  "filestat junk f addr s =
     (if f_type (getf f s) = FD_INODE \<or> f_type (getf f s) = FD_DEVICE then
        rbind (ilock (f_ip (getf f s)) s) (\<lambda>_ s.
          let st = stati (the (f_ip (getf f s))) s in
          rbind (iunlock (f_ip (getf f s)) s) (\<lambda>_ s.
            with_myproc s (\<lambda>p.
              rbind (copyout (p_pagetable (getp p s)) addr (stat_bytes junk st) s) (\<lambda>r s.
                Ret (if r < 0 then -1 else 0) s))))
      else Ret (-1) s)"

fun dev_call :: "devfun \<Rightarrow> bool \<Rightarrow> u64 \<Rightarrow> int \<Rightarrow> 'a kernel_scheme \<Rightarrow> (int, 'a kernel_scheme) res" where
  "dev_call Consoleread user addr n s = consoleread user addr n s"
| "dev_call Consolewrite user addr n s = consolewrite user addr n s"

definition dev_entry :: "(devsw \<Rightarrow> devfun option) \<Rightarrow> u16 \<Rightarrow> 'a kernel_scheme \<Rightarrow> devfun option" where
  "dev_entry sel mj s = (if sint mj < 0 \<or> sint mj \<ge> int NDEV then None else sel (devsw s ! unat mj))"

definition fileread :: "nat \<Rightarrow> u64 \<Rightarrow> int \<Rightarrow> 'a kernel_scheme \<Rightarrow> (int, 'a kernel_scheme) res" where
  "fileread f addr n s =
     (if \<not> f_readable (getf f s) then Ret (-1) s
      else case f_type (getf f s) of
        FD_PIPE \<Rightarrow> piperead (f_pipe (getf f s)) addr n s
      | FD_DEVICE \<Rightarrow>
          (case dev_entry dev_read (f_major (getf f s)) s of
             None \<Rightarrow> Ret (-1) s | Some d \<Rightarrow> dev_call d True addr n s)
      | FD_INODE \<Rightarrow>
          rbind (ilock (f_ip (getf f s)) s) (\<lambda>_ s.
          rbind (readi (the (f_ip (getf f s))) (UserDst addr) (f_off (getf f s)) (of_int n) s) (\<lambda>(r, _) s.
            let s = (if r > 0 then modf f (\<lambda>x. x\<lparr>f_off := f_off x + of_int r\<rparr>) s else s) in
            rbind (iunlock (f_ip (getf f s)) s) (\<lambda>_ s. Ret r s)))
      | FD_NONE \<Rightarrow> Panic ''fileread'')"

definition write_max :: int where
  "write_max = ((int MAXOPBLOCKS - 1 - 1 - 2) div 2) * int BSIZE"

text \<open>The loop of \<open>filewrite\<close>: the number of bytes written when it ends.\<close>

function filewrite_loop :: "nat \<Rightarrow> u64 \<Rightarrow> int \<Rightarrow> int \<Rightarrow> 'a kernel_scheme \<Rightarrow> (int, 'a kernel_scheme) res" where
  "filewrite_loop f addr i n s =
     (if i < n then
        let n1 = (if n - i > write_max then write_max else n - i) in
        rbind (begin_op s) (\<lambda>_ s.
        rbind (ilock (f_ip (getf f s)) s) (\<lambda>_ s.
        rbind (writei (the (f_ip (getf f s))) (UserSrc (addr + of_int i)) (f_off (getf f s)) (of_int n1) s) (\<lambda>r s.
          let s = (if r > 0 then modf f (\<lambda>x. x\<lparr>f_off := f_off x + of_int r\<rparr>) s else s) in
          rbind (iunlock (f_ip (getf f s)) s) (\<lambda>_ s.
          rbind (end_op s) (\<lambda>_ s.
            if r \<noteq> n1 then Ret i s else filewrite_loop f addr (i + r) n s)))))
      else Ret i s)"
  by pat_completeness auto
termination
  by (relation "measure (\<lambda>(f, addr, i, n, s). nat (n - i))") (auto simp: write_max_def)

declare filewrite_loop.simps [simp del]

definition filewrite :: "nat \<Rightarrow> u64 \<Rightarrow> int \<Rightarrow> 'a kernel_scheme \<Rightarrow> (int, 'a kernel_scheme) res" where
  "filewrite f addr n s =
     (if \<not> f_writable (getf f s) then Ret (-1) s
      else case f_type (getf f s) of
        FD_PIPE \<Rightarrow> pipewrite (f_pipe (getf f s)) addr n s
      | FD_DEVICE \<Rightarrow>
          (case dev_entry dev_write (f_major (getf f s)) s of
             None \<Rightarrow> Ret (-1) s | Some d \<Rightarrow> dev_call d True addr n s)
      | FD_INODE \<Rightarrow> rbind (filewrite_loop f addr 0 n s) (\<lambda>i s. Ret (if i = n then n else -1) s)
      | FD_NONE \<Rightarrow> Panic ''filewrite'')"

interpretation pipe_ring: ring_buffer PIPESIZE "\<lambda>b. length b = PIPESIZE"
  "aput PIPESIZE :: u8 list \<Rightarrow> u32 \<Rightarrow> u8 \<Rightarrow> u8 list" "aget PIPESIZE"
  by (rule aring) simp_all

end
