(* ===== verification/Vm_Tables.thy ===== *)
theory Vm_Tables
  imports Vm
begin

text \<open>
  Page tables as trees. \<open>leaf_pte m root va\<close> is the abstraction of a table: the entry for each
  virtual page, 0 where there is none. A ghost typing \<open>\<Gamma>\<close> of page-table pages by root and
  position makes the tree structure explicit, so that distinct tables and distinct positions
  never share a page. Under it, walking with allocation changes no table, and mapping and
  unmapping are point updates of the abstraction.
\<close>

section \<open>Abstraction\<close>

fun leaf_val :: "mem \<Rightarrow> u64 \<Rightarrow> u64 list \<Rightarrow> u64" where
  "leaf_val m p [] = 0"
| "leaf_val m p [i] = load64 m (pte_addr p i)"
| "leaf_val m p (i # j # is) =
     (if load64 m (pte_addr p i) AND PTE_V \<noteq> 0
      then leaf_val m (PTE2PA (load64 m (pte_addr p i))) (j # is) else 0)"

text \<open>The indices of an address from level \<open>l\<close> down.\<close>

fun idx :: "nat \<Rightarrow> u64 \<Rightarrow> u64 list" where
  "idx 0 va = [PX 0 va]"
| "idx (Suc l) va = PX (Suc l) va # idx l va"

definition leaf_pte :: "mem \<Rightarrow> u64 \<Rightarrow> u64 \<Rightarrow> u64" where
  "leaf_pte m root va = leaf_val m root (idx 2 va)"

text \<open>The address of the leaf entry, when the interior entries on the way are valid.\<close>

fun slot :: "mem \<Rightarrow> u64 \<Rightarrow> u64 list \<Rightarrow> u64 option" where
  "slot m p [] = None"
| "slot m p [i] = Some (pte_addr p i)"
| "slot m p (i # j # is) =
     (if load64 m (pte_addr p i) AND PTE_V \<noteq> 0
      then slot m (PTE2PA (load64 m (pte_addr p i))) (j # is) else None)"

lemma leaf_val_slot: "leaf_val m p is = (case slot m p is of None \<Rightarrow> 0 | Some a \<Rightarrow> load64 m a)"
  by (induction m p "is" rule: leaf_val.induct) auto

lemma slot_Cons:
  "is \<noteq> [] \<Longrightarrow> slot m p (i # is) =
     (if load64 m (pte_addr p i) AND PTE_V \<noteq> 0 then slot m (PTE2PA (load64 m (pte_addr p i))) is else None)"
  by (cases "is") simp_all

lemma idx_nonempty [simp]: "idx l va \<noteq> []"
  by (cases l) simp_all

lemma length_idx [simp]: "length (idx l va) = Suc l"
  by (induction l) simp_all

text \<open>The indices depend on the page of the address only.\<close>

lemma PX_page: "PX l (PGROUNDDOWN va) = PX l va"
  by (rule bit_eqI) (auto simp: bit_PX PGROUNDDOWN_shift bit_simps add.assoc dest: bit_imp_le_length)

lemma idx_page: "PGROUNDDOWN vb = PGROUNDDOWN va \<Longrightarrow> idx l vb = idx l va"
  by (induction l) (metis PX_page idx.simps(1), metis PX_page idx.simps(2))

section \<open>Typed page-table pages\<close>

type_synonym pt_typing = "u64 \<Rightarrow> (u64 \<times> u64 list) option"

definition small :: "u64 \<Rightarrow> bool" where
  "small i \<longleftrightarrow> unat i < 512"

lemma small_PX [simp]: "small (PX l va)"
  by (simp add: small_def PX_less)

lemma small_of_nat [simp]: "n < 512 \<Longrightarrow> small (of_nat n)"
  by (simp add: small_def unat_of_nat_lt)

definition pt_typed :: "mem \<Rightarrow> pt_typing \<Rightarrow> bool" where
  "pt_typed m \<Gamma> \<longleftrightarrow>
     (\<forall>p r pi. \<Gamma> p = Some (r, pi) \<longrightarrow>
        page_aligned p \<and> p \<noteq> 0 \<and> length pi \<le> 2 \<and> (pi = [] \<longrightarrow> r = p) \<and>
        (length pi < 2 \<longrightarrow>
          (\<forall>i. small i \<longrightarrow> load64 m (pte_addr p i) AND PTE_V \<noteq> 0 \<longrightarrow>
             \<Gamma> (PTE2PA (load64 m (pte_addr p i))) = Some (r, pi @ [i]) \<and>
             load64 m (pte_addr p i) AND (PTE_R OR PTE_W OR PTE_X) = 0)))"

definition vm_wf :: "'a kmem_scheme \<Rightarrow> u64 list \<Rightarrow> pt_typing \<Rightarrow> bool" where
  "vm_wf s fl \<Gamma> \<longleftrightarrow>
     kmem_wf s fl \<and> pt_typed (memory s) \<Gamma> \<and> (\<forall>p\<in>set fl. \<Gamma> p = None) \<and> (\<forall>p. \<Gamma> p \<noteq> None \<longrightarrow> kpage s p)"

lemma vm_wfD:
  assumes "vm_wf s fl \<Gamma>" "\<Gamma> p = Some (r, pi)"
  shows "page_aligned p" "p \<noteq> 0" "length pi \<le> 2" "p \<notin> set fl" "kpage s p"
  using assms by (auto simp: vm_wf_def pt_typed_def)

lemma pt_typed_child:
  assumes "pt_typed m \<Gamma>" "\<Gamma> p = Some (r, pi)" "length pi < 2" "small i"
    "load64 m (pte_addr p i) AND PTE_V \<noteq> 0"
  shows "\<Gamma> (PTE2PA (load64 m (pte_addr p i))) = Some (r, pi @ [i])"
  using assms unfolding pt_typed_def by blast

subsection \<open>Entries as memory words\<close>

lemma pte_addr_of_nat: "pte_addr p i = p + of_nat (8 * unat i)"
  by (simp add: pte_addr_def)

lemma pte_page [simp]:
  assumes "page_aligned p" "small i"
  shows "PGROUNDDOWN (pte_addr p i) = p"
  unfolding pte_addr_of_nat by (rule PGROUNDDOWN_offset) (use assms in \<open>auto simp: small_def\<close>)

lemma unat_pte_addr:
  assumes "page_aligned p" "small i"
  shows "unat (pte_addr p i) = unat p + 8 * unat i"
  unfolding pte_addr_of_nat by (rule unat_page_offset) (use assms in \<open>auto simp: small_def\<close>)

lemma pte_dword [simp]:
  assumes "page_aligned p" "small i"
  shows "dword_aligned (pte_addr p i)"
proof -
  obtain q where "unat p = 8 * q" using assms page_aligned_dword by (metis dword_alignedE)
  then show ?thesis using unat_pte_addr [OF assms] by (simp add: dword_aligned_def)
qed

lemma pte_addr_inj:
  assumes "page_aligned p" "page_aligned q" "small i" "small j"
  shows "pte_addr p i = pte_addr q j \<longleftrightarrow> p = q \<and> i = j"
proof
  assume eq: "pte_addr p i = pte_addr q j"
  then have "p = q" using assms pte_page by metis
  moreover have "8 * unat i = 8 * unat j"
    using eq unat_pte_addr assms \<open>p = q\<close> by (metis add_left_cancel)
  ultimately show "p = q \<and> i = j" by (simp add: word_unat_eq_iff)
qed simp

lemma pte_nonzero: "page_aligned p \<Longrightarrow> p \<noteq> 0 \<Longrightarrow> small i \<Longrightarrow> pte_addr p i \<noteq> 0"
  using unat_pte_addr [of p i] by (auto simp: word_unat_eq_iff)

lemma load64_zero_page:
  assumes "page_aligned p" "small i" "\<And>b. PGROUNDDOWN b = p \<Longrightarrow> m b = 0"
  shows "load64 m (pte_addr p i) = 0"
proof -
  have "load64 m (pte_addr p i) = load64 (\<lambda>_. 0) (pte_addr p i)"
    by (rule load64_page_cong) (use assms in auto)
  then show ?thesis by (simp add: load64_def)
qed

text \<open>Memory that agrees on the typed pages gives the same tables.\<close>

definition agree :: "pt_typing \<Rightarrow> mem \<Rightarrow> mem \<Rightarrow> bool" where
  "agree \<Gamma> m m' \<longleftrightarrow> (\<forall>b. \<Gamma> (PGROUNDDOWN b) \<noteq> None \<longrightarrow> m' b = m b)"

lemma agree_load:
  "agree \<Gamma> m m' \<Longrightarrow> \<Gamma> p \<noteq> None \<Longrightarrow> page_aligned p \<Longrightarrow> small i \<Longrightarrow>
   load64 m' (pte_addr p i) = load64 m (pte_addr p i)"
  by (rule load64_page_cong) (auto simp: agree_def)

lemma agree_pt_typed: "pt_typed m \<Gamma> \<Longrightarrow> agree \<Gamma> m m' \<Longrightarrow> pt_typed m' \<Gamma>"
  unfolding pt_typed_def by (simp add: agree_load) 

lemma agree_leaf_val:
  assumes "pt_typed m \<Gamma>" "agree \<Gamma> m m'"
  shows "\<Gamma> p = Some (r, pi) \<Longrightarrow> length pi + length is = 3 \<Longrightarrow> \<forall>i\<in>set is. small i \<Longrightarrow>
    leaf_val m' p is = leaf_val m p is"
proof (induction "is" arbitrary: p pi rule: induct_list012)
  case (2 i)
  then have "page_aligned p" using assms(1) by (auto simp: pt_typed_def)
  then show ?case using 2 agree_load [OF assms(2)] by simp
next
  case (3 i j "is")
  then have "page_aligned p" using assms(1) by (auto simp: pt_typed_def)
  then show ?case
    using 3 agree_load [OF assms(2)] pt_typed_child [OF assms(1) 3(3), of i] by simp
qed simp


subsection \<open>Walking\<close>

lemma small_idx [simp]: "i \<in> set (idx l va) \<Longrightarrow> small i"
  by (induction l) auto

lemma walk_loop_slot:
  "walk_loop l p va False s = Ret (case slot (memory s) p (idx l va) of None \<Rightarrow> 0 | Some a \<Rightarrow> a) s"
  by (induction l arbitrary: p) (simp_all add: Let_def slot_Cons)

lemma walk_no_alloc:
  "va < MAXVA \<Longrightarrow>
   walk root va False s = Ret (case slot (memory s) root (idx 2 va) of None \<Rightarrow> 0 | Some a \<Rightarrow> a) s"
  by (simp add: walk_def walk_loop_slot not_le)

text \<open>The slot found in a typed tree lies in a typed page at the position of the indices.\<close>

lemma slot_typed:
  assumes "pt_typed m \<Gamma>"
  shows "\<Gamma> p = Some (r, pi) \<Longrightarrow> length pi + length is = 3 \<Longrightarrow> \<forall>i\<in>set is. small i \<Longrightarrow>
    slot m p is = Some a \<Longrightarrow>
    \<exists>q i. \<Gamma> q = Some (r, pi @ butlast is) \<and> i = List.last is \<and> a = pte_addr q i"
proof (induction "is" arbitrary: p pi rule: induct_list012)
  case (3 i j "is")
  then show ?case
    using pt_typed_child [OF assms 3(3), of i] by (fastforce split: if_splits)
qed auto

lemma PA2PTE_AND:
  assumes "g < 1024"
  shows "(PA2PTE pa OR f) AND g = f AND g"
  by (rule bit_eqI) (auto simp: PA2PTE_def bit_simps dest: flags_bit_bound [OF assms])

text \<open>Linking a fresh, zeroed page below an invalid interior entry.\<close>

lemma link_typed:
  assumes ty: "pt_typed m \<Gamma>" and p: "\<Gamma> p = Some (r, pi)" "length pi < 2" "small i"
    and inv: "load64 m (pte_addr p i) AND PTE_V = 0"
    and pg: "page_aligned pg" "pg \<noteq> 0" "\<Gamma> pg = None"
    and m': "agree \<Gamma> m m1" "\<And>b. PGROUNDDOWN b = pg \<Longrightarrow> m1 b = 0"
      "m' = store64 m1 (pte_addr p i) (PA2PTE pg OR PTE_V)"
  shows "pt_typed m' (\<Gamma>(pg \<mapsto> (r, pi @ [i])))"
    and "\<Gamma> q = Some (r', pi') \<Longrightarrow> length pi' + length is = 3 \<Longrightarrow> \<forall>i\<in>set is. small i \<Longrightarrow>
      leaf_val m' q is = leaf_val m q is"
proof -
  have al: "page_aligned q" if "\<Gamma> q = Some x" for q x
    using ty that by (cases x) (auto simp: pt_typed_def)
  have ne: "pg \<noteq> p" using p pg by auto
  have new: "load64 m' (pte_addr p i) = PA2PTE pg OR PTE_V"
    by (simp add: m')
  have old: "load64 m' (pte_addr q j) = load64 m (pte_addr q j)"
    if "\<Gamma> q = Some x" "small j" "(q, j) \<noteq> (p, i)" for q j x
  proof -
    have "page_aligned p" "page_aligned q" using al p that by blast+
    moreover from this have "pte_addr p i \<noteq> pte_addr q j" using that p by (auto simp: pte_addr_inj)
    ultimately show ?thesis using that p agree_load [OF m'(1), of q j] by (simp add: m')
  qed
  have zero: "load64 m' (pte_addr pg j) = 0" if "small j" for j
    using that al p pg ne load64_zero_page [OF pg(1) that, of m1] m'(2) by (simp add: m' pte_addr_inj)
  have pa: "PTE2PA (PA2PTE pg OR PTE_V) = pg" using pg by (simp add: PTE2PA_PA2PTE)
  have fl: "(PA2PTE pg OR PTE_V) AND (PTE_R OR PTE_W OR PTE_X) = 0"
    by (simp add: PA2PTE_AND)
  show "pt_typed m' (\<Gamma>(pg \<mapsto> (r, pi @ [i])))"
    unfolding pt_typed_def
  proof (intro allI impI)
    fix q r' pi' assume q: "(\<Gamma>(pg \<mapsto> (r, pi @ [i]))) q = Some (r', pi')"
    show "page_aligned q \<and> q \<noteq> 0 \<and> length pi' \<le> 2 \<and> (pi' = [] \<longrightarrow> r' = q) \<and>
        (length pi' < 2 \<longrightarrow>
          (\<forall>j. small j \<longrightarrow> load64 m' (pte_addr q j) AND PTE_V \<noteq> 0 \<longrightarrow>
             (\<Gamma>(pg \<mapsto> (r, pi @ [i]))) (PTE2PA (load64 m' (pte_addr q j))) = Some (r', pi' @ [j]) \<and>
             load64 m' (pte_addr q j) AND (PTE_R OR PTE_W OR PTE_X) = 0))"
    proof (cases "q = pg")
      case True
      then show ?thesis using q pg p zero by auto
    next
      case False
      then have g: "\<Gamma> q = Some (r', pi')" using q by simp
      have "(\<Gamma>(pg \<mapsto> (r, pi @ [i]))) (PTE2PA (load64 m' (pte_addr q j))) = Some (r', pi' @ [j]) \<and>
             load64 m' (pte_addr q j) AND (PTE_R OR PTE_W OR PTE_X) = 0"
        if "length pi' < 2" "small j" "load64 m' (pte_addr q j) AND PTE_V \<noteq> 0" for j
      proof (cases "(q, j) = (p, i)")
        case True
        then show ?thesis using new pa fl g p by simp
      next
        case False
        then have o: "load64 m' (pte_addr q j) = load64 m (pte_addr q j)" using old g that by blast
        then have "\<Gamma> (PTE2PA (load64 m (pte_addr q j))) = Some (r', pi' @ [j]) \<and>
            load64 m (pte_addr q j) AND (PTE_R OR PTE_W OR PTE_X) = 0"
          using ty g that unfolding pt_typed_def by metis
        then show ?thesis using o pg by auto
      qed
      then show ?thesis using ty g unfolding pt_typed_def by blast
    qed
  qed
  show "leaf_val m' q is = leaf_val m q is"
    if "\<Gamma> q = Some (r', pi')" "length pi' + length is = 3" "\<forall>i\<in>set is. small i"
    using that
  proof (induction "is" arbitrary: q pi' rule: induct_list012)
    case (2 j)
    then have "q \<noteq> p" using p by auto
    then show ?case using 2 old by simp
  next
    case (3 j k "is")
    show ?case
    proof (cases "(q, j) = (p, i)")
      case True
      have "leaf_val m' pg (k # is) = 0"
        using 3 zero by (cases "is") auto
      then show ?thesis using True new pa inv by (simp del: PTE_V_def)
    next
      case False
      then have o: "load64 m' (pte_addr q j) = load64 m (pte_addr q j)" using old 3 by simp
      then show ?thesis using 3 pt_typed_child [OF ty 3(3), of j] by simp
    qed
  qed simp
qed

text \<open>
  What a walk with allocation may do: take pages off the free list and add them to the typing,
  keep every valid interior entry and every leaf of the tables there were, and touch no other
  memory.
\<close>

definition kept :: "pt_typing \<Rightarrow> mem \<Rightarrow> mem \<Rightarrow> bool" where
  "kept \<Gamma> m m' \<longleftrightarrow>
     (\<forall>q r pi i. \<Gamma> q = Some (r, pi) \<and> small i \<and> length pi < 2 \<and> load64 m (pte_addr q i) AND PTE_V \<noteq> 0 \<longrightarrow>
        load64 m' (pte_addr q i) = load64 m (pte_addr q i)) \<and>
     (\<forall>q r pi is. \<Gamma> q = Some (r, pi) \<and> length pi + length is = 3 \<and> (\<forall>i\<in>set is. small i) \<longrightarrow>
        leaf_val m' q is = leaf_val m q is)"

definition same_rest :: "'a kmem_scheme \<Rightarrow> 'a kmem_scheme \<Rightarrow> bool" where
  "same_rest s s' \<longleftrightarrow> kend s' = kend s \<and> kmem.more s' = kmem.more s"

definition grows ::
  "'a kmem_scheme \<Rightarrow> u64 list \<Rightarrow> pt_typing \<Rightarrow> 'a kmem_scheme \<Rightarrow> u64 list \<Rightarrow> pt_typing \<Rightarrow> bool" where
  "grows s fl \<Gamma> s' fl' \<Gamma>' \<longleftrightarrow>
     \<Gamma> \<subseteq>\<^sub>m \<Gamma>' \<and> (\<exists>xs. fl = xs @ fl') \<and> dom \<Gamma>' \<subseteq> dom \<Gamma> \<union> set fl \<and> same_rest s s' \<and>
     (\<forall>b. PGROUNDDOWN b \<notin> set fl \<longrightarrow> \<Gamma> (PGROUNDDOWN b) = None \<longrightarrow> memory s' b = memory s b) \<and>
     kept \<Gamma> (memory s) (memory s')"

lemma same_rest_simps [simp]:
  "same_rest s (s\<lparr>memory := m\<rparr>)" "same_rest s (s\<lparr>freelist := f\<rparr>)" "same_rest s s"
  "same_rest (t\<lparr>memory := m\<rparr>) s = same_rest t s" "same_rest (t\<lparr>freelist := f\<rparr>) s = same_rest t s"
  "same_rest s (t\<lparr>memory := m\<rparr>) = same_rest s t" "same_rest s (t\<lparr>freelist := f\<rparr>) = same_rest s t"
  by (simp_all add: same_rest_def)

lemma same_rest_trans: "same_rest s t \<Longrightarrow> same_rest t u \<Longrightarrow> same_rest s u"
  by (simp add: same_rest_def)

lemma kpage_same_rest: "same_rest s s' \<Longrightarrow> kpage s' = kpage s"
  by (simp add: same_rest_def kpage_def fun_eq_iff)

lemma kept_refl [simp]: "kept \<Gamma> m m"
  unfolding kept_def by blast

lemma kept_trans:
  assumes "\<Gamma> \<subseteq>\<^sub>m \<Gamma>'" "kept \<Gamma> m m'" "kept \<Gamma>' m' m''"
  shows "kept \<Gamma> m m''"
proof -
  have le: "\<Gamma> q = Some x \<Longrightarrow> \<Gamma>' q = Some x" for q x
    using assms(1) unfolding map_le_def by (metis domI)
  show ?thesis
    unfolding kept_def
  proof (intro conjI allI impI)
    fix q r pi i
    assume q: "\<Gamma> q = Some (r, pi) \<and> small i \<and> length pi < 2 \<and> load64 m (pte_addr q i) AND PTE_V \<noteq> 0"
    then have "load64 m' (pte_addr q i) = load64 m (pte_addr q i)"
      using assms(2) unfolding kept_def by blast
    moreover from this have "load64 m'' (pte_addr q i) = load64 m' (pte_addr q i)"
      using q le [of q "(r, pi)"] assms(3) unfolding kept_def by metis
    ultimately show "load64 m'' (pte_addr q i) = load64 m (pte_addr q i)" by simp
  next
    fix q r pi "is"
    assume q: "\<Gamma> q = Some (r, pi) \<and> length pi + length is = 3 \<and> (\<forall>i\<in>set is. small i)"
    then have "leaf_val m' q is = leaf_val m q is" using assms(2) unfolding kept_def by blast
    moreover have "leaf_val m'' q is = leaf_val m' q is"
      using q le [of q "(r, pi)"] assms(3) unfolding kept_def by blast
    ultimately show "leaf_val m'' q is = leaf_val m q is" by simp
  qed
qed

lemma grows_refl [simp]: "grows s fl \<Gamma> s fl \<Gamma>"
  by (simp add: grows_def)

lemma grows_trans:
  assumes "grows s fl \<Gamma> s1 fl1 \<Gamma>1" "grows s1 fl1 \<Gamma>1 s2 fl2 \<Gamma>2"
  shows "grows s fl \<Gamma> s2 fl2 \<Gamma>2"
proof -
  have fr: "PGROUNDDOWN b \<notin> set fl1 \<and> \<Gamma>1 (PGROUNDDOWN b) = None"
    if "PGROUNDDOWN b \<notin> set fl" "\<Gamma> (PGROUNDDOWN b) = None" for b
    using assms(1) that unfolding grows_def by auto
  have "dom \<Gamma>2 \<subseteq> dom \<Gamma> \<union> set fl"
  proof -
    have "dom \<Gamma>1 \<subseteq> dom \<Gamma> \<union> set fl" "dom \<Gamma>2 \<subseteq> dom \<Gamma>1 \<union> set fl1" "set fl1 \<subseteq> set fl"
      using assms unfolding grows_def by auto
    then show ?thesis by blast
  qed
  moreover have "\<exists>xs. fl = xs @ fl2" using assms unfolding grows_def by (metis append.assoc)
  moreover have "kept \<Gamma> (memory s) (memory s2)"
    using assms unfolding grows_def by (blast intro: kept_trans)
  moreover have "memory s2 b = memory s b"
    if "PGROUNDDOWN b \<notin> set fl" "\<Gamma> (PGROUNDDOWN b) = None" for b
  proof -
    have "memory s1 b = memory s b" using assms(1) that unfolding grows_def by blast
    moreover have "memory s2 b = memory s1 b" using assms(2) fr [OF that] unfolding grows_def by blast
    ultimately show ?thesis by simp
  qed
  moreover have "\<Gamma> \<subseteq>\<^sub>m \<Gamma>2" "same_rest s s2"
    using assms unfolding grows_def by (blast intro: map_le_trans same_rest_trans)+
  ultimately show ?thesis unfolding grows_def by blast
qed

lemma grows_link:
  assumes wf: "vm_wf s (pg # fl) \<Gamma>" and p: "\<Gamma> p = Some (r, pi)" "length pi < 2" "small i"
    and inv: "load64 (memory s) (pte_addr p i) AND PTE_V = 0"
  shows "\<exists>s1 s2. kalloc s = Ret pg s1 \<and>
     s2 = set_pte (pte_addr p i) (PA2PTE pg OR PTE_V) (zero_page pg s1) \<and>
     vm_wf s2 fl (\<Gamma>(pg \<mapsto> (r, pi @ [i]))) \<and> grows s (pg # fl) \<Gamma> s2 fl (\<Gamma>(pg \<mapsto> (r, pi @ [i]))) \<and>
     load64 (memory s2) (pte_addr p i) = PA2PTE pg OR PTE_V"
proof -
  let ?\<Gamma> = "\<Gamma>(pg \<mapsto> (r, pi @ [i]))"
  from wf have kw: "kmem_wf s (pg # fl)" and ty: "pt_typed (memory s) \<Gamma>"
    and none: "\<Gamma> pg = None" "\<forall>q\<in>set fl. \<Gamma> q = None" and kp: "\<forall>p. \<Gamma> p \<noteq> None \<longrightarrow> kpage s p"
    by (auto simp: vm_wf_def)
  from kalloc_Cons [OF kw] obtain f s1 where
    s1: "s1 = s\<lparr>freelist := f, memory := \<lambda>a. if PGROUNDDOWN a = pg then 5 else memory s a\<rparr>"
      "kalloc s = Ret pg s1" "kmem_wf s1 fl" "kpage s pg" "pg \<notin> set fl"
    unfolding Let_def by blast
  have pg: "page_aligned pg" "pg \<noteq> 0" and kend: "kend s \<noteq> 0" and flk: "\<forall>q\<in>set fl. kpage s q"
    using s1 kw by (auto simp: kmem_wf_def dest: kpage_nonzero)
  have pal: "page_aligned p" "p \<notin> set fl" using vm_wfD [OF wf p(1)] by auto
  define m1 where "m1 = (\<lambda>a. if PGROUNDDOWN a = pg then 0 else memory s a)"
  define s2 where "s2 = set_pte (pte_addr p i) (PA2PTE pg OR PTE_V) (zero_page pg s1)"
  have m2: "memory s2 = store64 m1 (pte_addr p i) (PA2PTE pg OR PTE_V)"
    using pg by (simp add: s2_def set_pte_def zero_page_def memset_page s1 m1_def fun_eq_iff store64_def)
  have ag: "agree \<Gamma> (memory s) m1" unfolding agree_def m1_def using none by auto
  have z: "\<And>b. PGROUNDDOWN b = pg \<Longrightarrow> m1 b = 0" by (simp add: m1_def)
  note link = link_typed [OF ty p inv pg none(1) ag z m2]
  have out: "memory s2 b = memory s b" if "PGROUNDDOWN b \<noteq> p" "PGROUNDDOWN b \<noteq> pg" for b
    using that pal p by (simp add: m2 store64_other_page m1_def)
  have "free_chain (memory s2) f fl = free_chain (memory s1) f fl"
  proof (rule free_chain_cong)
    fix q b assume "q \<in> set fl" "PGROUNDDOWN b = q"
    then have "PGROUNDDOWN b \<noteq> p" "PGROUNDDOWN b \<noteq> pg" using pal s1(5) by auto
    then show "memory s2 b = memory s1 b" using out s1(1) by simp
  qed (use flk in auto)
  moreover have st: "freelist s2 = f" "same_rest s s2"
    by (simp_all add: s2_def set_pte_def zero_page_def s1(1))
  moreover have "free_chain (memory s1) f fl" "distinct fl"
    using s1(1,3) by (auto simp: kmem_wf_def)
  ultimately have "kmem_wf s2 fl"
    using flk kend kpage_same_rest [OF st(2)] unfolding kmem_wf_def by (simp add: same_rest_def)
  then have "vm_wf s2 fl ?\<Gamma>"
    using link(1) none(2) kp s1(4,5) kpage_same_rest [OF st(2)] unfolding vm_wf_def by auto
  moreover have "kept \<Gamma> (memory s) (memory s2)"
    unfolding kept_def
  proof (intro conjI allI impI)
    fix q r' pi' j
    assume q: "\<Gamma> q = Some (r', pi') \<and> small j \<and> length pi' < 2 \<and> load64 (memory s) (pte_addr q j) AND PTE_V \<noteq> 0"
    then have "page_aligned q" using vm_wfD [OF wf] by blast
    moreover from this have "pte_addr p i \<noteq> pte_addr q j" using q inv pal p by (auto simp: pte_addr_inj)
    ultimately show "load64 (memory s2) (pte_addr q j) = load64 (memory s) (pte_addr q j)"
      using q p pal agree_load [OF ag, of q j] by (simp add: m2)
  next
    fix q r' pi' "is"
    assume "\<Gamma> q = Some (r', pi') \<and> length pi' + length is = 3 \<and> Ball (set is) small"
    then show "leaf_val (memory s2) q is = leaf_val (memory s) q is" using link(2) by blast
  qed
  moreover have "memory s2 b = memory s b" if "PGROUNDDOWN b \<notin> set (pg # fl)" "\<Gamma> (PGROUNDDOWN b) = None" for b
    using that p(1) out [of b] by (cases "PGROUNDDOWN b = p") auto
  ultimately have "vm_wf s2 fl ?\<Gamma> \<and> grows s (pg # fl) \<Gamma> s2 fl ?\<Gamma>"
    using st(2) none(1) unfolding grows_def by (auto simp: map_le_def)
  then show ?thesis using s1(2) s2_def m2 by auto
qed

lemma walk_loop_alloc:
  assumes "vm_wf s fl \<Gamma>" "\<Gamma> p = Some (r, pi)" "length pi + l = 2"
  shows "\<exists>a s' fl' \<Gamma>'. walk_loop l p va True s = Ret a s' \<and> vm_wf s' fl' \<Gamma>' \<and> grows s fl \<Gamma> s' fl' \<Gamma>' \<and>
    (if a = 0 then fl' = [] else slot (memory s') p (idx l va) = Some a)"
  using assms
proof (induction l arbitrary: p pi s fl \<Gamma>)
  case 0
  then have "page_aligned p" "p \<noteq> 0" using vm_wfD by metis+
  then show ?case
    using 0 pte_nonzero [of p "PX 0 va"]
    by (intro exI [of _ "pte_addr p (PX 0 va)"] exI [of _ s] exI [of _ fl] exI [of _ \<Gamma>]) simp
next
  case (Suc l)
  let ?i = "PX (Suc l) va" and ?e = "load64 (memory s) (pte_addr p (PX (Suc l) va))"
  have len: "length pi < 2" using Suc.prems by simp
  have ty: "pt_typed (memory s) \<Gamma>" using Suc.prems by (simp add: vm_wf_def)
  show ?case
  proof (cases "?e AND PTE_V \<noteq> 0")
    case True
    have ch: "\<Gamma> (PTE2PA ?e) = Some (r, pi @ [?i])"
      using pt_typed_child [OF ty Suc.prems(2) len _ True] by simp
    then obtain a s' fl' \<Gamma>' where w: "walk_loop l (PTE2PA ?e) va True s = Ret a s'" "vm_wf s' fl' \<Gamma>'"
      "grows s fl \<Gamma> s' fl' \<Gamma>'" "if a = 0 then fl' = [] else slot (memory s') (PTE2PA ?e) (idx l va) = Some a"
      using Suc.IH [OF Suc.prems(1) ch] Suc.prems(3) by auto
    have "load64 (memory s') (pte_addr p ?i) = ?e"
      using w(3) True Suc.prems(2) len small_PX unfolding grows_def kept_def by blast
    then show ?thesis using w True
      by (intro exI [of _ a] exI [of _ s'] exI [of _ fl'] exI [of _ \<Gamma>']) (auto simp: Let_def slot_Cons)
  next
    case False
    show ?thesis
    proof (cases fl)
      case Nil
      then have "kalloc s = Ret 0 s" using Suc.prems(1) by (auto simp: vm_wf_def intro: kalloc_empty)
      then show ?thesis using Nil False Suc.prems
        by (intro exI [of _ 0] exI [of _ s] exI [of _ fl] exI [of _ \<Gamma>]) (simp add: Let_def)
    next
      case (Cons pg fl1)
      let ?\<Gamma> = "\<Gamma>(pg \<mapsto> (r, pi @ [?i]))"
      obtain s1 s2 where s: "kalloc s = Ret pg s1"
        "s2 = set_pte (pte_addr p ?i) (PA2PTE pg OR PTE_V) (zero_page pg s1)" "vm_wf s2 fl1 ?\<Gamma>"
        "grows s fl \<Gamma> s2 fl1 ?\<Gamma>" "load64 (memory s2) (pte_addr p ?i) = PA2PTE pg OR PTE_V"
        using grows_link [OF Suc.prems(1) [unfolded Cons] Suc.prems(2) len, of ?i] False Cons by auto
      have pg: "?\<Gamma> pg = Some (r, pi @ [?i])" "page_aligned pg" "pg \<noteq> 0"
        using vm_wfD [OF s(3), of pg] by auto
      then obtain a s' fl' \<Gamma>' where w: "walk_loop l pg va True s2 = Ret a s'" "vm_wf s' fl' \<Gamma>'"
        "grows s2 fl1 ?\<Gamma> s' fl' \<Gamma>'" "if a = 0 then fl' = [] else slot (memory s') pg (idx l va) = Some a"
        using Suc.IH [OF s(3) pg(1)] Suc.prems(3) by (metis (no_types, lifting) add_Suc_right add_Suc length_append_singleton)
      have "?\<Gamma> p = Some (r, pi)" using Suc.prems(1,2) Cons by (auto simp: vm_wf_def)
      moreover have v: "(PA2PTE pg OR PTE_V) AND PTE_V \<noteq> 0" by (simp add: PA2PTE_AND)
      ultimately have "load64 (memory s') (pte_addr p ?i) = PA2PTE pg OR PTE_V"
        using w(3) len small_PX s(5) unfolding grows_def kept_def by metis
      moreover have "PTE2PA (PA2PTE pg OR PTE_V) = pg" using pg by (simp add: PTE2PA_PA2PTE)
      ultimately have "slot (memory s') p (?i # idx l va) = slot (memory s') pg (idx l va)"
        using v by (simp add: slot_Cons)
      then show ?thesis using w s False pg grows_trans [OF s(4) w(3)]
        by (intro exI [of _ a] exI [of _ s'] exI [of _ fl'] exI [of _ \<Gamma>']) (auto simp: Let_def)
    qed
  qed
qed

text \<open>
  Walking with allocation never panics below \<open>MAXVA\<close>, gives 0 only when memory is exhausted,
  and otherwise the address of the entry for \<open>va\<close>; no table changes its meaning.
\<close>

lemma walk_alloc:
  assumes "vm_wf s fl \<Gamma>" "\<Gamma> root = Some (r, [])" "va < MAXVA"
  shows "\<exists>a s' fl' \<Gamma>'. walk root va True s = Ret a s' \<and> vm_wf s' fl' \<Gamma>' \<and> grows s fl \<Gamma> s' fl' \<Gamma>' \<and>
    (if a = 0 then fl' = [] else slot (memory s') root (idx 2 va) = Some a)"
  using walk_loop_alloc [OF assms(1,2), of 2 va] assms(3) by (simp add: walk_def not_le)

section \<open>Writing a leaf entry\<close>

text \<open>
  Storing into the slot of \<open>va\<close> changes the table of \<open>root\<close> at the page of \<open>va\<close> and no other
  table anywhere.
\<close>

lemma slot_other_level:
  assumes "pt_typed m \<Gamma>" "\<And>q r pi i. \<Gamma> q = Some (r, pi) \<Longrightarrow> length pi < 2 \<Longrightarrow> small i \<Longrightarrow>
      load64 m' (pte_addr q i) = load64 m (pte_addr q i)"
  shows "\<Gamma> p = Some (r, pi) \<Longrightarrow> length pi + length is = 3 \<Longrightarrow> \<forall>i\<in>set is. small i \<Longrightarrow> slot m' p is = slot m p is"
proof (induction "is" arbitrary: p pi rule: induct_list012)
  case (3 i j "is")
  then show ?case using assms(2) pt_typed_child [OF assms(1) 3(3), of i] by simp
qed simp_all

lemma set_leaf:
  assumes wf: "vm_wf s fl \<Gamma>" and root: "\<Gamma> root = Some (r, [])" "va < MAXVA"
    and a: "slot (memory s) root (idx 2 va) = Some a"
  shows "vm_wf (set_pte a v s) fl \<Gamma>"
    and "PGROUNDDOWN vb = PGROUNDDOWN va \<Longrightarrow> leaf_pte (memory (set_pte a v s)) root vb = v"
    and "\<lbrakk>\<Gamma> root' = Some (r', []); vb < MAXVA; root' \<noteq> root \<or> PGROUNDDOWN vb \<noteq> PGROUNDDOWN va\<rbrakk> \<Longrightarrow>
       leaf_pte (memory (set_pte a v s)) root' vb = leaf_pte (memory s) root' vb"
proof -
  let ?m = "memory s" and ?m' = "memory (set_pte a v s)"
  have ty: "pt_typed ?m \<Gamma>" using wf by (simp add: vm_wf_def)
  have at: "\<exists>q. \<Gamma> q = Some (r', [PX 2 vb, PX 1 vb]) \<and> b = pte_addr q (PX 0 vb)"
    if "\<Gamma> root' = Some (r', [])" "slot ?m root' (idx 2 vb) = Some b" for root' r' vb b
    using slot_typed [OF ty that(1) _ _ that(2)] by (simp add: numeral_2_eq_2 numeral_1_eq_Suc_0 del: slot.simps)
  obtain q where q: "\<Gamma> q = Some (r, [PX 2 va, PX 1 va])" "a = pte_addr q (PX 0 va)"
    using at [OF root(1) a] by blast
  have qa: "page_aligned q" "q \<notin> set fl" using vm_wfD [OF wf q(1)] by auto
  have m': "?m' = store64 ?m a v" by (simp add: set_pte_def)
  have other: "load64 ?m' (pte_addr q' i) = load64 ?m (pte_addr q' i)"
    if "\<Gamma> q' = Some x" "small i" "(q', i) \<noteq> (q, PX 0 va)" for q' i x
  proof -
    have "page_aligned q'" using vm_wfD [OF wf, of q'] that(1) by (cases x) auto
    moreover from this have "pte_addr q (PX 0 va) \<noteq> pte_addr q' i" using that qa by (auto simp: pte_addr_inj)
    ultimately show ?thesis using that qa unfolding m' unfolding q(2) by simp
  qed
  have int: "load64 ?m' (pte_addr q' i) = load64 ?m (pte_addr q' i)"
    if "\<Gamma> q' = Some (r', pi)" "length pi < 2" "small i" for q' r' pi i
    using other [of q' "(r', pi)" i] that q(1) by (cases "q' = q") auto
  have slot: "slot ?m' root' (idx 2 vb) = slot ?m root' (idx 2 vb)" if "\<Gamma> root' = Some (r', [])" for root' r' vb
    using slot_other_level [OF ty int that] by simp
  have "pt_typed ?m' \<Gamma>"
    using ty int unfolding pt_typed_def by (metis (no_types, lifting))
  moreover have "free_chain ?m' (freelist s) fl = free_chain ?m (freelist s) fl"
  proof (rule free_chain_cong)
    fix p b assume "p \<in> set fl" "PGROUNDDOWN b = p"
    then have "PGROUNDDOWN b \<noteq> q" using qa by auto
    then show "?m' b = ?m b" using qa unfolding m' unfolding q(2) by (simp add: store64_other_page)
  qed (use wf in \<open>auto simp: vm_wf_def kmem_wf_def\<close>)
  ultimately show "vm_wf (set_pte a v s) fl \<Gamma>"
    using wf by (simp add: vm_wf_def kmem_wf_def set_pte_def)
  show "leaf_pte ?m' root vb = v" if "PGROUNDDOWN vb = PGROUNDDOWN va"
  proof -
    have "idx 2 vb = idx 2 va" using that by (rule idx_page)
    then show ?thesis using slot [OF root(1), of va] a
      by (simp add: leaf_pte_def leaf_val_slot m')
  qed
  show "leaf_pte ?m' root' vb = leaf_pte ?m root' vb"
    if o: "\<Gamma> root' = Some (r', [])" "vb < MAXVA" "root' \<noteq> root \<or> PGROUNDDOWN vb \<noteq> PGROUNDDOWN va"
  proof (cases "slot ?m root' (idx 2 vb)")
    case None
    then show ?thesis using slot [OF o(1)] by (simp add: leaf_pte_def leaf_val_slot)
  next
    case (Some b)
    then obtain q' where q': "\<Gamma> q' = Some (r', [PX 2 vb, PX 1 vb])" "b = pte_addr q' (PX 0 vb)"
      using at [OF o(1)] by blast
    have "(q', PX 0 vb) \<noteq> (q, PX 0 va)"
    proof
      assume "(q', PX 0 vb) = (q, PX 0 va)"
      then have "r' = r" "PX 2 vb = PX 2 va" "PX 1 vb = PX 1 va" "PX 0 vb = PX 0 va" using q q' by auto
      moreover from this have "root' = root"
        using ty root(1) o(1) unfolding pt_typed_def by metis
      ultimately show False using PX_inj [OF o(2) root(2)] o(3) by simp
    qed
    then show ?thesis
      using Some slot [OF o(1), of vb] other [OF q'(1)] q'(2) by (simp add: leaf_pte_def leaf_val_slot)
  qed
qed

section \<open>Mapping and unmapping as updates of the abstraction\<close>

text \<open>\<open>n\<close> pages from \<open>a\<close> on, mapped to consecutive physical pages or unmapped.\<close>

definition in_pages :: "u64 \<Rightarrow> nat \<Rightarrow> u64 \<Rightarrow> bool" where
  "in_pages a n vb \<longleftrightarrow> unat a \<le> unat vb \<and> unat vb < unat a + 4096 * n"

definition map_range :: "(u64 \<Rightarrow> u64) \<Rightarrow> u64 \<Rightarrow> nat \<Rightarrow> u64 \<Rightarrow> u64 \<Rightarrow> u64 \<Rightarrow> u64" where
  "map_range T a n pa perm =
     (\<lambda>vb. if in_pages a n vb then PA2PTE (pa + (PGROUNDDOWN vb - a)) OR perm OR PTE_V else T vb)"

definition unmap_range :: "(u64 \<Rightarrow> u64) \<Rightarrow> u64 \<Rightarrow> nat \<Rightarrow> u64 \<Rightarrow> u64" where
  "unmap_range T a n = (\<lambda>vb. if in_pages a n vb then 0 else T vb)"

text \<open>All tables other than \<open>root\<close> keep their meaning; the one of \<open>root\<close> becomes \<open>T\<close>.\<close>

definition only_table :: "pt_typing \<Rightarrow> mem \<Rightarrow> mem \<Rightarrow> u64 \<Rightarrow> (u64 \<Rightarrow> u64) \<Rightarrow> bool" where
  "only_table \<Gamma> m m' root T \<longleftrightarrow>
     (\<forall>vb<MAXVA. leaf_pte m' root vb = T vb) \<and>
     (\<forall>root' r' vb. \<Gamma> root' = Some (r', []) \<longrightarrow> root' \<noteq> root \<longrightarrow> vb < MAXVA \<longrightarrow> leaf_pte m' root' vb = leaf_pte m root' vb)"

lemma in_pages_0 [simp]: "\<not> in_pages a 0 vb"
  by (simp add: in_pages_def)

lemma page_next:
  assumes "page_aligned a" "a < MAXVA"
  shows "unat (a + 4096) = unat a + 4096" "page_aligned (a + 4096)"
  using assms unat_add_page [OF assms(2)] by (simp_all add: page_aligned_unat)

lemma in_pages_1:
  assumes "page_aligned a"
  shows "in_pages a (Suc 0) vb \<longleftrightarrow> PGROUNDDOWN vb = a"
proof -
  have "unat (vb - a) < 4096 \<longleftrightarrow> unat a \<le> unat vb \<and> unat vb < unat a + 4096"
    using page_aligned_room [OF assms] unsigned_less [of vb, where ?'a = nat]
    by (auto simp: unat_sub_if')
  then show ?thesis using PGROUNDDOWN_iff [OF assms, of vb] by (simp add: in_pages_def)
qed

lemma in_pages_Suc:
  assumes "page_aligned a" "a < MAXVA"
  shows "in_pages a (Suc n) vb \<longleftrightarrow> PGROUNDDOWN vb = a \<or> in_pages (a + 4096) n vb"
  using in_pages_1 [OF assms(1), of vb] page_next [OF assms] by (auto simp: in_pages_def)

lemma grows_leaf_pte:
  "grows s fl \<Gamma> s' fl' \<Gamma>' \<Longrightarrow> \<Gamma> root = Some (r, []) \<Longrightarrow> leaf_pte (memory s') root va = leaf_pte (memory s) root va"
  unfolding grows_def kept_def leaf_pte_def by (metis add_0 length_idx list.size(3) numeral_2_eq_2 numeral_3_eq_3 small_idx)

lemma grows_mono: "grows s fl \<Gamma> s' fl' \<Gamma>' \<Longrightarrow> \<Gamma> p = Some x \<Longrightarrow> \<Gamma>' p = Some x"
  unfolding grows_def map_le_def by (metis domI)

text \<open>One round of \<open>mappages\<close>: walk, then store the leaf entry.\<close>

lemma map_step:
  assumes wf: "vm_wf s fl \<Gamma>" and root: "\<Gamma> root = Some (r, [])" and a: "page_aligned a" "a < MAXVA"
    and w: "walk root a True s = Ret pte s1" "pte \<noteq> 0"
  shows "\<exists>fl1 \<Gamma>1. vm_wf (set_pte pte (PA2PTE pa OR perm OR PTE_V) s1) fl1 \<Gamma>1 \<and> \<Gamma> \<subseteq>\<^sub>m \<Gamma>1 \<and>
     load64 (memory s1) pte = leaf_pte (memory s) root a \<and>
     only_table \<Gamma> (memory s) (memory (set_pte pte (PA2PTE pa OR perm OR PTE_V) s1)) root
       (map_range (leaf_pte (memory s) root) a 1 pa perm)"
proof -
  obtain fl1 \<Gamma>1 where g: "vm_wf s1 fl1 \<Gamma>1" "grows s fl \<Gamma> s1 fl1 \<Gamma>1"
      "slot (memory s1) root (idx 2 a) = Some pte"
    using walk_alloc [OF wf root a(2)] w by (auto split: if_splits)
  note set = set_leaf [OF g(1) grows_mono [OF g(2) root] a(2) g(3), where v = "PA2PTE pa OR perm OR PTE_V"]
  have "load64 (memory s1) pte = leaf_pte (memory s) root a"
    using g(3) grows_leaf_pte [OF g(2) root, of a] by (simp add: leaf_pte_def leaf_val_slot)
  moreover have "only_table \<Gamma> (memory s) (memory (set_pte pte (PA2PTE pa OR perm OR PTE_V) s1)) root
       (map_range (leaf_pte (memory s) root) a 1 pa perm)"
    unfolding only_table_def map_range_def
    using set(2,3) grows_leaf_pte [OF g(2)] grows_mono [OF g(2)] root a by (auto simp: in_pages_1)
  ultimately show ?thesis using set(1) g(2) unfolding grows_def by blast
qed

lemma map_range_Suc:
  assumes "page_aligned a" "a < MAXVA"
  shows "map_range (map_range T a 1 pa perm) (a + 4096) n (pa + 4096) perm vb = map_range T a (Suc n) pa perm vb"
  using in_pages_Suc [OF assms, of n vb] in_pages_1 [OF assms(1), of vb]
  by (auto simp: map_range_def algebra_simps)

lemma only_table_trans:
  assumes "only_table \<Gamma> m m1 root T1" "only_table \<Gamma>1 m1 m2 root T2" "\<Gamma> \<subseteq>\<^sub>m \<Gamma>1"
  shows "only_table \<Gamma> m m2 root T2"
proof -
  have "\<Gamma> p = Some x \<Longrightarrow> \<Gamma>1 p = Some x" for p x
    using assms(3) unfolding map_le_def by (metis domI)
  then show ?thesis using assms(1,2) unfolding only_table_def by simp
qed

lemma only_table_cong:
  "only_table \<Gamma> m m' root T \<Longrightarrow> (\<And>vb. vb < MAXVA \<Longrightarrow> T vb = T' vb) \<Longrightarrow> only_table \<Gamma> m m' root T'"
  by (simp add: only_table_def)

lemma last_page:
  assumes "page_aligned a" "unat l = unat a + 4096 * k" "l < MAXVA"
  shows "a < MAXVA" "a = l \<longleftrightarrow> k = 0" "k \<noteq> 0 \<Longrightarrow> unat l = unat (a + 4096) + 4096 * (k - 1)"
proof -
  show "a < MAXVA" using assms(2,3) by (simp add: word_less_nat_alt)
  then show "k \<noteq> 0 \<Longrightarrow> unat l = unat (a + 4096) + 4096 * (k - 1)"
    using page_next [OF assms(1)] assms(2) by (simp add: algebra_simps flip: mult_Suc_right)
  show "a = l \<longleftrightarrow> k = 0" using assms(2) by (auto simp: word_unat_eq_iff)
qed

lemma map_round:
  assumes wf: "vm_wf s fl \<Gamma>" and root: "\<Gamma> root = Some (r, [])" and a: "page_aligned a" "a < MAXVA"
    and free: "leaf_pte (memory s) root a AND PTE_V = 0"
  shows "(\<exists>s1 \<Gamma>1. mappages_loop root a l pa perm s = Ret (-1) s1 \<and> vm_wf s1 [] \<Gamma>1 \<and> \<Gamma> \<subseteq>\<^sub>m \<Gamma>1 \<and>
      only_table \<Gamma> (memory s) (memory s1) root (leaf_pte (memory s) root)) \<or>
    (\<exists>s1 fl1 \<Gamma>1. mappages_loop root a l pa perm s =
        (if a = l then Ret 0 s1 else mappages_loop root (a + 4096) l (pa + 4096) perm s1) \<and>
      vm_wf s1 fl1 \<Gamma>1 \<and> \<Gamma> \<subseteq>\<^sub>m \<Gamma>1 \<and>
      only_table \<Gamma> (memory s) (memory s1) root (map_range (leaf_pte (memory s) root) a 1 pa perm))"
proof -
  obtain pte s1 fl1 \<Gamma>1 where w: "walk root a True s = Ret pte s1" "vm_wf s1 fl1 \<Gamma>1" "grows s fl \<Gamma> s1 fl1 \<Gamma>1"
    "pte = 0 \<Longrightarrow> fl1 = []"
    using walk_alloc [OF wf root a(2)] by metis
  show ?thesis
  proof (cases "pte = 0")
    case True
    have "only_table \<Gamma> (memory s) (memory s1) root (leaf_pte (memory s) root)"
      unfolding only_table_def using grows_leaf_pte [OF w(3)] root by auto
    moreover have "mappages_loop root a l pa perm s = Ret (-1) s1"
      using w True by (subst mappages_loop.simps) simp
    ultimately show ?thesis using w True unfolding grows_def by blast
  next
    case False
    obtain fl2 \<Gamma>2 where st: "vm_wf (set_pte pte (PA2PTE pa OR perm OR PTE_V) s1) fl2 \<Gamma>2" "\<Gamma> \<subseteq>\<^sub>m \<Gamma>2"
      "load64 (memory s1) pte = leaf_pte (memory s) root a"
      "only_table \<Gamma> (memory s) (memory (set_pte pte (PA2PTE pa OR perm OR PTE_V) s1)) root
       (map_range (leaf_pte (memory s) root) a 1 pa perm)"
      using map_step [OF wf root a w(1) False] by blast
    have "mappages_loop root a l pa perm s =
        (if a = l then Ret 0 (set_pte pte (PA2PTE pa OR perm OR PTE_V) s1)
         else mappages_loop root (a + 4096) l (pa + 4096) perm (set_pte pte (PA2PTE pa OR perm OR PTE_V) s1))"
      using w(1) False st(3) free by (subst mappages_loop.simps) (simp add: Let_def)
    then show ?thesis using st by blast
  qed
qed

lemma mappages_loop_refines:
  assumes "vm_wf s fl \<Gamma>" "\<Gamma> root = Some (r, [])" "page_aligned a" "unat l = unat a + 4096 * k" "l < MAXVA"
    and "\<And>vb. vb < MAXVA \<Longrightarrow> in_pages a (Suc k) vb \<Longrightarrow> leaf_pte (memory s) root vb AND PTE_V = 0"
  shows "\<exists>ret s' fl' \<Gamma>' n. mappages_loop root a l pa perm s = Ret ret s' \<and> vm_wf s' fl' \<Gamma>' \<and> \<Gamma> \<subseteq>\<^sub>m \<Gamma>' \<and>
     (ret = 0 \<and> n = Suc k \<or> ret = -1 \<and> n \<le> k \<and> fl' = []) \<and>
     only_table \<Gamma> (memory s) (memory s') root (map_range (leaf_pte (memory s) root) a n pa perm)"
  using assms
proof (induction k arbitrary: s fl \<Gamma> a pa)
  case (0 s fl \<Gamma> a pa)
  note lp = last_page [OF 0(3,4,5)]
  have "leaf_pte (memory s) root a AND PTE_V = 0" using 0(6) [of a] lp(1) by (simp add: in_pages_def)
  from map_round [OF 0(1,2,3) lp(1) this, of l pa perm] show ?case
  proof (elim disjE exE conjE)
    fix s1 \<Gamma>1
    assume "only_table \<Gamma> (memory s) (memory s1) root (leaf_pte (memory s) root)"
      "mappages_loop root a l pa perm s = Ret (-1) s1" "vm_wf s1 [] \<Gamma>1" "\<Gamma> \<subseteq>\<^sub>m \<Gamma>1"
    then show ?case by (intro exI [of _ "-1"] exI [of _ s1] exI [of _ "[]"] exI [of _ \<Gamma>1] exI [of _ 0])
        (simp add: map_range_def)
  next
    fix s1 fl1 \<Gamma>1
    assume "mappages_loop root a l pa perm s =
        (if a = l then Ret 0 s1 else mappages_loop root (a + 4096) l (pa + 4096) perm s1)"
      "vm_wf s1 fl1 \<Gamma>1" "\<Gamma> \<subseteq>\<^sub>m \<Gamma>1"
      "only_table \<Gamma> (memory s) (memory s1) root (map_range (leaf_pte (memory s) root) a 1 pa perm)"
    then show ?case using lp(2) by (intro exI [of _ 0] exI [of _ s1] exI [of _ fl1] exI [of _ \<Gamma>1] exI [of _ 1]) simp
  qed
next
  case (Suc k)
  note lp = last_page [OF Suc.prems(3,4,5)]
  have nx: "unat (a + 4096) = unat a + 4096" "page_aligned (a + 4096)"
    using page_next [OF Suc.prems(3) lp(1)] by auto
  have "leaf_pte (memory s) root a AND PTE_V = 0" using Suc.prems(6) [of a] lp(1) by (simp add: in_pages_def)
  from map_round [OF Suc.prems(1,2,3) lp(1) this, of l pa perm] show ?case
  proof (elim disjE exE conjE)
    fix s1 \<Gamma>1
    assume "only_table \<Gamma> (memory s) (memory s1) root (leaf_pte (memory s) root)"
      "mappages_loop root a l pa perm s = Ret (-1) s1" "vm_wf s1 [] \<Gamma>1" "\<Gamma> \<subseteq>\<^sub>m \<Gamma>1"
    then show ?case by (intro exI [of _ "-1"] exI [of _ s1] exI [of _ "[]"] exI [of _ \<Gamma>1] exI [of _ 0])
        (simp add: map_range_def)
  next
    fix s1 fl1 \<Gamma>1
    assume s1: "mappages_loop root a l pa perm s =
        (if a = l then Ret 0 s1 else mappages_loop root (a + 4096) l (pa + 4096) perm s1)"
      "vm_wf s1 fl1 \<Gamma>1" "\<Gamma> \<subseteq>\<^sub>m \<Gamma>1"
      "only_table \<Gamma> (memory s) (memory s1) root (map_range (leaf_pte (memory s) root) a 1 pa perm)"
    have rt: "\<Gamma>1 root = Some (r, [])" using s1(3) Suc.prems(2) unfolding map_le_def by (metis domI)
    have free: "leaf_pte (memory s1) root vb AND PTE_V = 0" if "vb < MAXVA" "in_pages (a + 4096) (Suc k) vb" for vb
    proof -
      have "in_pages a (Suc (Suc k)) vb" using in_pages_Suc [OF Suc.prems(3) lp(1)] that by blast
      moreover have "\<not> in_pages a (Suc 0) vb" using that(2) nx by (simp add: in_pages_def)
      ultimately show ?thesis using s1(4) Suc.prems(6) [OF that(1)] that(1) by (simp add: only_table_def map_range_def)
    qed
    have lk: "unat l = unat (a + 4096) + 4096 * k" using lp(3) by simp
    obtain ret s' fl' \<Gamma>' n where r: "mappages_loop root (a + 4096) l (pa + 4096) perm s1 = Ret ret s'"
      "vm_wf s' fl' \<Gamma>'" "\<Gamma>1 \<subseteq>\<^sub>m \<Gamma>'" "ret = 0 \<and> n = Suc k \<or> ret = -1 \<and> n \<le> k \<and> fl' = []"
      "only_table \<Gamma>1 (memory s1) (memory s') root (map_range (leaf_pte (memory s1) root) (a + 4096) n (pa + 4096) perm)"
      using Suc.IH [OF s1(2) rt nx(2) lk Suc.prems(5) free, of "pa + 4096"] by blast
    have "only_table \<Gamma> (memory s) (memory s') root (map_range (leaf_pte (memory s) root) a (Suc n) pa perm)"
    proof (rule only_table_cong [OF only_table_trans [OF s1(4) r(5) s1(3)]])
      fix vb assume "vb < MAXVA"
      then have "leaf_pte (memory s1) root vb = map_range (leaf_pte (memory s) root) a 1 pa perm vb"
        using s1(4) by (simp add: only_table_def)
      then show "map_range (leaf_pte (memory s1) root) (a + 4096) n (pa + 4096) perm vb =
          map_range (leaf_pte (memory s) root) a (Suc n) pa perm vb"
        unfolding map_range_Suc [OF Suc.prems(3) lp(1), symmetric] by (simp add: map_range_def)
    qed
    moreover have "a \<noteq> l" using lp(2) by simp
    moreover have "\<Gamma> \<subseteq>\<^sub>m \<Gamma>'" using s1(3) r(3) by (rule map_le_trans)
    ultimately show ?case using r s1(1)
      by (intro exI [of _ ret] exI [of _ s'] exI [of _ fl'] exI [of _ \<Gamma>'] exI [of _ "Suc n"]) auto
  qed
qed

subsection \<open>Unmapping\<close>

lemma free_step:
  assumes "vm_wf s fl \<Gamma>" "kpage s p" "p \<notin> set fl" "\<Gamma> p = None"
  shows "\<exists>s1. kfree p s = Ret () s1 \<and> vm_wf s1 (p # fl) \<Gamma> \<and> agree \<Gamma> (memory s) (memory s1) \<and> same_rest s s1"
proof -
  obtain m s1 where s1: "s1 = s\<lparr>freelist := p, memory := m\<rparr>" "kfree p s = Ret () s1" "kmem_wf s1 (p # fl)"
    "\<forall>a. PGROUNDDOWN a \<noteq> p \<longrightarrow> m a = memory s a"
    using kfree_wf [OF _ assms(2,3)] assms(1) unfolding vm_wf_def Let_def by blast
  have "PGROUNDDOWN b \<noteq> p" if "\<Gamma> (PGROUNDDOWN b) \<noteq> None" for b using that assms(4) by auto
  then have ag: "agree \<Gamma> (memory s) (memory s1)" using s1(1,4) by (simp add: agree_def)
  moreover have "same_rest s s1" by (simp add: s1(1))
  moreover from this have "vm_wf s1 (p # fl) \<Gamma>"
    using assms s1(3) agree_pt_typed [OF _ ag] kpage_same_rest [of s s1] unfolding vm_wf_def by auto
  ultimately show ?thesis using s1(2) by blast
qed

lemma agree_slot:
  assumes "pt_typed m \<Gamma>" "agree \<Gamma> m m'"  "\<Gamma> root = Some (r, [])"
  shows "slot m' root (idx 2 va) = slot m root (idx 2 va)" "leaf_pte m' root va = leaf_pte m root va"
proof -
  have "load64 m' (pte_addr q i) = load64 m (pte_addr q i)" if "\<Gamma> q = Some (r, pi)" "small i" for q r pi i
    using agree_load [OF assms(2), of q i] that assms(1) unfolding pt_typed_def by auto
  from slot_other_level [OF assms(1) this assms(3)]
  show "slot m' root (idx 2 va) = slot m root (idx 2 va)" by simp
  show "leaf_pte m' root va = leaf_pte m root va"
    unfolding leaf_pte_def using agree_leaf_val [OF assms] by simp
qed

lemma unmap_range_Suc:
  assumes "page_aligned a" "a < MAXVA"
  shows "unmap_range (unmap_range T a 1) (a + 4096) n vb = unmap_range T a (Suc n) vb"
  using in_pages_Suc [OF assms, of n vb] in_pages_1 [OF assms(1), of vb] by (auto simp: unmap_range_def)

lemma unmap_round:
  assumes wf: "vm_wf s fl \<Gamma>" and root: "\<Gamma> root = Some (r, [])" and a: "page_aligned a" "a < MAXVA" "a < e"
    and T: "T = leaf_pte (memory s) root"
    and leaf: "T a AND PTE_V \<noteq> 0" "PTE_FLAGS (T a) \<noteq> PTE_V"
    and free: "do_free \<Longrightarrow> kpage s (PTE2PA (T a)) \<and> PTE2PA (T a) \<notin> set fl \<and> \<Gamma> (PTE2PA (T a)) = None"
  shows "\<exists>s1. uvmunmap_loop root a e do_free s = uvmunmap_loop root (a + 4096) e do_free s1 \<and>
     vm_wf s1 (if do_free then PTE2PA (T a) # fl else fl) \<Gamma> \<and> same_rest s s1 \<and>
     only_table \<Gamma> (memory s) (memory s1) root (unmap_range T a 1)"
proof -
  obtain pte where pte: "slot (memory s) root (idx 2 a) = Some pte" "load64 (memory s) pte = T a"
    using leaf(1) by (cases "slot (memory s) root (idx 2 a)") (auto simp: T leaf_pte_def leaf_val_slot)
  have ty: "pt_typed (memory s) \<Gamma>" using wf by (simp add: vm_wf_def)
  have w: "walk root a False s = Ret pte s" using walk_no_alloc [OF a(2), of root s] pte by simp
  obtain q where "\<Gamma> q = Some (r, butlast (idx 2 a))" "pte = pte_addr q (List.last (idx 2 a))"
    using slot_typed [OF ty root _ _ pte(1)] by auto
  then have "pte \<noteq> 0" using vm_wfD [OF wf, of q] pte_nonzero [of q "List.last (idx 2 a)"] small_idx [OF last_in_set [OF idx_nonempty]] by auto
  obtain s1 where s1: "(if do_free then kfree (PTE2PA (T a)) s else Ret () s) = Ret () s1"
    "vm_wf s1 (if do_free then PTE2PA (T a) # fl else fl) \<Gamma>" "agree \<Gamma> (memory s) (memory s1)" "same_rest s s1"
  proof (cases do_free)
    case True
    then show ?thesis using free_step [OF wf] free that by auto
  qed (use wf in \<open>auto simp: agree_def that\<close>)
  have sl: "slot (memory s1) root (idx 2 a) = Some pte" using agree_slot [OF ty s1(3) root] pte(1) by simp
  note set = set_leaf [OF s1(2) root a(2) sl, where v = 0]
  have "only_table \<Gamma> (memory s) (memory (set_pte pte 0 s1)) root (unmap_range T a 1)"
    unfolding only_table_def unmap_range_def
    using set(2,3) agree_slot(2) [OF ty s1(3)] root a T by (auto simp: in_pages_1)
  moreover have "uvmunmap_loop root a e do_free s = uvmunmap_loop root (a + 4096) e do_free (set_pte pte 0 s1)"
    using w \<open>pte \<noteq> 0\<close> pte(2) leaf s1(1) a(3) by (subst uvmunmap_loop.simps) (cases do_free; simp)
  moreover have "same_rest s (set_pte pte 0 s1)" using s1(4) by (simp add: set_pte_def)
  ultimately show ?thesis using set(1) by blast
qed

lemma uvmunmap_loop_refines:
  assumes "vm_wf s fl \<Gamma>" "\<Gamma> root = Some (r, [])" "page_aligned a" "unat e = unat a + 4096 * n" "e \<le> MAXVA"
    and T: "T = leaf_pte (memory s) root"
    and "\<forall>v\<in>set (page_list a n). T v AND PTE_V \<noteq> 0 \<and> PTE_FLAGS (T v) \<noteq> PTE_V"
    and "do_free \<Longrightarrow> distinct (map (\<lambda>v. PTE2PA (T v)) (page_list a n)) \<and>
      (\<forall>p\<in>set (map (\<lambda>v. PTE2PA (T v)) (page_list a n)). kpage s p \<and> p \<notin> set fl \<and> \<Gamma> p = None)"
  shows "\<exists>s'. uvmunmap_loop root a e do_free s = Ret () s' \<and> same_rest s s' \<and>
     vm_wf s' (if do_free then rev (map (\<lambda>v. PTE2PA (T v)) (page_list a n)) @ fl else fl) \<Gamma> \<and>
     only_table \<Gamma> (memory s) (memory s') root (unmap_range T a n)"
  using assms
proof (induction n arbitrary: s fl a T)
  case 0
  then have "uvmunmap_loop root a e do_free s = Ret () s"
    by (subst uvmunmap_loop.simps) (simp add: word_less_nat_alt)
  then show ?case using 0 by (simp add: only_table_def unmap_range_def page_list_def)
next
  case (Suc n)
  have a: "a < MAXVA" "a < e" using Suc.prems(4,5) by (simp_all add: word_less_nat_alt word_le_nat_alt)
  have nx: "unat (a + 4096) = unat a + 4096" "page_aligned (a + 4096)"
    using page_next [OF Suc.prems(3) a(1)] by auto
  let ?T = "unmap_range T a 1" and ?fl = "if do_free then PTE2PA (T a) # fl else fl"
  obtain s1 where s1: "uvmunmap_loop root a e do_free s = uvmunmap_loop root (a + 4096) e do_free s1"
    "vm_wf s1 ?fl \<Gamma>" "same_rest s s1" "only_table \<Gamma> (memory s) (memory s1) root ?T"
    using unmap_round [OF Suc.prems(1,2,3) a Suc.prems(6), of do_free] Suc.prems(7,8) by (auto simp: page_list_Suc)
  let ?T1 = "leaf_pte (memory s1) root"
  have T1: "?T1 v = T v" if "v \<in> set (page_list (a + 4096) n)" for v
  proof -
    have "unat a + 4096 \<le> unat v" "v < MAXVA"
      using that set_page_list [OF nx(2), of n] nx(1) Suc.prems(4,5)
      by (auto simp: word_le_nat_alt word_less_nat_alt)
    then show ?thesis using s1(4) by (simp add: only_table_def unmap_range_def in_pages_def)
  qed
  then have mp: "map (\<lambda>v. PTE2PA (?T1 v)) (page_list (a + 4096) n) = map (\<lambda>v. PTE2PA (T v)) (page_list (a + 4096) n)" by simp
  have e: "unat e = unat (a + 4096) + 4096 * n" using nx(1) Suc.prems(4) by simp
  have "\<exists>s'. uvmunmap_loop root (a + 4096) e do_free s1 = Ret () s' \<and> same_rest s1 s' \<and>
     vm_wf s' (if do_free then rev (map (\<lambda>v. PTE2PA (?T1 v)) (page_list (a + 4096) n)) @ ?fl else ?fl) \<Gamma> \<and>
     only_table \<Gamma> (memory s1) (memory s') root (unmap_range ?T1 (a + 4096) n)"
  proof (rule Suc.IH [OF s1(2) Suc.prems(2) nx(2) e Suc.prems(5) refl])
    show "\<forall>v\<in>set (page_list (a + 4096) n). ?T1 v AND PTE_V \<noteq> 0 \<and> PTE_FLAGS (?T1 v) \<noteq> PTE_V"
      using Suc.prems(7) T1 by (simp add: page_list_Suc)
    show "distinct (map (\<lambda>v. PTE2PA (?T1 v)) (page_list (a + 4096) n)) \<and>
      (\<forall>p\<in>set (map (\<lambda>v. PTE2PA (?T1 v)) (page_list (a + 4096) n)). kpage s1 p \<and> p \<notin> set ?fl \<and> \<Gamma> p = None)" if do_free
      unfolding mp using Suc.prems(8) [OF that] kpage_same_rest [OF s1(3)]
      by (auto simp: page_list_Suc) (metis imageI)
  qed
  then obtain s' where s': "uvmunmap_loop root (a + 4096) e do_free s1 = Ret () s'" "same_rest s1 s'"
     "vm_wf s' (if do_free then rev (map (\<lambda>v. PTE2PA (T v)) (page_list (a + 4096) n)) @ ?fl else ?fl) \<Gamma>"
     "only_table \<Gamma> (memory s1) (memory s') root (unmap_range ?T1 (a + 4096) n)"
    unfolding mp by blast
  have "only_table \<Gamma> (memory s) (memory s') root (unmap_range T a (Suc n))"
  proof (rule only_table_cong [OF only_table_trans [OF s1(4) s'(4)]])
    fix vb assume "vb < MAXVA"
    then have "?T1 vb = ?T vb" using s1(4) by (simp add: only_table_def)
    then show "unmap_range ?T1 (a + 4096) n vb = unmap_range T a (Suc n) vb"
      unfolding unmap_range_Suc [OF Suc.prems(3) a(1), symmetric] by (simp add: unmap_range_def)
  qed simp
  then show ?case using s1 s' same_rest_trans [OF s1(3) s'(2)] by (auto simp: page_list_Suc split: if_splits)
qed

section \<open>Refinement of the table operations\<close>

text \<open>The pages that \<open>mappages\<close> touches: from the one of \<open>va\<close> to the one of the last byte.\<close>

definition pages_of :: "u64 \<Rightarrow> u64 \<Rightarrow> nat" where
  "pages_of va sz = unat (va + sz - 1) div 4096 - unat va div 4096 + 1"

text \<open>
  C8: on a well-formed set of page tables, \<open>mappages\<close> over an unmapped range below \<open>MAXVA\<close>
  does not panic. It returns 0 after mapping every page of the range to consecutive physical
  pages with the given permissions, or -1, only when no free page is left, with a prefix of the
  range mapped. No other page and no other table changes its translation, and the tables stay
  well-formed.
\<close>

theorem mappages_refines:
  assumes "vm_wf s fl \<Gamma>" "\<Gamma> root = Some (root, [])" "sz \<noteq> 0" "unat va + unat sz \<le> unat MAXVA"
    and "\<And>vb. vb < MAXVA \<Longrightarrow> in_pages (PGROUNDDOWN va) (pages_of va sz) vb \<Longrightarrow> leaf_pte (memory s) root vb AND PTE_V = 0"
  shows "\<exists>ret s' fl' \<Gamma>' n. mappages root va sz pa perm s = Ret ret s' \<and> vm_wf s' fl' \<Gamma>' \<and> \<Gamma> \<subseteq>\<^sub>m \<Gamma>' \<and>
     (ret = 0 \<and> n = pages_of va sz \<or> ret = -1 \<and> n < pages_of va sz \<and> fl' = []) \<and>
     only_table \<Gamma> (memory s) (memory s') root (map_range (leaf_pte (memory s) root) (PGROUNDDOWN va) n pa perm)"
proof -
  let ?l = "va + sz - 1"
  have "unat (va + sz - 1) = unat va + unat sz - 1"
  proof -
    have "unat (va + sz) = unat va + unat sz" using assms(4) by (simp add: unat_word_ariths)
    moreover have "1 \<le> va + sz"
      using calculation assms(3) by (simp add: word_le_nat_alt unat_gt_0 Suc_le_eq)
    ultimately show ?thesis by (simp add: unat_sub)
  qed
  then have l: "unat va \<le> unat ?l" "?l < MAXVA"
    using assms(3,4) unat_gt_0 [of sz] by (simp_all add: word_less_nat_alt)
  have "PGROUNDDOWN ?l \<le> ?l" by (rule PGROUNDDOWN_le)
  with l have lm: "PGROUNDDOWN ?l < MAXVA" by simp
  have "unat va div 4096 \<le> unat ?l div 4096" using l by (simp add: div_le_mono)
  then have k: "unat (PGROUNDDOWN ?l) = unat (PGROUNDDOWN va) + 4096 * (pages_of va sz - 1)"
    by (simp add: unat_PGROUNDDOWN pages_of_def algebra_simps)
  have n: "Suc (pages_of va sz - 1) = pages_of va sz" by (simp add: pages_of_def)
  show ?thesis
    using mappages_loop_refines [OF assms(1,2) page_aligned_PGROUNDDOWN k lm, of pa perm] assms(3,5) n
    unfolding mappages_def by (simp add: less_Suc_eq_le [symmetric])
qed

text \<open>
  C9: on a well-formed set of page tables, unmapping \<open>n\<close> mapped pages clears exactly those
  leaves and changes no other translation; with \<open>do_free\<close> the physical pages, when owned
  once and not free, all move to the free list, each once.
\<close>

theorem uvmunmap_refines:
  assumes "vm_wf s fl \<Gamma>" "\<Gamma> root = Some (root, [])" "page_aligned va" "unat va + 4096 * unat n \<le> unat MAXVA"
    and T: "T = leaf_pte (memory s) root"
    and "\<forall>v\<in>set (page_list va (unat n)). T v AND PTE_V \<noteq> 0 \<and> PTE_FLAGS (T v) \<noteq> PTE_V"
    and "do_free \<Longrightarrow> distinct (map (\<lambda>v. PTE2PA (T v)) (page_list va (unat n))) \<and>
      (\<forall>p\<in>set (map (\<lambda>v. PTE2PA (T v)) (page_list va (unat n))). kpage s p \<and> p \<notin> set fl \<and> \<Gamma> p = None)"
  shows "\<exists>s'. uvmunmap root va n do_free s = Ret () s' \<and>
     vm_wf s' (if do_free then rev (map (\<lambda>v. PTE2PA (T v)) (page_list va (unat n))) @ fl else fl) \<Gamma> \<and>
     only_table \<Gamma> (memory s) (memory s') root (unmap_range T va (unat n))"
proof -
  have e: "unat (va + n * PGSIZE) = unat va + 4096 * unat n"
    using assms(4) by (simp add: unat_word_ariths)
  then have "va + n * PGSIZE \<le> MAXVA" using assms(4) by (simp add: word_le_nat_alt)
  from uvmunmap_loop_refines [OF assms(1,2,3) e this assms(5,6), of do_free] assms(7)
  obtain s' where "uvmunmap_loop root va (va + n * PGSIZE) do_free s = Ret () s'"
    "vm_wf s' (if do_free then rev (map (\<lambda>v. PTE2PA (T v)) (page_list va (unat n))) @ fl else fl) \<Gamma>"
    "only_table \<Gamma> (memory s) (memory s') root (unmap_range T va (unat n))" by blast
  moreover have "va mod PGSIZE = 0" using assms(3) by (simp add: page_aligned_def)
  ultimately show ?thesis unfolding uvmunmap_def by (metis (no_types, lifting))
qed

subsection \<open>A concrete machine\<close>

lemma machine0_wf: "vm_wf machine0 [0x87fff000] [0x87ffe000 \<mapsto> (0x87ffe000, [])]"
  by (auto simp: vm_wf_def kmem_wf_def machine0_def kpage_def pt_typed_def split: if_splits)

lemma leaf_zero: "leaf_pte (memory machine0) r va = 0"
  by (simp add: leaf_pte_def leaf_val_slot machine0_def split: option.splits)

lemma pages_of_0x2000: "pages_of 0x1000 0x2000 = 2"
  by (simp add: pages_of_def)

theorem mappages_refines_witness:
  "\<exists>ret s' fl' \<Gamma>' n. mappages 0x87ffe000 0x1000 0x2000 0x80100000 6 machine0 = Ret ret s' \<and> vm_wf s' fl' \<Gamma>' \<and>
     [0x87ffe000 \<mapsto> (0x87ffe000, [])] \<subseteq>\<^sub>m \<Gamma>' \<and>
     (ret = 0 \<and> n = 2 \<or> ret = -1 \<and> n < 2 \<and> fl' = []) \<and>
     only_table [0x87ffe000 \<mapsto> (0x87ffe000, [])] (memory machine0) (memory s') 0x87ffe000
       (map_range (leaf_pte (memory machine0) 0x87ffe000) 0x1000 n 0x80100000 6)"
  using mappages_refines [OF machine0_wf, where root = "0x87ffe000" and sz = "0x2000" and va = "0x1000" and
      pa = "0x80100000" and perm = 6]
  by (simp add: leaf_zero pages_of_0x2000)

lemma load_store_pte:
  "page_aligned p \<Longrightarrow> page_aligned q \<Longrightarrow> small i \<Longrightarrow> small j \<Longrightarrow>
   load64 (store64 m (pte_addr p i) v) (pte_addr q j) = (if p = q \<and> i = j then v else load64 m (pte_addr q j))"
  by (auto simp: pte_addr_inj)

text \<open>A table with the page at address 0 mapped to \<open>0x87ffb000\<close>, readable and writable.\<close>

definition machine1 :: kmem where
  "machine1 = \<lparr>memory = store64 (store64 (store64 (\<lambda>_. 0) (pte_addr 0x87ffe000 0) (PA2PTE 0x87ffd000 OR PTE_V))
       (pte_addr 0x87ffd000 0) (PA2PTE 0x87ffc000 OR PTE_V)) (pte_addr 0x87ffc000 0) (PA2PTE 0x87ffb000 OR 0x17),
     freelist = 0, kend = 0x80022000\<rparr>"

definition typing1 :: pt_typing where
  "typing1 = [0x87ffe000 \<mapsto> (0x87ffe000, []), 0x87ffd000 \<mapsto> (0x87ffe000, [0]), 0x87ffc000 \<mapsto> (0x87ffe000, [0, 0])]"

lemma small_0 [simp]: "small 0" by (simp add: small_def)

lemma PA2PTE_numerals:
  "PA2PTE 0x87ffd000 = 0x21fff400" "PA2PTE 0x87ffc000 = 0x21fff000" "PA2PTE 0x87ffb000 = 0x21ffec00"
  "PTE2PA 0x21fff401 = 0x87ffd000" "PTE2PA 0x21fff001 = 0x87ffc000" "PTE2PA 0x21ffec17 = 0x87ffb000"
  by (simp_all add: PA2PTE_def PTE2PA_def push_bit_eq_mult drop_bit_eq_div)

lemma machine1_wf: "vm_wf machine1 [] typing1"
  unfolding vm_wf_def
proof (intro conjI)
  show "pt_typed (memory machine1) typing1"
    by (auto simp: machine1_def typing1_def pt_typed_def load_store_pte PA2PTE_numerals split: if_splits)
qed (simp_all add: kmem_wf_def machine1_def typing1_def kpage_def)

lemma idx_2: "idx 2 va = [PX 2 va, PX 1 va, PX 0 va]"
  by (simp add: numeral_2_eq_2)

lemma machine1_leaf: "leaf_pte (memory machine1) 0x87ffe000 0 = 0x21ffec17"
  by (simp add: leaf_pte_def leaf_val_slot machine1_def load_store_pte PA2PTE_numerals idx_2 PX_def)

theorem uvmunmap_refines_witness:
  "\<exists>s'. uvmunmap 0x87ffe000 0 1 True machine1 = Ret () s' \<and> vm_wf s' [0x87ffb000] typing1 \<and>
     only_table typing1 (memory machine1) (memory s') 0x87ffe000
       (unmap_range (leaf_pte (memory machine1) 0x87ffe000) 0 1)"
  using uvmunmap_refines [OF machine1_wf, where root = "0x87ffe000" and va = 0 and n = 1 and do_free = True, OF _ _ _ refl]
  by (simp add: machine1_leaf page_list_def typing1_def page_aligned_def PTE_FLAGS_def kpage_def machine1_def [THEN arg_cong, of kend]
      PA2PTE_numerals)

end
