(* ===== verification/Vm_Copy.thy ===== *)
theory Vm_Copy
  imports Vm_Tables
begin

text \<open>
  Copying between kernel buffers and user memory: \<open>copyin\<close>, \<open>copyout\<close> and \<open>copyinstr\<close> against
  the translation \<open>xlate\<close> that the page table defines, byte by byte.
\<close>

section \<open>Translation of user addresses\<close>

definition user_leaf :: "mem \<Rightarrow> u64 \<Rightarrow> u64 \<Rightarrow> bool" where
  "user_leaf m root va \<longleftrightarrow>
     va < MAXVA \<and> leaf_pte m root va AND PTE_V \<noteq> 0 \<and> leaf_pte m root va AND PTE_U \<noteq> 0 \<and> PTE2PA (leaf_pte m root va) \<noteq> 0"

definition xlate :: "mem \<Rightarrow> u64 \<Rightarrow> u64 \<Rightarrow> u64 option" where
  "xlate m root va =
     (if user_leaf m root va then Some (PTE2PA (leaf_pte m root va) + (va - PGROUNDDOWN va)) else None)"

lemma leaf_pte_page: "leaf_pte m root (PGROUNDDOWN va) = leaf_pte m root va"
  unfolding leaf_pte_def by (simp add: idx_page [of "PGROUNDDOWN va" va])

lemma PGROUNDDOWN_MAXVA: "PGROUNDDOWN va < MAXVA \<longleftrightarrow> va < MAXVA"
proof -
  have "unat va div 4096 < 0x4000000 \<longleftrightarrow> unat va < 0x4000000 * 4096" by (rule div_less_iff_less_mult) simp
  then show ?thesis by (simp add: word_less_nat_alt unat_PGROUNDDOWN)
qed

lemma walkaddr_page:
  assumes "vm_wf s fl \<Gamma>" "\<Gamma> root = Some (r, [])"
  shows "walkaddr root (PGROUNDDOWN va) s =
    Ret (if user_leaf (memory s) root va then PTE2PA (leaf_pte (memory s) root va) else 0) s"
proof (cases "va < MAXVA")
  case True
  then have lt: "PGROUNDDOWN va < MAXVA" by (simp only: PGROUNDDOWN_MAXVA)
  have ix: "idx 2 (PGROUNDDOWN va) = idx 2 va" by (rule idx_page) simp
  have nz: "a \<noteq> 0" if a: "slot (memory s) root (idx 2 va) = Some a" for a
  proof -
    have "pt_typed (memory s) \<Gamma>" using assms(1) by (simp add: vm_wf_def)
    from slot_typed [OF this assms(2) _ _ a] obtain q where
      "\<Gamma> q = Some (r, butlast (idx 2 va))" "a = pte_addr q (List.last (idx 2 va))" by auto
    then show ?thesis
      using vm_wfD [OF assms(1), of q] pte_nonzero [of q "List.last (idx 2 va)"]
        small_idx [OF last_in_set [OF idx_nonempty]] by auto
  qed
  show ?thesis
  proof (cases "slot (memory s) root (idx 2 va)")
    case None
    then show ?thesis using walk_no_alloc [OF lt, of root s] lt ix
      by (simp add: walkaddr_def user_leaf_def leaf_pte_def leaf_val_slot not_le)
  next
    case (Some a)
    then show ?thesis using walk_no_alloc [OF lt, of root s] lt ix nz [OF Some] True
      by (simp add: walkaddr_def user_leaf_def leaf_pte_def leaf_val_slot not_le)
  qed
next
  case False
  then have "PGROUNDDOWN va \<ge> MAXVA" "\<not> user_leaf (memory s) root va"
    by (simp_all only: user_leaf_def not_less [symmetric] PGROUNDDOWN_MAXVA simp_thms)
  then show ?thesis by (simp only: walkaddr_def if_True if_False)
qed

section \<open>One page of a copy\<close>

text \<open>The bytes of a round lie in one page; the next round starts right after them.\<close>

lemma chunk_page:
  assumes "i < chunk va len"
  shows "PGROUNDDOWN (va + of_nat i) = PGROUNDDOWN va" "va + of_nat i - PGROUNDDOWN va = (va - PGROUNDDOWN va) + of_nat i"
proof -
  have i: "unat (va - PGROUNDDOWN va) + i < 4096" using assms unfolding chunk_def by linarith
  have "unat ((va - PGROUNDDOWN va) + of_nat i) = unat (va - PGROUNDDOWN va) + i"
    using i by (simp add: unat_word_ariths unat_of_nat_lt)
  moreover show "va + of_nat i - PGROUNDDOWN va = (va - PGROUNDDOWN va) + of_nat i" by simp
  ultimately have "unat (va + of_nat i - PGROUNDDOWN va) < 4096" using i by metis
  then show "PGROUNDDOWN (va + of_nat i) = PGROUNDDOWN va" by (simp add: PGROUNDDOWN_iff)
qed

lemma chunk_next:
  assumes "chunk va len < len"
  shows "PGROUNDDOWN va + PGSIZE = va + of_nat (chunk va len)"
proof -
  have "chunk va len = 4096 - unat (va - PGROUNDDOWN va)" using assms by (simp add: chunk_def min_def split: if_splits)
  then have "of_nat (chunk va len) = (4096 - (va - PGROUNDDOWN va) :: u64)"
    using page_offset_less [of va] by (simp add: of_nat_diff)
  then show ?thesis by simp
qed

lemma user_leaf_page:
  "PGROUNDDOWN vb = PGROUNDDOWN va \<Longrightarrow> user_leaf m root vb = user_leaf m root va"
  unfolding user_leaf_def by (metis PGROUNDDOWN_MAXVA leaf_pte_page)

lemma xlate_chunk:
  assumes "i < chunk va len"
  shows "xlate m root (va + of_nat i) = map_option (\<lambda>pa. pa + of_nat i) (xlate m root va)"
  using chunk_page [OF assms] user_leaf_page [of "va + of_nat i" va m root]
  by (simp add: xlate_def) (metis leaf_pte_page)

section \<open>Reading user memory\<close>

definition mapped :: "mem \<Rightarrow> u64 \<Rightarrow> u64 \<Rightarrow> nat \<Rightarrow> bool" where
  "mapped m root va len \<longleftrightarrow> (\<forall>i<len. xlate m root (va + of_nat i) \<noteq> None)"

definition user_bytes :: "mem \<Rightarrow> u64 \<Rightarrow> u64 \<Rightarrow> nat \<Rightarrow> u8 list" where
  "user_bytes m root va len = map (\<lambda>i. m (the (xlate m root (va + of_nat i)))) [0..<len]"

lemma mapped_chunk:
  assumes "0 < len"
  shows "mapped m root va len \<longleftrightarrow>
    user_leaf m root va \<and> mapped m root (PGROUNDDOWN va + PGSIZE) (len - chunk va len)"
proof -
  let ?n = "chunk va len"
  have n: "0 < ?n" "?n \<le> len" using chunk_pos [OF assms] by (auto simp: chunk_def)
  have fst: "(\<forall>i<?n. xlate m root (va + of_nat i) \<noteq> None) \<longleftrightarrow> user_leaf m root va"
    using n(1) xlate_chunk [of _ va len m root] by (auto simp: xlate_def)
  have "(\<forall>i<len. P i) \<longleftrightarrow> (\<forall>i<?n. P i) \<and> (\<forall>i<len - ?n. P (?n + i))" for P
  proof -
    have "P i" if "\<forall>i<?n. P i" "\<forall>i<len - ?n. P (?n + i)" "i < len" for i
    proof (cases "i < ?n")
      case False
      then have "i - ?n < len - ?n" using that(3) by simp
      then have "P (?n + (i - ?n))" using that(2) by blast
      then show ?thesis using False by simp
    qed (use that in blast)
    then show ?thesis using n by auto
  qed
  note split = this
  have "mapped m root va len \<longleftrightarrow> user_leaf m root va \<and> (\<forall>i<len - ?n. xlate m root (va + of_nat (?n + i)) \<noteq> None)"
    unfolding mapped_def by (subst split) (simp only: fst)
  also have "(\<forall>i<len - ?n. xlate m root (va + of_nat (?n + i)) \<noteq> None) \<longleftrightarrow>
      mapped m root (PGROUNDDOWN va + PGSIZE) (len - ?n)"
    unfolding mapped_def using chunk_next [of va len] n(2)
    by (cases "?n < len") (simp_all add: add.assoc)
  finally show ?thesis .
qed

lemma user_bytes_chunk:
  assumes "0 < len" "user_leaf m root va"
  shows "user_bytes m root va len =
    map (\<lambda>i. m (PTE2PA (leaf_pte m root va) + (va - PGROUNDDOWN va) + of_nat i)) [0..<chunk va len] @
    user_bytes m root (PGROUNDDOWN va + PGSIZE) (len - chunk va len)"
proof -
  let ?n = "chunk va len"
  have n: "?n \<le> len" by (simp add: chunk_def)
  have "[0..<len] = [0..<?n] @ map (\<lambda>i. i + ?n) [0..<len - ?n]"
    using n by (metis add.commute le_add_diff_inverse map_add_upt upt_add_eq_append zero_le)
  then have "user_bytes m root va len = map (\<lambda>i. m (the (xlate m root (va + of_nat i)))) [0..<?n] @
      map (\<lambda>i. m (the (xlate m root (va + of_nat (i + ?n))))) [0..<len - ?n]"
    unfolding user_bytes_def by simp
  moreover have "map (\<lambda>i. m (the (xlate m root (va + of_nat i)))) [0..<?n] =
      map (\<lambda>i. m (PTE2PA (leaf_pte m root va) + (va - PGROUNDDOWN va) + of_nat i)) [0..<?n]"
    using xlate_chunk [of _ va len m root] assms(2) by (simp add: xlate_def)
  moreover have "map (\<lambda>i. m (the (xlate m root (va + of_nat (i + ?n))))) [0..<len - ?n] =
      user_bytes m root (PGROUNDDOWN va + PGSIZE) (len - ?n)"
    unfolding user_bytes_def using chunk_next [of va len] n
    by (cases "?n < len") (simp_all add: algebra_simps)
  ultimately show ?thesis by simp
qed

lemma copyin_loop_spec:
  assumes "vm_wf s fl \<Gamma>" "\<Gamma> root = Some (r, [])"
  shows "\<exists>bs. copyin_loop root va len acc s =
    Ret (if mapped (memory s) root va len then (0, acc @ user_bytes (memory s) root va len) else (-1, bs)) s"
proof (induction len arbitrary: va acc rule: less_induct)
  case (less len)
  show ?case
  proof (cases "0 < len")
    case False
    then show ?thesis by (subst copyin_loop.simps) (simp add: mapped_def user_bytes_def)
  next
    case True
    let ?n = "chunk va len" and ?va = "PGROUNDDOWN va + PGSIZE"
    note w = walkaddr_page [OF assms, of va]
    show ?thesis
    proof (cases "user_leaf (memory s) root va")
      case ul: True
      then have nz: "PTE2PA (leaf_pte (memory s) root va) \<noteq> 0" by (simp add: user_leaf_def)
      let ?acc = "acc @ read_bytes (PTE2PA (leaf_pte (memory s) root va) + (va - PGROUNDDOWN va)) ?n s"
      have step: "copyin_loop root va len acc s = copyin_loop root ?va (len - ?n) ?acc s"
        by (subst copyin_loop.simps) (use w ul nz True in \<open>simp add: Let_def\<close>)
      have lt: "len - ?n < len" using chunk_pos [OF True] True by simp
      have "?acc @ user_bytes (memory s) root ?va (len - ?n) = acc @ user_bytes (memory s) root va len"
        using user_bytes_chunk [OF True ul] by (simp add: read_bytes_def)
      then show ?thesis
        using less [OF lt, of ?va ?acc] mapped_chunk [OF True, of "memory s" root va] ul unfolding step by auto
    next
      case False
      then show ?thesis using mapped_chunk [OF True, of "memory s" root va] w True
        by (subst copyin_loop.simps) (simp add: Let_def)
    qed
  qed
qed

lemma copyin_spec:
  assumes "vm_wf s fl \<Gamma>" "\<Gamma> root = Some (r, [])"
  shows "\<exists>bs. copyin root va len s =
    Ret (if mapped (memory s) root va len then (0, user_bytes (memory s) root va len) else (-1, bs)) s"
  using copyin_loop_spec [OF assms, of va len "[]", unfolded append_Nil] unfolding copyin_def .

section \<open>Writing user memory\<close>

text \<open>
  The user pages of a table are no page-table pages and not free, and two virtual pages never
  share a physical page.
\<close>

definition user_pages_ok :: "mem \<Rightarrow> u64 list \<Rightarrow> pt_typing \<Rightarrow> u64 \<Rightarrow> bool" where
  "user_pages_ok m fl \<Gamma> root \<longleftrightarrow>
     (\<forall>va. user_leaf m root va \<longrightarrow>
        \<Gamma> (PTE2PA (leaf_pte m root va)) = None \<and> PTE2PA (leaf_pte m root va) \<notin> set fl) \<and>
     (\<forall>va vb. user_leaf m root va \<longrightarrow> user_leaf m root vb \<longrightarrow>
        PTE2PA (leaf_pte m root va) = PTE2PA (leaf_pte m root vb) \<longrightarrow> PGROUNDDOWN va = PGROUNDDOWN vb)"

lemma xlate_page: "xlate m root va = Some pa \<Longrightarrow> PGROUNDDOWN pa = PTE2PA (leaf_pte m root va)"
proof -
  assume "xlate m root va = Some pa"
  then have pa: "pa = PTE2PA (leaf_pte m root va) + of_nat (unat (va - PGROUNDDOWN va))"
    by (simp add: xlate_def split: if_splits)
  show ?thesis unfolding pa by (rule PGROUNDDOWN_offset) (simp_all add: page_offset_less)
qed

lemma xlate_Some:
  "xlate m root va = Some pa \<Longrightarrow> user_leaf m root va \<and> pa = PTE2PA (leaf_pte m root va) + (va - PGROUNDDOWN va)"
  by (simp add: xlate_def split: if_splits)

lemma xlate_inj:
  assumes "user_pages_ok m fl \<Gamma> root" "xlate m root va = Some pa" "xlate m root vb = Some pa"
  shows "va = vb"
proof -
  note a = xlate_Some [OF assms(2)] and b = xlate_Some [OF assms(3)]
  have "PTE2PA (leaf_pte m root va) = PTE2PA (leaf_pte m root vb)"
    using xlate_page [OF assms(2)] xlate_page [OF assms(3)] by simp
  then have "PGROUNDDOWN va = PGROUNDDOWN vb" using a b assms(1) unfolding user_pages_ok_def by blast
  then have "PTE2PA (leaf_pte m root vb) + (va - PGROUNDDOWN vb) = PTE2PA (leaf_pte m root vb) + (vb - PGROUNDDOWN vb)"
    using a b by (metis leaf_pte_page)
  then show ?thesis by simp
qed

text \<open>Memory with the user bytes from \<open>va\<close> on replaced by \<open>bs\<close>.\<close>

definition user_store :: "mem \<Rightarrow> u64 \<Rightarrow> u64 \<Rightarrow> u8 list \<Rightarrow> mem \<Rightarrow> bool" where
  "user_store m root va bs m' \<longleftrightarrow>
     (\<forall>i<length bs. m' (the (xlate m root (va + of_nat i))) = bs ! i) \<and>
     (\<forall>x. (\<forall>i<length bs. xlate m root (va + of_nat i) \<noteq> Some x) \<longrightarrow> m' x = m x)"

text \<open>A store to user pages leaves every table and the free list as they are.\<close>

lemma user_write:
  assumes wf: "vm_wf s fl \<Gamma>" and root: "\<Gamma> root = Some (r, [])" and ok: "user_pages_ok (memory s) fl \<Gamma> root"
    and m: "\<forall>x. (\<forall>va. xlate (memory s) root va \<noteq> Some x) \<longrightarrow> m x = memory s x"
  shows "vm_wf (s\<lparr>memory := m\<rparr>) fl \<Gamma>" "leaf_pte m root va = leaf_pte (memory s) root va"
    "user_leaf m root va = user_leaf (memory s) root va" "xlate m root va = xlate (memory s) root va"
    "user_pages_ok m fl \<Gamma> root"
proof -
  have same: "m x = memory s x" if "\<Gamma> (PGROUNDDOWN x) \<noteq> None \<or> PGROUNDDOWN x \<in> set fl" for x
  proof -
    have "xlate (memory s) root va \<noteq> Some x" for va
    proof
      assume x: "xlate (memory s) root va = Some x"
      then have "user_leaf (memory s) root va" by (simp add: xlate_def split: if_splits)
      then have "\<Gamma> (PTE2PA (leaf_pte (memory s) root va)) = None" "PTE2PA (leaf_pte (memory s) root va) \<notin> set fl"
        using ok unfolding user_pages_ok_def by blast+
      then show False using xlate_page [OF x] that by simp
    qed
    then show ?thesis using m by blast
  qed
  then have ag: "agree \<Gamma> (memory s) m" by (simp add: agree_def)
  have ty: "pt_typed (memory s) \<Gamma>" using wf by (simp add: vm_wf_def)
  have "free_chain m (freelist s) fl = free_chain (memory s) (freelist s) fl"
  proof (rule free_chain_cong)
    fix p b assume "p \<in> set fl" "PGROUNDDOWN b = p"
    then show "m b = memory s b" using same [of b] by simp
  qed (use wf in \<open>auto simp: vm_wf_def kmem_wf_def\<close>)
  then show "vm_wf (s\<lparr>memory := m\<rparr>) fl \<Gamma>"
    using wf agree_pt_typed [OF ty ag] by (simp add: vm_wf_def kmem_wf_def)
  show lf: "leaf_pte m root va = leaf_pte (memory s) root va" for va using agree_slot(2) [OF ty ag root] .
  show ul: "user_leaf m root va = user_leaf (memory s) root va" for va by (simp add: user_leaf_def lf)
  show "xlate m root va = xlate (memory s) root va" by (simp add: xlate_def lf ul)
  show "user_pages_ok m fl \<Gamma> root" using ok unfolding user_pages_ok_def lf ul .
qed

lemma copyout_spec:
  assumes "vm_wf s fl \<Gamma>" "\<Gamma> root = Some (r, [])" "user_pages_ok (memory s) fl \<Gamma> root" "length bs < 2 ^ 64"
  shows "\<exists>ret m n. copyout root va bs s = Ret ret (s\<lparr>memory := m\<rparr>) \<and>
     user_store (memory s) root va (take n bs) m \<and> n \<le> length bs \<and> mapped (memory s) root va n \<and>
     (if mapped (memory s) root va (length bs) then ret = 0 \<and> n = length bs else ret = -1)"
  using assms
proof (induction "length bs" arbitrary: bs s va rule: less_induct)
  case (less bs s va)
  show ?case
  proof (cases "0 < length bs \<and> user_leaf (memory s) root va")
    case False
    have "copyout root va bs s = Ret (if bs = [] then 0 else -1) (s\<lparr>memory := memory s\<rparr>)"
      using False walkaddr_page [OF less(2,3), of va] by (subst copyout.simps) (cases "bs = []"; simp add: Let_def)
    moreover have "mapped (memory s) root va (length bs) \<longleftrightarrow> bs = []"
    proof (cases "bs = []")
      case bs: False
      then have "0 < length bs" "\<not> user_leaf (memory s) root va" using False by simp_all
      then show ?thesis using bs by (simp only: mapped_chunk simp_thms)
    qed (simp add: mapped_def)
    ultimately show ?thesis
      by (intro exI [of _ "if bs = [] then 0 else -1"] exI [of _ "memory s"] exI [of _ 0])
        (simp add: user_store_def mapped_def)
  next
    case True
    let ?n = "chunk va (length bs)" and ?va = "PGROUNDDOWN va + PGSIZE"
    let ?pa = "PTE2PA (leaf_pte (memory s) root va) + (va - PGROUNDDOWN va)"
    define m1 where "m1 = memory (write_bytes ?pa (take ?n bs) s)"
    have n: "0 < ?n" "?n \<le> length bs" using chunk_pos True by (auto simp: chunk_def)
    have xl: "xlate (memory s) root (va + of_nat i) = Some (?pa + of_nat i)" if "i < ?n" for i
      using xlate_chunk [OF that, of "memory s" root] True by (simp add: xlate_def)
    have m1_out: "m1 x = memory s x" if "\<And>i. i < ?n \<Longrightarrow> x \<noteq> ?pa + of_nat i" for x
    proof -
      have "\<not> unat (x - ?pa) < ?n" using that [of "unat (x - ?pa)"] by auto
      then show ?thesis using n by (simp add: m1_def write_bytes_def min_def)
    qed
    have m1_in: "m1 (?pa + of_nat i) = bs ! i" if "i < ?n" for i
    proof -
      have "i < 4096" using that unfolding chunk_def by linarith
      then show ?thesis using that n by (simp add: m1_def write_bytes_def min_def unat_of_nat_lt)
    qed
    have out: "\<forall>x. (\<forall>va. xlate (memory s) root va \<noteq> Some x) \<longrightarrow> m1 x = memory s x"
    proof (intro allI impI m1_out)
      fix x i assume "\<forall>va. xlate (memory s) root va \<noteq> Some x" "i < ?n"
      then show "x \<noteq> ?pa + of_nat i" using xl [of i] by metis
    qed
    note uw = user_write [where m = m1, OF less(2,3,4) out]
    have step: "copyout root va bs s = copyout root ?va (drop ?n bs) (s\<lparr>memory := m1\<rparr>)"
    proof -
      have "PTE2PA (leaf_pte (memory s) root va) \<noteq> 0" using True by (simp add: user_leaf_def)
      then show ?thesis using True walkaddr_page [OF less(2,3), of va]
        by (subst copyout.simps) (simp add: Let_def m1_def write_bytes_def)
    qed
    have lt: "length (drop ?n bs) < length bs" using n True by simp
    have len: "length (drop ?n bs) < 2 ^ 64" using less(5) by simp
    have ok1: "user_pages_ok (memory (s\<lparr>memory := m1\<rparr>)) fl \<Gamma> root" using uw(5) by simp
    let ?s1 = "s\<lparr>memory := m1\<rparr>"
    obtain ret m k where ih0: "copyout root ?va (drop ?n bs) ?s1 = Ret ret (?s1\<lparr>memory := m\<rparr>)"
      "user_store (memory ?s1) root ?va (take k (drop ?n bs)) m" "k \<le> length (drop ?n bs)"
      "mapped (memory ?s1) root ?va k"
      "if mapped (memory ?s1) root ?va (length (drop ?n bs)) then ret = 0 \<and> k = length (drop ?n bs) else ret = -1"
      using less(1) [OF lt uw(1) less(3) ok1 len, of ?va] by blast
    have m1: "memory ?s1 = m1" by simp
    have ih: "copyout root ?va (drop ?n bs) ?s1 = Ret ret (s\<lparr>memory := m\<rparr>)"
      "user_store m1 root ?va (take k (drop ?n bs)) m" "k \<le> length bs - ?n" "mapped m1 root ?va k"
      "if mapped m1 root ?va (length bs - ?n) then ret = 0 \<and> k = length (drop ?n bs) else ret = -1"
      using ih0 unfolding m1 length_drop by simp_all
    have xl2: "xlate m1 root (?va + of_nat j) = xlate (memory s) root (va + of_nat (?n + j))" if "j < k" for j
      using chunk_next [of va "length bs"] uw(4) ih(3) that by (simp add: add.assoc)
    have xl2_ok: "xlate (memory s) root (va + of_nat (?n + j)) \<noteq> None" if "j < k" for j
      using ih(4) that xl2 by (auto simp: mapped_def)
    have mp: "mapped (memory s) root va (?n + k)"
      unfolding mapped_def
    proof (intro allI impI)
      fix i assume "i < ?n + k"
      then show "xlate (memory s) root (va + of_nat i) \<noteq> None"
        using xl [of i] xl2_ok [of "i - ?n"] by (cases "i < ?n") simp_all
    qed
    have disj: "?pa + of_nat i \<noteq> the (xlate m1 root (?va + of_nat j))" if "i < ?n" "j < k" for i j
    proof
      assume eq: "?pa + of_nat i = the (xlate m1 root (?va + of_nat j))"
      have "xlate (memory s) root (va + of_nat (?n + j)) = Some (?pa + of_nat i)"
        using eq xl2 [OF that(2)] xl2_ok [OF that(2)] by simp
      then have "va + of_nat (?n + j) = va + of_nat i" using xlate_inj [OF less(4)] xl [OF that(1)] by blast
      then have "(of_nat (?n + j) :: u64) = of_nat i" by simp
      then have "unat (of_nat (?n + j) :: u64) = unat (of_nat i :: u64)" by simp
      then have "?n + j = i" using that n ih(3) less(5) by (simp add: unat_of_nat_lt del: of_nat_add)
      with that show False by simp
    qed
    have "user_store (memory s) root va (take (?n + k) bs) m"
      unfolding user_store_def
    proof (intro conjI allI impI)
      fix i assume i: "i < length (take (?n + k) bs)"
      show "m (the (xlate (memory s) root (va + of_nat i))) = take (?n + k) bs ! i"
      proof (cases "i < ?n")
        case True
        have "m (?pa + of_nat i) = m1 (?pa + of_nat i)"
        proof -
          have "xlate m1 root (?va + of_nat j) \<noteq> Some (?pa + of_nat i)" if "j < k" for j
            using disj [OF True that] by auto
          then show ?thesis using ih(2,3) unfolding user_store_def by simp
        qed
        then show ?thesis using True i xl [OF True] m1_in [OF True] by simp
      next
        case False
        then have j: "i - ?n < length (take k (drop ?n bs))" "i - ?n < k" using i ih(3) by auto
        then have "m (the (xlate m1 root (?va + of_nat (i - ?n)))) = take k (drop ?n bs) ! (i - ?n)"
          using ih(2) unfolding user_store_def by blast
        then show ?thesis using False i j xl2 [OF j(2)] n by simp
      qed
    next
      fix x assume x: "\<forall>i<length (take (?n + k) bs). xlate (memory s) root (va + of_nat i) \<noteq> Some x"
      have "m x = m1 x"
      proof -
        have "xlate m1 root (?va + of_nat j) \<noteq> Some x" if "j < k" for j
          using x [rule_format, of "?n + j"] xl2 [OF that] that ih(3) n by simp
        then show ?thesis using ih(2,3) unfolding user_store_def by simp
      qed
      also have "m1 x = memory s x" 
      proof (rule m1_out)
        fix i assume i: "i < ?n"
        then have "i < length (take (?n + k) bs)" using n ih(3) by simp
        then show "x \<noteq> ?pa + of_nat i" using x xl [OF i] by auto
      qed
      finally show "m x = memory s x" .
    qed
    moreover have "mapped (memory s) root va (length bs) \<longleftrightarrow> mapped m1 root ?va (length bs - ?n)"
    proof -
      have "mapped m1 root ?va (length bs - ?n) = mapped (memory s) root ?va (length bs - ?n)"
        unfolding mapped_def uw(4) ..
      moreover have "0 < length bs" "user_leaf (memory s) root va" using True by simp_all
      ultimately show ?thesis by (simp only: mapped_chunk simp_thms)
    qed
    moreover have "?n + k \<le> length bs" using ih(3) n(2) by linarith
    moreover have "k = length (drop ?n bs) \<longleftrightarrow> ?n + k = length bs" using n(2) unfolding length_drop by linarith
    ultimately show ?thesis
      using ih(1,5) mp unfolding step
      by (intro exI [of _ ret] exI [of _ m] exI [of _ "?n + k"] conjI) (simp_all only: if_True if_False split: if_splits)
  qed
qed

section \<open>Reading a string\<close>

text \<open>The bytes up to and including the first nul, when there is one.\<close>

lemma copy_until_nul_spec:
  "copy_until_nul bs = (if 0 \<in> set bs then (takeWhile (\<lambda>b. b \<noteq> 0) bs @ [0], True) else (bs, False))"
  by (induction bs) (auto simp: Let_def)

lemma copyinstr_loop_spec:
  assumes "vm_wf s fl \<Gamma>" "\<Gamma> root = Some (r, [])" "mapped (memory s) root va len"
  shows "copyinstr_loop root va len acc s =
    Ret (if 0 \<in> set (user_bytes (memory s) root va len)
         then (0, acc @ takeWhile (\<lambda>b. b \<noteq> 0) (user_bytes (memory s) root va len) @ [0])
         else (-1, acc @ user_bytes (memory s) root va len)) s"
  using assms(3)
proof (induction len arbitrary: va acc rule: less_induct)
  case (less len)
  show ?case
  proof (cases "0 < len")
    case False
    then show ?thesis by (subst copyinstr_loop.simps) (simp add: user_bytes_def)
  next
    case True
    let ?n = "chunk va len" and ?va = "PGROUNDDOWN va + PGSIZE"
    have ul: "user_leaf (memory s) root va" and mp: "mapped (memory s) root ?va (len - ?n)"
      using mapped_chunk [OF True, of "memory s" root va] less(2) by blast+
    have nz: "PTE2PA (leaf_pte (memory s) root va) \<noteq> 0" using ul by (simp add: user_leaf_def)
    define bs where "bs = read_bytes (PTE2PA (leaf_pte (memory s) root va) + (va - PGROUNDDOWN va)) ?n s"
    have ub: "user_bytes (memory s) root va len = bs @ user_bytes (memory s) root ?va (len - ?n)"
      using user_bytes_chunk [OF True ul] by (simp add: bs_def read_bytes_def)
    have lt: "len - ?n < len" using chunk_pos [OF True] True by simp
    have step: "copyinstr_loop root va len acc s =
        (if 0 \<in> set bs then Ret (0, acc @ takeWhile (\<lambda>b. b \<noteq> 0) bs @ [0]) s
         else copyinstr_loop root ?va (len - ?n) (acc @ bs) s)"
      by (subst copyinstr_loop.simps)
        (use walkaddr_page [OF assms(1,2), of va] ul nz True in \<open>simp add: Let_def copy_until_nul_spec flip: bs_def\<close>)
    show ?thesis
      unfolding step ub using less(1) [OF lt mp, of "acc @ bs"]
      by (cases "0 \<in> set bs") (auto simp: takeWhile_append)
  qed
qed

section \<open>Properties\<close>

text \<open>
  C11: \<open>copyin\<close> succeeds exactly when every byte of the range is mapped for the user, and then
  returns the bytes the page table translates the range to; it changes nothing.
\<close>

theorem copyin_correct:
  assumes "vm_wf s fl \<Gamma>" "\<Gamma> root = Some (root, [])"
  shows "\<exists>bs. copyin root srcva len s =
    Ret (if mapped (memory s) root srcva len then (0, user_bytes (memory s) root srcva len) else (-1, bs)) s"
  using assms by (rule copyin_spec)

text \<open>
  C10: what \<open>copyout\<close> writes, \<open>copyin\<close> reads back: when the range is mapped for the user and no
  physical page is shared, copying bytes out succeeds and copying the range in again gives the
  same bytes; page tables and free list stay intact.
\<close>

theorem copyout_copyin:
  assumes "vm_wf s fl \<Gamma>" "\<Gamma> root = Some (root, [])" "user_pages_ok (memory s) fl \<Gamma> root" "length bs < 2 ^ 64"
    and "mapped (memory s) root va (length bs)"
  shows "\<exists>s'. copyout root va bs s = Ret 0 s' \<and> vm_wf s' fl \<Gamma> \<and> copyin root va (length bs) s' = Ret (0, bs) s'"
proof -
  obtain m where m: "copyout root va bs s = Ret 0 (s\<lparr>memory := m\<rparr>)" "user_store (memory s) root va bs m"
    using copyout_spec [OF assms(1-4), of va] assms(5) by auto
  have "\<forall>x. (\<forall>va. xlate (memory s) root va \<noteq> Some x) \<longrightarrow> m x = memory s x"
    using m(2) unfolding user_store_def by blast
  note uw = user_write [where m = m, OF assms(1,2,3) this]
  have mp: "mapped m root va (length bs)" using assms(5) unfolding mapped_def uw(4) .
  have ub: "user_bytes m root va (length bs) = bs"
    using m(2) unfolding user_bytes_def user_store_def uw(4) by (intro nth_equalityI) simp_all
  have mm: "memory (s\<lparr>memory := m\<rparr>) = m" by simp
  have "copyin root va (length bs) (s\<lparr>memory := m\<rparr>) = Ret (0, bs) (s\<lparr>memory := m\<rparr>)"
    using copyin_spec [OF uw(1) assms(2), of va "length bs"] unfolding mm by (simp only: mp ub if_True simp_thms)
  then show ?thesis using m(1) uw(1) by blast
qed

text \<open>
  C12: \<open>copyinstr\<close> on a mapped range returns the string up to and including its terminator when
  the range holds one, and -1 otherwise.
\<close>

theorem copyinstr_correct:
  assumes "vm_wf s fl \<Gamma>" "\<Gamma> root = Some (root, [])" "mapped (memory s) root srcva len"
  shows "copyinstr root srcva len s =
    Ret (if 0 \<in> set (user_bytes (memory s) root srcva len)
         then (0, takeWhile (\<lambda>b. b \<noteq> 0) (user_bytes (memory s) root srcva len) @ [0])
         else (-1, user_bytes (memory s) root srcva len)) s"
  using copyinstr_loop_spec [OF assms, of "[]"] by (simp add: copyinstr_def)

subsection \<open>The concrete machine\<close>

lemma typing1_root: "typing1 0x87ffe000 = Some (0x87ffe000, [])"
  by (simp add: typing1_def)

lemma machine1_user:
  "user_leaf (memory machine1) 0x87ffe000 va \<longleftrightarrow> PGROUNDDOWN va = 0"
proof
  assume ul: "user_leaf (memory machine1) 0x87ffe000 va"
  then have "PX 2 va = 0 \<and> PX 1 va = 0 \<and> PX 0 va = 0"
    by (auto simp: user_leaf_def leaf_pte_def leaf_val_slot idx_2 machine1_def load_store_pte PA2PTE_numerals
        split: if_splits)
  then show "PGROUNDDOWN va = 0"
    using PX_inj [of va 0] ul by (simp add: user_leaf_def PX_def)
next
  assume "PGROUNDDOWN va = 0"
  moreover from this have "leaf_pte (memory machine1) 0x87ffe000 va = 0x21ffec17"
    using machine1_leaf leaf_pte_page by metis
  moreover have "va < MAXVA" using \<open>PGROUNDDOWN va = 0\<close> PGROUNDDOWN_MAXVA [of va] by simp
  ultimately show "user_leaf (memory machine1) 0x87ffe000 va"
    by (simp add: user_leaf_def PA2PTE_numerals)
qed

lemma machine1_user_ok: "user_pages_ok (memory machine1) [] typing1 0x87ffe000"
proof -
  have "leaf_pte (memory machine1) 0x87ffe000 va = 0x21ffec17" if "PGROUNDDOWN va = 0" for va
    using machine1_leaf that leaf_pte_page by metis
  then show ?thesis unfolding user_pages_ok_def machine1_user
    by (simp add: PA2PTE_numerals typing1_def)
qed

lemma machine1_mapped: "n \<le> 4096 \<Longrightarrow> mapped (memory machine1) 0x87ffe000 0 n"
  unfolding mapped_def
proof (intro allI impI)
  fix i assume "n \<le> 4096" "i < n"
  then have "i < 4096" by simp
  then have "PGROUNDDOWN (0 + of_nat i) = 0" by (rule PGROUNDDOWN_offset [rotated]) simp
  then show "xlate (memory machine1) 0x87ffe000 (0 + of_nat i) \<noteq> None" by (simp only: xlate_def machine1_user if_True) simp
qed

theorem copyin_correct_witness:
  "\<exists>bs. copyin 0x87ffe000 0 16 machine1 =
    Ret (if mapped (memory machine1) 0x87ffe000 0 16 then (0, user_bytes (memory machine1) 0x87ffe000 0 16) else (-1, bs)) machine1"
  by (rule copyin_correct [OF machine1_wf typing1_root])

theorem copyout_copyin_witness:
  "\<exists>s'. copyout 0x87ffe000 0 [104, 105, 0] machine1 = Ret 0 s' \<and> vm_wf s' [] typing1 \<and>
     copyin 0x87ffe000 0 3 s' = Ret (0, [104, 105, 0]) s'"
proof -
  have l: "length [104, 105, 0 :: u8] = 3" by simp
  show ?thesis
    using copyout_copyin [OF machine1_wf typing1_root machine1_user_ok, of "[104, 105, 0]" 0] machine1_mapped [of 3]
    unfolding l by simp
qed

theorem copyinstr_correct_witness:
  "copyinstr 0x87ffe000 0 8 machine1 =
    Ret (if 0 \<in> set (user_bytes (memory machine1) 0x87ffe000 0 8)
         then (0, takeWhile (\<lambda>b. b \<noteq> 0) (user_bytes (memory machine1) 0x87ffe000 0 8) @ [0])
         else (-1, user_bytes (memory machine1) 0x87ffe000 0 8)) machine1"
  by (rule copyinstr_correct [OF machine1_wf typing1_root machine1_mapped]) simp

end
