(* ===== verification/Streams.thy ===== *)
theory Streams
  imports File Vm_Copy Block_Cache
begin

text \<open>
  What the byte streams of the kernel promise: the UART sends what it is given in order, the
  console hands out edited lines, numbers are printed so that they can be read back, and pipes are
  first-in first-out.
\<close>

lemma counter_full: "w \<noteq> r + of_nat n \<Longrightarrow> unat (w - r) \<noteq> n"
proof
  assume ne: "w \<noteq> r + of_nat n" and "unat (w - r) = n"
  then have "of_nat n = w - r" by (metis of_nat_unat ucast_id)
  then show False using ne by simp
qed

section \<open>UART output\<close>

text \<open>The bytes waiting in the transmit buffer.\<close>

definition tx_pending :: "'a ustate_scheme \<Rightarrow> u8 list" where
  "tx_pending s = queue (aget UART_TX_BUF_SIZE) (uart_tx_buf s) (uart_tx_r s) (uart_tx_w s)"

definition tx_ok :: "'a ustate_scheme \<Rightarrow> bool" where
  "tx_ok s \<longleftrightarrow> length (uart_tx_buf s) = UART_TX_BUF_SIZE \<and> length (tx_pending s) \<le> UART_TX_BUF_SIZE \<and> u_lcr (uart s) AND LCR_BAUD_LATCH = 0"

lemma tx_pending_wakeup [simp]: "tx_pending (wakeup ch s) = tx_pending s"
  by (simp add: tx_pending_def)

lemma uartstart_ok:
  assumes "tx_ok s"
  shows "tx_ok (uartstart s) \<and> u_out (uart (uartstart s)) @ tx_pending (uartstart s) = u_out (uart s) @ tx_pending s \<and>
    (tx_pending (uartstart s) = [] \<or> read_lsr (uart (uartstart s)) AND LSR_TX_IDLE = 0)"
  using assms
proof (induction s rule: uartstart.induct)
  case (1 s)
  show ?case
  proof (cases "uart_tx_w s = uart_tx_r s \<or> read_lsr (uart s) AND LSR_TX_IDLE = 0")
    case True
    then show ?thesis using 1(2) by (auto simp: uartstart.simps [of s] tx_pending_def)
  next
    case False
    let ?c = "aget UART_TX_BUF_SIZE (uart_tx_buf s) (uart_tx_r s)"
    let ?t = "write_uart THR ?c (wakeup ChanUart (s\<lparr>uart_tx_r := uart_tx_r s + 1\<rparr>))"
    have p: "tx_pending s = ?c # tx_pending ?t"
      using False queue_pop [of "uart_tx_r s" "uart_tx_w s" "aget UART_TX_BUF_SIZE" "uart_tx_buf s"] by (auto simp: tx_pending_def write_uart_def)
    have o: "u_out (uart ?t) = u_out (uart s) @ [?c]" "u_lcr (uart ?t) = u_lcr (uart s)" "uart_tx_buf ?t = uart_tx_buf s"
      using 1(2) by (simp_all add: write_uart_def WriteReg_def tx_ok_def)
    have "tx_ok ?t" using 1(2) p o by (simp add: tx_ok_def)
    then show ?thesis using 1(1) False p o by (simp add: uartstart.simps [of s] Let_def)
  qed
qed

lemma curproc_wakeup [simp]: "curproc (wakeup ch s) = curproc s"
  by (subst wakeup_procs) simp

lemma uartstart_frame: "panicked (uartstart s) = panicked s \<and> curproc (uartstart s) = curproc s"
proof (induction s rule: uartstart.induct)
  case (1 s)
  then show ?case by (subst (1 2) uartstart.simps) (auto simp: write_uart_def Let_def)
qed

lemma uartputc_run:
  assumes ok: "tx_ok s" and s: "\<not> panicked s" "myproc s = Some p"
  shows "\<exists>s'. uartputc c s = (if length (tx_pending s) < UART_TX_BUF_SIZE then Ret () s' else Sleep ChanUart s') \<and>
    tx_ok s' \<and> \<not> panicked s' \<and> myproc s' = Some p \<and>
    u_out (uart s') @ tx_pending s' = u_out (uart s) @ tx_pending s @ (if length (tx_pending s) < UART_TX_BUF_SIZE then [c] else []) \<and>
    (if length (tx_pending s) < UART_TX_BUF_SIZE then tx_pending s' = [] \<or> read_lsr (uart s') AND LSR_TX_IDLE = 0
     else tx_pending s' = tx_pending s \<and> uart s' = uart s)"
proof (cases "uart_tx_w s = uart_tx_r s + of_nat UART_TX_BUF_SIZE")
  case True
  then have "\<not> length (tx_pending s) < UART_TX_BUF_SIZE" by (simp add: tx_pending_def)
  moreover have "uartputc c s = Sleep ChanUart (modp p (\<lambda>q. q\<lparr>p_chan := ChanUart, p_state := SLEEPING\<rparr>) s)"
    using True s by (simp add: uartputc_def sleep_def with_myproc_def)
  ultimately show ?thesis using ok s by (simp add: modp_def tx_ok_def tx_pending_def myproc_def)
next
  case False
  then have room: "length (tx_pending s) < UART_TX_BUF_SIZE"
    using ok counter_full [OF False] by (simp add: tx_ok_def tx_pending_def)
  let ?t = "s\<lparr>uart_tx_buf := aput UART_TX_BUF_SIZE (uart_tx_buf s) (uart_tx_w s) c, uart_tx_w := uart_tx_w s + 1\<rparr>"
  have len: "length (uart_tx_buf s) = UART_TX_BUF_SIZE" using ok by (simp add: tx_ok_def)
  have p: "tx_pending ?t = tx_pending s @ [c]"
    using tx.queue_push [OF len, of "uart_tx_w s" "uart_tx_r s" c] room by (simp add: tx_pending_def)
  have "tx_ok ?t" using ok room p by (simp add: tx_ok_def aput_def)
  note st = uartstart_ok [OF this]
  have "uartputc c s = Ret () (uartstart ?t)" using False s by (simp add: uartputc_def)
  moreover have "\<not> panicked (uartstart ?t)" "myproc (uartstart ?t) = Some p" using s uartstart_frame [of ?t] by (simp_all add: myproc_def)
  ultimately show ?thesis using room p st by simp
qed

lemma uart_sends:
  assumes "tx_ok s" "\<not> panicked s" "myproc s = Some p"
  shows "\<exists>k s'. rfor cs uartputc s = (if k = length cs then Ret () s' else Sleep ChanUart s') \<and> k \<le> length cs \<and> tx_ok s' \<and>
    u_out (uart s') @ tx_pending s' = u_out (uart s) @ tx_pending s @ take k cs \<and>
    (k < length cs \<longrightarrow> length (tx_pending s') = UART_TX_BUF_SIZE) \<and>
    (if 0 < k then tx_pending s' = [] \<or> read_lsr (uart s') AND LSR_TX_IDLE = 0 else tx_pending s' = tx_pending s \<and> uart s' = uart s)"
  using assms
proof (induction cs arbitrary: s)
  case Nil
  then show ?case by auto
next
  case (Cons c cs)
  obtain s1 where s1: "uartputc c s = (if length (tx_pending s) < UART_TX_BUF_SIZE then Ret () s1 else Sleep ChanUart s1)"
    "tx_ok s1" "\<not> panicked s1" "myproc s1 = Some p"
    "u_out (uart s1) @ tx_pending s1 = u_out (uart s) @ tx_pending s @ (if length (tx_pending s) < UART_TX_BUF_SIZE then [c] else [])"
    "if length (tx_pending s) < UART_TX_BUF_SIZE then tx_pending s1 = [] \<or> read_lsr (uart s1) AND LSR_TX_IDLE = 0
     else tx_pending s1 = tx_pending s \<and> uart s1 = uart s"
    using uartputc_run [OF Cons(2,3,4), of c] by blast
  show ?case
  proof (cases "length (tx_pending s) < UART_TX_BUF_SIZE")
    case True
    obtain k s' where k: "rfor cs uartputc s1 = (if k = length cs then Ret () s' else Sleep ChanUart s')" "k \<le> length cs" "tx_ok s'"
      "u_out (uart s') @ tx_pending s' = u_out (uart s1) @ tx_pending s1 @ take k cs"
      "k < length cs \<longrightarrow> length (tx_pending s') = UART_TX_BUF_SIZE"
      "if 0 < k then tx_pending s' = [] \<or> read_lsr (uart s') AND LSR_TX_IDLE = 0 else tx_pending s' = tx_pending s1 \<and> uart s' = uart s1"
      using Cons(1) [OF s1(2-4)] by blast
    have "rfor (c # cs) uartputc s = (if Suc k = length (c # cs) then Ret () s' else Sleep ChanUart s')" using s1(1) k(1) True by simp
    moreover have "tx_pending s' = [] \<or> read_lsr (uart s') AND LSR_TX_IDLE = 0" using k(6) s1(6) True by (cases "0 < k") auto
    ultimately show ?thesis using k(2-5) s1(5) True by (intro exI [of _ "Suc k"] exI [of _ s']) simp
  next
    case False
    then show ?thesis using s1 Cons(2) by (intro exI [of _ 0] exI [of _ s1]) (auto simp: tx_ok_def)
  qed
qed

text \<open>
  C31: the UART sends the bytes it is given, in order. Whatever is queued, each byte is either sent or waiting behind
  everything given before it; a writer sleeps only when the transmit buffer is full; and once a byte has been
  accepted nothing waits while the transmitter is idle.
\<close>

theorem uart_in_order:
  assumes "tx_ok s" "\<not> panicked s" "myproc s = Some p"
  shows "\<exists>k s'. rfor cs uartputc s = (if k = length cs then Ret () s' else Sleep ChanUart s') \<and> k \<le> length cs \<and> tx_ok s' \<and>
    u_out (uart s') @ tx_pending s' = u_out (uart s) @ tx_pending s @ take k cs \<and>
    (k < length cs \<longrightarrow> length (tx_pending s') = UART_TX_BUF_SIZE) \<and>
    (0 < k \<longrightarrow> tx_pending s' = [] \<or> read_lsr (uart s') AND LSR_TX_IDLE = 0)"
proof -
  obtain k s' where "rfor cs uartputc s = (if k = length cs then Ret () s' else Sleep ChanUart s')" "k \<le> length cs" "tx_ok s'"
    "u_out (uart s') @ tx_pending s' = u_out (uart s) @ tx_pending s @ take k cs"
    "k < length cs \<longrightarrow> length (tx_pending s') = UART_TX_BUF_SIZE"
    "if 0 < k then tx_pending s' = [] \<or> read_lsr (uart s') AND LSR_TX_IDLE = 0 else tx_pending s' = tx_pending s \<and> uart s' = uart s"
    using uart_sends [OF assms, of cs] by blast
  then show ?thesis by (intro exI [of _ k] exI [of _ s']) auto
qed

section \<open>Printing\<close>

text \<open>Printing changes only the UART and, unless the kernel has panicked, returns.\<close>

definition prints :: "'a cstate_scheme \<Rightarrow> (unit, 'a cstate_scheme) res \<Rightarrow> bool" where
  "prints s r \<longleftrightarrow> (\<exists>u. r = Ret () (s\<lparr>uart := u\<rparr>))"

lemma prints_refl [simp]: "prints s (Ret () s)"
  unfolding prints_def by (rule exI [of _ "uart s"]) simp

lemma prints_uart [simp]: "prints s (Ret () (s\<lparr>uart := u\<rparr>))"
  unfolding prints_def by blast

lemma prints_rbind:
  assumes "prints s r" "\<And>u. prints (s\<lparr>uart := u\<rparr>) (f () (s\<lparr>uart := u\<rparr>))"
  shows "prints s (rbind r f)"
proof -
  obtain u where r: "r = Ret () (s\<lparr>uart := u\<rparr>)" using assms(1) by (auto simp: prints_def)
  obtain v where "f () (s\<lparr>uart := u\<rparr>) = Ret () (s\<lparr>uart := u, uart := v\<rparr>)" using assms(2) [of u] by (auto simp: prints_def)
  then show ?thesis by (simp add: r)
qed

lemma prints_consputc: "\<not> panicked s \<Longrightarrow> prints s (consputc c s)"
  by (auto simp: consputc_def uartputc_sync_def write_uart_def intro!: prints_rbind)

lemma prints_put_chars: "\<not> panicked s \<Longrightarrow> prints s (put_chars cs s)"
  unfolding put_chars_def
proof (induction cs arbitrary: s)
  case (Cons c cs)
  then show ?case using prints_consputc by (auto intro!: prints_rbind)
qed simp

lemma prints_procdump_one: "\<not> panicked s \<Longrightarrow> prints s (procdump_one i s)"
  unfolding procdump_one_def Let_def
  by (auto simp: printf_def str_def printint_def intro!: prints_rbind prints_consputc prints_put_chars)

lemma prints_rfor: "(\<And>i s. \<not> panicked s \<Longrightarrow> prints s (f i s)) \<Longrightarrow> \<not> panicked s \<Longrightarrow> prints s (rfor is f s)"
proof (induction "is" arbitrary: s)
  case (Cons i "is")
  then show ?case by (auto intro!: prints_rbind)
qed simp

lemma prints_procdump: "\<not> panicked s \<Longrightarrow> prints s (procdump s)"
  unfolding procdump_def
  by (auto simp: printf_def intro!: prints_rbind prints_consputc prints_rfor prints_procdump_one)

text \<open>Reading a printed number back.\<close>

definition digit_val :: "u8 \<Rightarrow> nat" where
  "digit_val c = (case find_index (\<lambda>d. d = c) digits of None \<Rightarrow> 0 | Some i \<Rightarrow> i)"

definition read_digits :: "nat \<Rightarrow> u8 list \<Rightarrow> nat" where
  "read_digits base cs = foldl (\<lambda>a c. a * base + digit_val c) 0 cs"

definition read_int :: "nat \<Rightarrow> u8 list \<Rightarrow> int" where
  "read_int base cs = (case cs of c # ds \<Rightarrow> if c = 45 then - int (read_digits base ds) else int (read_digits base cs) | [] \<Rightarrow> 0)"

lemma digit_val_digits: "i < 16 \<Longrightarrow> digit_val (digits ! i) = i \<and> digits ! i \<noteq> 45"
proof -
  have "\<forall>i\<in>set [0..<16]. digit_val (digits ! i) = i \<and> digits ! i \<noteq> 45" by code_simp
  then show "i < 16 \<Longrightarrow> digit_val (digits ! i) = i \<and> digits ! i \<noteq> 45" by simp
qed

lemma read_print_digits:
  assumes "2 \<le> base" "base \<le> 16"
  shows "read_digits base (rev (print_digits x base)) = x"
  using assms
proof (induction x base rule: print_digits.induct)
  case (1 x base)
  have d: "digit_val (digits ! (x mod base)) = x mod base" using 1(2,3) digit_val_digits [of "x mod base"] mod_less_divisor [of base x] by linarith
  show ?case
  proof (cases "x div base = 0")
    case True
    then have "print_digits x base = [digits ! (x mod base)]" by (subst print_digits.simps) simp
    moreover have "x mod base = x" using True 1(2) by (metis div_eq_0_iff mod_less not_numeral_le_zero)
    ultimately show ?thesis using d by (simp add: read_digits_def)
  next
    case False
    have "print_digits x base = digits ! (x mod base) # print_digits (x div base) base" using False 1(2) by (subst print_digits.simps) simp
    moreover have "read_digits base (rev (print_digits (x div base) base)) = x div base" using 1 False by simp
    ultimately show ?thesis using d by (simp add: read_digits_def)
  qed
qed

lemma print_digits_length: "2 \<le> base \<Longrightarrow> x < base ^ Suc k \<Longrightarrow> length (print_digits x base) \<le> Suc k"
proof (induction k arbitrary: x)
  case 0
  then show ?case by (subst print_digits.simps) simp
next
  case (Suc k)
  have "x div base < base ^ Suc k" using Suc(2,3) by (simp add: less_mult_imp_div_less mult.commute)
  then show ?case using Suc(1) [of "x div base"] Suc(2) by (subst print_digits.simps) simp
qed

lemma print_digits_head: "2 \<le> base \<Longrightarrow> base \<le> 16 \<Longrightarrow> print_digits x base \<noteq> [] \<and> 45 \<notin> set (print_digits x base)"
proof (induction x base rule: print_digits.induct)
  case (1 x base)
  have "x mod base < 16" using 1(2,3) mod_less_divisor [of base x] by linarith
  then have "digits ! (x mod base) \<noteq> 45" by (simp add: digit_val_digits)
  then show ?case using 1 by (subst (1 2) print_digits.simps) auto
qed

text \<open>Bytes put out by polling reach the line in order.\<close>

lemma consputc_out:
  assumes "\<not> panicked s" "u_lcr (uart s) AND LCR_BAUD_LATCH = 0"
  shows "\<exists>s'. consputc (uint c) s = Ret () s' \<and> \<not> panicked s' \<and> u_lcr (uart s') AND LCR_BAUD_LATCH = 0 \<and> u_out (uart s') = u_out (uart s) @ [c]"
proof -
  have "uint c < 2 ^ LENGTH(8)" by (rule unsigned_less)
  then have "uint c \<noteq> BACKSPACE" by simp
  then show ?thesis using assms by (auto simp: consputc_def uartputc_sync_def write_uart_def WriteReg_def tx_idle_def)
qed

lemma put_chars_out:
  assumes "\<not> panicked s" "u_lcr (uart s) AND LCR_BAUD_LATCH = 0"
  shows "\<exists>s'. put_chars cs s = Ret () s' \<and> u_out (uart s') = u_out (uart s) @ cs"
  using assms unfolding put_chars_def
proof (induction cs arbitrary: s)
  case (Cons c cs)
  obtain s1 where "consputc (uint c) s = Ret () s1" "\<not> panicked s1" "u_lcr (uart s1) AND LCR_BAUD_LATCH = 0"
    "u_out (uart s1) = u_out (uart s) @ [c]" using consputc_out [OF Cons(2,3)] by blast
  then show ?case using Cons(1) [of s1] by auto
qed simp

text \<open>
  C32: a printed number can be read back. For every \<open>int\<close> and every base from 10 to 16 the digits that \<open>printint\<close> collects
  fit its buffer of 16 characters, all of them reach the serial line in order, and they denote the number.
\<close>

theorem printint_reads_back:
  assumes "\<not> panicked s" "u_lcr (uart s) AND LCR_BAUD_LATCH = 0" "10 \<le> base" "base \<le> 16" "- (2 ^ 31) \<le> xx" "xx < 2 ^ 31"
  shows "length (int_chars xx base True) \<le> 16 \<and>
    (\<exists>s' cs. printint xx base True s = Ret () s' \<and> u_out (uart s') = u_out (uart s) @ cs \<and> read_int base cs = xx)"
proof -
  define x :: u32 where "x = (if xx < 0 then of_int (- xx) else of_int xx)"
  let ?d = "print_digits (unat x) base"
  have chars: "int_chars xx base True = ?d @ (if xx < 0 then [45] else [])"
    by (simp add: int_chars_def x_def str_def Let_def)
  have "x = of_int \<bar>xx\<bar>" by (simp add: x_def)
  then have "uint x = \<bar>xx\<bar>" using assms(5,6) by (simp only: uint_word_of_int_eq) (simp add: take_bit_int_eq_self)
  then have x: "int (unat x) = \<bar>xx\<bar>" by simp
  have "unat x < 2 ^ 32" using unsigned_less [of x, where ?'a = nat] by simp
  then have "unat x < 10 ^ Suc 9" by simp
  also have "\<dots> \<le> base ^ Suc 9" using assms(3) by (rule power_mono) simp
  finally have small: "unat x < base ^ Suc 9" .
  have base: "2 \<le> base" using assms(3) by simp
  note len = print_digits_length [OF base small]
  have hd: "?d \<noteq> []" "45 \<notin> set ?d" using print_digits_head [OF base assms(4), of "unat x"] by simp_all
  have rd: "read_digits base (rev ?d) = unat x" by (rule read_print_digits [OF base assms(4)])
  have "read_int base (rev (int_chars xx base True)) = xx"
  proof (cases "xx < 0")
    case True
    then show ?thesis using rd x by (simp add: chars read_int_def)
  next
    case False
    obtain c ds where "rev ?d = c # ds" using hd(1) by (metis neq_Nil_conv rev_is_Nil_conv)
    moreover from this have "c \<noteq> 45" using hd(2) by (metis list.set_intros(1) set_rev)
    ultimately show ?thesis using False rd x by (simp add: chars read_int_def)
  qed
  then show ?thesis using put_chars_out [OF assms(1,2), of "rev (int_chars xx base True)"] len by (auto simp: printint_def chars)
qed

section \<open>Console lines\<close>

text \<open>The bytes ready to be read, and the line being edited.\<close>

definition con_ready :: "cons \<Rightarrow> u8 list" where
  "con_ready x = queue (aget INPUT_BUF_SIZE) (c_buf x) (c_r x) (c_w x)"

definition con_line :: "cons \<Rightarrow> u8 list" where
  "con_line x = queue (aget INPUT_BUF_SIZE) (c_buf x) (c_w x) (c_e x)"

definition con_ok :: "cons \<Rightarrow> bool" where
  "con_ok x \<longleftrightarrow> length (c_buf x) = INPUT_BUF_SIZE \<and> length (con_ready x) + length (con_line x) \<le> INPUT_BUF_SIZE \<and> 10 \<notin> set (con_line x)"

text \<open>What a received character does to them.\<close>

definition edit :: "int \<Rightarrow> u8 list \<times> u8 list \<Rightarrow> u8 list \<times> u8 list" where
  "edit c = (\<lambda>(ready, line).
     if c = 16 then (ready, line)
     else if c = 21 then (ready, [])
     else if c = 8 \<or> c = 0x7f then (ready, butlast line)
     else if c \<noteq> 0 \<and> length ready + length line < INPUT_BUF_SIZE then
       let line = line @ [if c = 13 then 10 else of_int c] in
       if c = 13 \<or> c = 10 \<or> c = 4 \<or> length ready + length line = INPUT_BUF_SIZE then (ready @ line, []) else (ready, line)
     else (ready, line))"

lemma queue_last:
  assumes "r \<noteq> w"
  shows "queue get b r w = queue get b r (w - 1) @ [get b (w - 1)]"
proof -
  have n: "unat (w - r) = Suc (unat (w - 1 - r))" using unat_Suc_diff [of r w] assms by (simp add: algebra_simps)
  have "r + of_nat (unat (w - 1 - r)) = w - 1" by simp
  then show ?thesis unfolding queue_def n by (simp only: upt_Suc_append [OF le0] map_append list.map)
qed

lemma con_erase:
  assumes "con_ok x" "c_e x \<noteq> c_w x"
  shows "con_line (x\<lparr>c_e := c_e x - 1\<rparr>) = butlast (con_line x)" "con_ok (x\<lparr>c_e := c_e x - 1\<rparr>)"
    "aget INPUT_BUF_SIZE (c_buf x) (c_e x - 1) \<noteq> 10" "con_ready (x\<lparr>c_e := c_e x - 1\<rparr>) = con_ready x"
proof -
  note q = queue_last [of "c_w x" "c_e x" "aget INPUT_BUF_SIZE" "c_buf x"]
  show l: "con_line (x\<lparr>c_e := c_e x - 1\<rparr>) = butlast (con_line x)" using q assms(2) by (auto simp: con_line_def)
  show r: "con_ready (x\<lparr>c_e := c_e x - 1\<rparr>) = con_ready x" by (simp add: con_ready_def)
  show "aget INPUT_BUF_SIZE (c_buf x) (c_e x - 1) \<noteq> 10" using q assms by (auto simp: con_line_def con_ok_def)
  show "con_ok (x\<lparr>c_e := c_e x - 1\<rparr>)" using assms(1) l r by (auto simp: con_ok_def dest: in_set_butlastD)
qed

lemma kill_line_ok:
  assumes "\<not> panicked s" "con_ok (cons s)"
  shows "\<exists>u. kill_line s = Ret () (s\<lparr>uart := u, cons := (cons s)\<lparr>c_e := c_w (cons s)\<rparr>\<rparr>)"
  using assms
proof (induction s rule: kill_line.induct)
  case (1 s)
  show ?case
  proof (cases "c_e (cons s) = c_w (cons s)")
    case True
    then have "kill_line s = Ret () s" by (subst kill_line.simps) simp
    then show ?thesis by (intro exI [of _ "uart s"]) (simp add: True [symmetric])
  next
    case False
    let ?x = "(cons s)\<lparr>c_e := c_e (cons s) - 1\<rparr>"
    note e = con_erase [OF 1(3) False]
    obtain u where u: "consputc BACKSPACE (modcons (\<lambda>x. x\<lparr>c_e := c_e x - 1\<rparr>) s) = Ret () (s\<lparr>cons := ?x, uart := u\<rparr>)"
      using prints_consputc [of "modcons (\<lambda>x. x\<lparr>c_e := c_e x - 1\<rparr>) s" BACKSPACE] 1(2) by (auto simp: prints_def modcons_def)
    have "\<exists>v. kill_line (s\<lparr>cons := ?x, uart := u\<rparr>) = Ret () (s\<lparr>cons := ?x, uart := u, uart := v, cons := ?x\<lparr>c_e := c_w (cons s)\<rparr>\<rparr>)"
      using 1(1) [OF _ u] False e 1(2) by simp
    moreover have "kill_line s = kill_line (s\<lparr>cons := ?x, uart := u\<rparr>)" using False e(3) u by (subst kill_line.simps) simp
    ultimately obtain v where "kill_line s = Ret () (s\<lparr>cons := ?x, uart := u, uart := v, cons := ?x\<lparr>c_e := c_w (cons s)\<rparr>\<rparr>)" by auto
    then show ?thesis by (intro exI [of _ v]) simp
  qed
qed

lemma counter_split:
  fixes r w e :: "'w::len word"
  assumes "unat (w - r) + unat (e - w) < 2 ^ LENGTH('w)"
  shows "unat (e - r) = unat (w - r) + unat (e - w)"
proof -
  have "e - r = (w - r) + (e - w)" by simp
  then show ?thesis using assms by (metis unat_add_lem)
qed

lemma queue_split:
  fixes r w e :: "'w::len word"
  assumes "unat (w - r) + unat (e - w) < 2 ^ LENGTH('w)"
  shows "queue get b r e = queue get b r w @ queue get b w e"
proof -
  have "r + of_nat (k + unat (w - r)) = w + of_nat k" for k by (simp add: algebra_simps)
  then have "map (\<lambda>k. get b (r + of_nat k)) [unat (w - r)..<unat (e - w) + unat (w - r)] = queue get b w e"
    unfolding queue_def by (subst map_add_upt [symmetric]) (simp only: map_map comp_def)
  then show ?thesis
    unfolding queue_def counter_split [OF assms] upt_add_eq_append [OF le0] map_append by (simp add: add.commute)
qed

text \<open>A character is appended, and the line is handed over.\<close>

lemma con_append:
  assumes ok: "con_ok x" and room: "length (con_ready x) + length (con_line x) < INPUT_BUF_SIZE"
    and y: "y = x\<lparr>c_buf := aput INPUT_BUF_SIZE (c_buf x) (c_e x) c, c_e := c_e x + 1\<rparr>"
  shows "con_line y = con_line x @ [c]" "con_ready y = con_ready x" "length (c_buf y) = INPUT_BUF_SIZE"
    "con_ready (y\<lparr>c_w := c_e y\<rparr>) = con_ready x @ con_line x @ [c]" "con_line (y\<lparr>c_w := c_e y\<rparr>) = []"
    "unat (c_e y - c_r y) = Suc (length (con_ready x) + length (con_line x))"
proof -
  let ?q = "queue (aget INPUT_BUF_SIZE)"
  have len: "length (c_buf x) = INPUT_BUF_SIZE" using ok by (simp add: con_ok_def)
  have ab: "unat (c_w x - c_r x) + unat (c_e x - c_w x) < INPUT_BUF_SIZE" using room by (simp add: con_ready_def con_line_def)
  then have big: "unat (c_w x - c_r x) + unat (c_e x - c_w x) < 2 ^ LENGTH(32)" by simp
  note sp = queue_split [OF big, of "aget INPUT_BUF_SIZE" "c_buf x"] counter_split [OF big]
  have line: "?q (c_buf y) (c_w x) (c_e x + 1) = ?q (c_buf x) (c_w x) (c_e x) @ [c]"
    using line.queue_push [OF len, of "c_e x" "c_w x"] ab y by simp
  have whole: "?q (c_buf y) (c_r x) (c_e x + 1) = ?q (c_buf x) (c_r x) (c_e x) @ [c]"
    using line.queue_push [OF len, of "c_e x" "c_r x"] ab sp(2) y by simp
  have n: "unat (c_e x + 1 - c_w x) = Suc (unat (c_e x - c_w x))" using arg_cong [OF line, of length] by simp
  then have "unat (c_w x - c_r x) + unat (c_e x + 1 - c_w x) < 2 ^ LENGTH(32)" using ab by simp
  note sp' = queue_split [OF this, of "aget INPUT_BUF_SIZE" "c_buf y"] counter_split [OF this]
  show "con_line y = con_line x @ [c]" using line y by (simp add: con_line_def)
  have "?q (c_buf y) (c_r x) (c_w x) = ?q (c_buf x) (c_r x) (c_w x)"
    using sp'(1) whole line sp(1) by simp
  then show "con_ready y = con_ready x" using y by (simp add: con_ready_def)
  show "length (c_buf y) = INPUT_BUF_SIZE" using len y by (simp add: aput_def)
  show "con_ready (y\<lparr>c_w := c_e y\<rparr>) = con_ready x @ con_line x @ [c]" using whole sp(1) y by (simp add: con_ready_def con_line_def)
  show "con_line (y\<lparr>c_w := c_e y\<rparr>) = []" by (simp add: con_line_def)
  show "unat (c_e y - c_r y) = Suc (length (con_ready x) + length (con_line x))"
    using sp'(2) n y by (simp add: con_ready_def con_line_def)
qed

lemma consoleintr_char:
  assumes np: "\<not> panicked s" and ok: "con_ok (cons s)" and c: "0 \<le> c" "c < 256" "c \<noteq> 0" "c \<notin> {16, 21, 8, 0x7f}"
    and room: "length (con_ready (cons s)) + length (con_line (cons s)) < INPUT_BUF_SIZE"
    and len: "unat (c_e (cons s) - c_r (cons s)) = length (con_ready (cons s)) + length (con_line (cons s))"
  shows "\<exists>s'. consoleintr c s = Ret () s' \<and> con_ok (cons s') \<and>
    (con_ready (cons s'), con_line (cons s')) = edit c (con_ready (cons s), con_line (cons s))"
proof -
  define d :: int where "d = (if c = 13 then 10 else c)"
  let ?x = "cons s"
  let ?y = "?x\<lparr>c_buf := aput INPUT_BUF_SIZE (c_buf ?x) (c_e ?x) (of_int d), c_e := c_e ?x + 1\<rparr>"
  let ?full = "d = 10 \<or> d = 4 \<or> unat (c_e ?y - c_r ?y) = INPUT_BUF_SIZE"
  note y = con_append [OF ok room refl, of "of_int d"]
  obtain u where u: "consputc d s = Ret () (s\<lparr>uart := u\<rparr>)" using prints_consputc [OF np, of d] by (auto simp: prints_def)
  have run: "consoleintr c s = Ret () (let t = s\<lparr>uart := u, cons := ?y\<rparr> in
      if ?full then wakeup ChanCons (t\<lparr>cons := ?y\<lparr>c_w := c_e ?y\<rparr>\<rparr>) else t)"
    using c room len u by (simp add: consoleintr_def d_def [symmetric] Let_def modcons_def)
  have cw: "cons (wakeup ch t) = cons t" for ch and t :: "'a cstate_scheme" by (subst wakeup_procs) simp
  have e: "edit c (con_ready ?x, con_line ?x) =
      (if ?full then (con_ready ?x @ con_line ?x @ [of_int d], []) else (con_ready ?x, con_line ?x @ [of_int d]))"
    using c room y(6) by (auto simp: edit_def d_def Let_def)
  show ?thesis
  proof (cases ?full)
    case True
    have "con_ok (?y\<lparr>c_w := c_e ?y\<rparr>)" using y(3,4,5) room by (simp add: con_ok_def)
    then show ?thesis using True run e y(4,5) by (simp add: Let_def cw)
  next
    case False
    have "(of_int d :: u8) \<noteq> of_int 10" using False c by (subst word_of_int_eq_iff) (auto simp: d_def take_bit_eq_mod)
    then have "con_ok ?y" using y(1,2,3) room ok by (simp add: con_ok_def)
    then show ?thesis using False run e y(1,2) by (simp add: Let_def)
  qed
qed

text \<open>
  C30: the console edits lines. Whatever character arrives, the interrupt handler returns and changes the bytes ready for
  readers and the line being edited as the abstract editor does: backspace and \<open>^U\<close> erase only within the current
  line, a full buffer accepts nothing, and a newline, \<open>^D\<close> or a full buffer make the line readable.
\<close>

theorem console_edits:
  assumes "\<not> panicked s" "con_ok (cons s)" "0 \<le> c" "c < 256"
  shows "\<exists>s'. consoleintr c s = Ret () s' \<and> con_ok (cons s') \<and>
    (con_ready (cons s'), con_line (cons s')) = edit c (con_ready (cons s), con_line (cons s))"
proof -
  have len: "unat (c_e (cons s) - c_r (cons s)) = length (con_ready (cons s)) + length (con_line (cons s))"
    using assms(2) counter_split [of "c_w (cons s)" "c_r (cons s)" "c_e (cons s)"] by (simp add: con_ok_def con_ready_def con_line_def)
  consider "c = 16" | "c = 21" | "c = 8 \<or> c = 0x7f"
    | "c \<notin> {16, 21, 8, 0x7f}" "c \<noteq> 0" "unat (c_e (cons s) - c_r (cons s)) < INPUT_BUF_SIZE"
    | "c \<notin> {16, 21, 8, 0x7f}" "\<not> (c \<noteq> 0 \<and> unat (c_e (cons s) - c_r (cons s)) < INPUT_BUF_SIZE)" by blast
  then show ?thesis
  proof cases
    case 1
    then show ?thesis using prints_procdump [OF assms(1)] assms(2) by (auto simp: consoleintr_def prints_def edit_def)
  next
    case 2
    then show ?thesis using kill_line_ok [OF assms(1,2)] assms(2)
      by (auto simp: consoleintr_def edit_def con_ok_def con_ready_def con_line_def)
  next
    case 3
    show ?thesis
    proof (cases "c_e (cons s) = c_w (cons s)")
      case True
      then have "con_line (cons s) = []" by (simp add: con_line_def)
      then show ?thesis using 3 True assms(2) by (auto simp: consoleintr_def edit_def)
    next
      case False
      let ?s = "modcons (\<lambda>x. x\<lparr>c_e := c_e x - 1\<rparr>) s"
      obtain u where "consputc BACKSPACE ?s = Ret () (?s\<lparr>uart := u\<rparr>)"
        using prints_consputc [of ?s BACKSPACE] assms(1) by (auto simp: prints_def modcons_def)
      then have "consoleintr c s = Ret () (?s\<lparr>uart := u\<rparr>)" using 3 False by (auto simp: consoleintr_def)
      then show ?thesis using 3 con_erase [OF assms(2) False] by (auto simp: edit_def modcons_def)
    qed
  next
    case 4
    then show ?thesis using consoleintr_char [OF assms(1,2)] assms(3,4) len by simp
  next
    case 5
    then show ?thesis using assms(2) len by (auto simp: consoleintr_def edit_def)
  qed
qed

section \<open>Pipes\<close>

definition pipe_bytes :: "pipe \<Rightarrow> u8 list" where
  "pipe_bytes x = queue (aget PIPESIZE) (pi_data x) (pi_nread x) (pi_nwrite x)"

definition pipe_ok :: "pipe \<Rightarrow> bool" where
  "pipe_ok x \<longleftrightarrow> length (pi_data x) = PIPESIZE \<and> length (pipe_bytes x) \<le> PIPESIZE"

lemma pipe_full: "pipe_ok x \<Longrightarrow> pi_nwrite x = pi_nread x + of_nat PIPESIZE \<longleftrightarrow> length (pipe_bytes x) = PIPESIZE"
  using counter_full [of "pi_nwrite x" "pi_nread x" PIPESIZE] by (auto simp: pipe_bytes_def)

lemma pipe_put:
  assumes "pipe_ok x" "length (pipe_bytes x) \<noteq> PIPESIZE"
    and y: "y = x\<lparr>pi_data := aput PIPESIZE (pi_data x) (pi_nwrite x) c, pi_nwrite := pi_nwrite x + 1\<rparr>"
  shows "pipe_bytes y = pipe_bytes x @ [c]" "pipe_ok y"
proof -
  show b: "pipe_bytes y = pipe_bytes x @ [c]"
    using pipe_ring.queue_push [of "pi_data x" "pi_nwrite x" "pi_nread x" c] assms by (simp add: pipe_bytes_def pipe_ok_def)
  show "pipe_ok y" using assms b by (simp add: pipe_ok_def aput_def)
qed

lemma vm_wf_more [simp]: "vm_wf (s\<lparr>pipes := x\<rparr>) fl \<Gamma> = vm_wf s fl \<Gamma>"
proof -
  have "kpage (s\<lparr>pipes := x\<rparr>) = kpage s" by (rule ext) (simp add: kpage_def)
  then show ?thesis by (simp add: vm_wf_def kmem_wf_def)
qed

lemma modpipe_twice: "modpipe a (\<lambda>_. x) (modpipe a (\<lambda>_. y) s) = modpipe a (\<lambda>_. x) s"
  by (simp add: modpipe_def)

lemma modpipe_memory: "(modpipe a f s)\<lparr>memory := m\<rparr> = modpipe a f (s\<lparr>memory := m\<rparr>)"
  by (simp add: modpipe_def)

lemma mapped_split: "mapped m root va (k + n) \<longleftrightarrow> mapped m root va k \<and> mapped m root (va + of_nat k) n"
proof
  assume a: "mapped m root va (k + n)"
  have "xlate m root (va + of_nat k + of_nat i) \<noteq> None" if "i < n" for i
    using a [unfolded mapped_def, rule_format, of "k + i"] that by (simp add: add.assoc)
  then show "mapped m root va k \<and> mapped m root (va + of_nat k) n" using a by (simp add: mapped_def)
next
  assume a: "mapped m root va k \<and> mapped m root (va + of_nat k) n"
  have "xlate m root (va + of_nat i) \<noteq> None" if "i < k + n" for i
  proof (cases "i < k")
    case False
    then have "va + of_nat i = va + of_nat k + of_nat (i - k)" by (simp add: of_nat_diff)
    moreover have "xlate m root (va + of_nat k + of_nat (i - k)) \<noteq> None"
      using a that False by (intro conjunct2 [OF a, unfolded mapped_def, rule_format]) simp
    ultimately show ?thesis by (simp only: not_False_eq_True)
  qed (use a in \<open>simp add: mapped_def\<close>)
  then show "mapped m root va (k + n)" by (simp add: mapped_def)
qed

lemma length_user_bytes [simp]: "length (user_bytes m root va n) = n"
  by (simp add: user_bytes_def)

lemma user_byte:
  assumes "mapped m root va n" "i < n"
  shows "mapped m root (va + of_nat i) 1" "user_bytes m root (va + of_nat i) 1 = [user_bytes m root va n ! i]"
  using assms by (simp_all add: mapped_def user_bytes_def)

lemma pipewrite_loop_spec:
  assumes "vm_wf s fl \<Gamma>" "\<Gamma> root = Some (root, [])" "p_pagetable (getp pr s) = root" "\<not> killed pr s"
    and "pi_readopen (pipes s a)" "pipe_ok (pipes s a)" "mapped (memory s) root addr n" "i \<le> n"
  shows "\<exists>x. pipewrite_loop a addr (int i) (int n) pr s =
      (let t = wakeup (ChanPipeRead a) (modpipe a (\<lambda>_. x) s)
       in if length (pipe_bytes (pipes s a)) + (n - i) \<le> PIPESIZE then Ret (int n) t else sleep (ChanPipeWrite a) t) \<and>
    pipe_ok x \<and> pi_readopen x \<and>
    pipe_bytes x = pipe_bytes (pipes s a) @ take (PIPESIZE - length (pipe_bytes (pipes s a))) (drop i (user_bytes (memory s) root addr n))"
  using assms
proof (induction "n - i" arbitrary: i s)
  case 0
  then show ?case by (intro exI [of _ "pipes s a"]) (subst pipewrite_loop.simps, simp add: modpipe_def pipe_ok_def user_bytes_def)
next
  case (Suc k)
  then have i: "i < n" by simp
  note st = pipewrite_loop.simps [of a addr "int i" "int n" pr s]
  show ?case
  proof (cases "length (pipe_bytes (pipes s a)) = PIPESIZE")
    case True
    then have "pipewrite_loop a addr (int i) (int n) pr s = sleep (ChanPipeWrite a) (wakeup (ChanPipeRead a) s)"
      using Suc(5,6,7) i pipe_full [OF Suc(8)] by (simp add: st)
    then show ?thesis using True Suc(7,8) i by (intro exI [of _ "pipes s a"]) (auto simp: modpipe_def Let_def)
  next
    case False
    let ?c = "user_bytes (memory s) root addr n ! i"
    let ?y = "(pipes s a)\<lparr>pi_data := aput PIPESIZE (pi_data (pipes s a)) (pi_nwrite (pipes s a)) ?c, pi_nwrite := pi_nwrite (pipes s a) + 1\<rparr>"
    let ?s = "modpipe a (\<lambda>_. ?y) s"
    note y = pipe_put [OF Suc(8) False refl, of ?c]
    have ci: "copyin root (addr + of_nat i) 1 s = Ret (0, [?c]) s"
      using copyin_spec [OF Suc(3,4), of "addr + of_nat i" 1] user_byte [OF Suc(9) i] by simp
    have step: "pipewrite_loop a addr (int i) (int n) pr s = pipewrite_loop a addr (int (Suc i)) (int n) pr ?s"
      using Suc i pipe_full [OF Suc(8)] False ci by (simp add: st modpipe_def add.commute)
    have "\<exists>x. pipewrite_loop a addr (int (Suc i)) (int n) pr ?s =
        (let t = wakeup (ChanPipeRead a) (modpipe a (\<lambda>_. x) ?s)
         in if length (pipe_bytes ?y) + (n - Suc i) \<le> PIPESIZE then Ret (int n) t else sleep (ChanPipeWrite a) t) \<and>
        pipe_ok x \<and> pi_readopen x \<and>
        pipe_bytes x = pipe_bytes ?y @ take (PIPESIZE - length (pipe_bytes ?y)) (drop (Suc i) (user_bytes (memory s) root addr n))"
    proof -
      have s: "pipes ?s a = ?y" "memory ?s = memory s" "getp pr ?s = getp pr s" "killed pr ?s = killed pr s" "vm_wf ?s fl \<Gamma>"
        using Suc(3) by (simp_all add: modpipe_def getp_def killed_def)
      show ?thesis
        by (rule Suc(1) [of "Suc i" ?s, unfolded s(1-4), OF _ s(5) Suc(4,5,6) _ y(2) Suc(9)]) (use Suc(2,7) i in simp_all)
    qed
    then obtain x where x: "pipewrite_loop a addr (int (Suc i)) (int n) pr ?s =
        (let t = wakeup (ChanPipeRead a) (modpipe a (\<lambda>_. x) ?s)
         in if length (pipe_bytes ?y) + (n - Suc i) \<le> PIPESIZE then Ret (int n) t else sleep (ChanPipeWrite a) t)"
      "pipe_ok x" "pi_readopen x"
      "pipe_bytes x = pipe_bytes ?y @ take (PIPESIZE - length (pipe_bytes ?y)) (drop (Suc i) (user_bytes (memory s) root addr n))"
      by blast
    have d: "drop i (user_bytes (memory s) root addr n) = ?c # drop (Suc i) (user_bytes (memory s) root addr n)"
      using i by (simp add: Cons_nth_drop_Suc)
    have l: "length (pipe_bytes ?y) + (n - Suc i) = length (pipe_bytes (pipes s a)) + (n - i)"
      "PIPESIZE - length (pipe_bytes (pipes s a)) = Suc (PIPESIZE - length (pipe_bytes ?y))"
      using y(1) i False Suc(8) by (auto simp: pipe_ok_def)
    note run = trans [OF step x(1) [unfolded l(1) modpipe_twice]]
    have "pipe_bytes x = pipe_bytes (pipes s a) @ take (PIPESIZE - length (pipe_bytes (pipes s a))) (drop i (user_bytes (memory s) root addr n))"
      unfolding d l(2) x(4) y(1) by (simp only: take_Suc_Cons append_assoc append_Cons append_Nil)
    then show ?thesis using run x(2,3) by blast
  qed
qed

lemma user_store_Cons:
  assumes ok: "user_pages_ok m fl \<Gamma> root" and mp: "mapped m root va (Suc (length bs))" and len: "length bs < 2 ^ 63"
    and xl: "\<And>v. xlate m1 root v = xlate m root v"
    and st: "user_store m root va [b] m1" "user_store m1 root (va + 1) bs m2"
  shows "user_store m root va (b # bs) m2"
proof -
  define va' where "va' i = va + of_nat i" for i
  have va': "va' 0 = va" "va + 1 + of_nat i = va' (Suc i)" "va + of_nat i = va' i" for i by (simp_all add: va'_def)
  obtain pa where pa: "xlate m root va = Some pa" using mp [unfolded mapped_def va', THEN spec, of 0] by (auto simp: va')
  have s1: "m1 pa = b" "x \<noteq> pa \<Longrightarrow> m1 x = m x" for x using st(1) pa by (auto simp: user_store_def)
  have s2: "i < length bs \<Longrightarrow> m2 (the (xlate m root (va' (Suc i)))) = bs ! i"
    "\<forall>i<length bs. xlate m root (va' (Suc i)) \<noteq> Some x \<Longrightarrow> m2 x = m1 x" for i x
    using st(2) unfolding user_store_def xl va' by blast+
  have ne: "xlate m root (va' (Suc i)) \<noteq> Some pa" if i: "i < length bs" for i
  proof
    assume "xlate m root (va' (Suc i)) = Some pa"
    then have "va = va' (Suc i)" by (rule xlate_inj [OF ok pa])
    then have z: "of_nat (Suc i) = (0 :: u64)" by (simp only: va'_def add_cancel_right_right)
    have "Suc i < 2 ^ LENGTH(64)" using i len by simp
    then have "unat (of_nat (Suc i) :: u64) = Suc i" by (rule unat_of_nat_lt)
    then show False by (simp only: z unsigned_0 nat.distinct)
  qed
  show ?thesis unfolding user_store_def va'
  proof (intro conjI allI impI)
    fix i assume i: "i < length (b # bs)"
    show "m2 (the (xlate m root (va' i))) = (b # bs) ! i"
    proof (cases i)
      case 0
      have "m2 pa = m1 pa" using ne by (intro s2(2)) blast
      then show ?thesis using 0 s1(1) pa va'(1) by simp
    next
      case (Suc j)
      then show ?thesis using s2(1) [of j] i by simp
    qed
  next
    fix x assume x: "\<forall>i<length (b # bs). xlate m root (va' i) \<noteq> Some x"
    have "m2 x = m1 x" using x by (intro s2(2)) simp
    moreover have "x \<noteq> pa" using x [THEN spec, of 0] pa va'(1) by auto
    ultimately show "m2 x = m x" using s1(2) [of x] by simp
  qed
qed

lemma piperead_loop_spec:
  assumes "vm_wf s fl \<Gamma>" "\<Gamma> root = Some (root, [])" "user_pages_ok (memory s) fl \<Gamma> root" "p_pagetable (getp pr s) = root"
    and "pipe_ok (pipes s a)" "mapped (memory s) root (addr + of_nat i) (n - i)" "n < 2 ^ 63" "i \<le> n"
  shows "\<exists>m x. piperead_loop a addr (int i) (int n) pr s =
      (Ret (int (i + min (n - i) (length (pipe_bytes (pipes s a)))))
         (wakeup (ChanPipeWrite a) (modpipe a (\<lambda>_. x) (s\<lparr>memory := m\<rparr>)))) \<and>
    pipe_ok x \<and> pipe_bytes x = drop (n - i) (pipe_bytes (pipes s a)) \<and>
    user_store (memory s) root (addr + of_nat i) (take (n - i) (pipe_bytes (pipes s a))) m"
  using assms
proof (induction "n - i" arbitrary: i s)
  case 0
  then show ?case
    by (intro exI [of _ "pipes s a"] exI [of _ "memory s"]) (subst piperead_loop.simps, simp add: modpipe_def user_store_def)
next
  case (Suc k)
  then have i: "i < n" by simp
  note st = piperead_loop.simps [of a addr "int i" "int n" pr s]
  let ?x = "pipes s a"
  show ?case
  proof (cases "pi_nread ?x = pi_nwrite ?x")
    case True
    then have "pipe_bytes ?x = []" by (simp add: pipe_bytes_def)
    then show ?thesis using True Suc(7) i
      by (intro exI [of _ "pipes s a"] exI [of _ "memory s"]) (simp add: st modpipe_def user_store_def)
  next
    case False
    let ?c = "aget PIPESIZE (pi_data ?x) (pi_nread ?x)" and ?y = "?x\<lparr>pi_nread := pi_nread ?x + 1\<rparr>"
    let ?va = "addr + of_nat i"
    have b: "pipe_bytes ?x = ?c # pipe_bytes ?y" using queue_pop [OF False] by (simp add: pipe_bytes_def)
    then have yok: "pipe_ok ?y" using Suc(7) by (simp add: pipe_ok_def)
    have mp: "mapped (memory s) root ?va 1" "mapped (memory s) root (addr + of_nat (Suc i)) (n - Suc i)"
      using mapped_split [of "memory s" root ?va "Suc 0" "n - Suc i"] Suc(8) Suc_diff_Suc [OF i] by (simp_all add: algebra_simps)
    have wf: "vm_wf (modpipe a (\<lambda>_. ?y) s) fl \<Gamma>" using Suc(3) by (simp add: modpipe_def)
    obtain m1 where m1: "copyout root ?va [?c] (modpipe a (\<lambda>_. ?y) s) = Ret 0 ((modpipe a (\<lambda>_. ?y) s)\<lparr>memory := m1\<rparr>)"
      "user_store (memory s) root ?va [?c] m1"
      using copyout_spec [OF wf Suc(4), of "[?c]" ?va] Suc(5) mp(1) by (auto simp: modpipe_def)
    define t where "t = modpipe a (\<lambda>_. ?y) (s\<lparr>memory := m1\<rparr>)"
    have "\<forall>x. (\<forall>va. xlate (memory s) root va \<noteq> Some x) \<longrightarrow> m1 x = memory s x"
      using m1(2) unfolding user_store_def by blast
    note uw = user_write [where m = m1, OF Suc(3,4,5) this]
    have t: "memory t = m1" "pipes t a = ?y" "getp pr t = getp pr s" "vm_wf t fl \<Gamma>" using uw(1) by (simp_all add: t_def modpipe_def getp_def)
    have step: "piperead_loop a addr (int i) (int n) pr s = piperead_loop a addr (int (Suc i)) (int n) pr t"
    proof -
      have "modpipe a (\<lambda>x. x\<lparr>pi_nread := pi_nread x + 1\<rparr>) s = modpipe a (\<lambda>_. ?y) s" by (simp add: modpipe_def)
      moreover have "getp pr (modpipe a (\<lambda>_. ?y) s) = getp pr s" by (simp add: modpipe_def getp_def)
      ultimately show ?thesis using m1(1) False i Suc(6) by (simp add: st t_def modpipe_memory add.commute)
    qed
    have mp': "mapped m1 root (addr + of_nat (Suc i)) (n - Suc i)" using mp(2) unfolding mapped_def uw(4) .
    obtain m x where x: "piperead_loop a addr (int (Suc i)) (int n) pr t =
        Ret (int (Suc i + min (n - Suc i) (length (pipe_bytes ?y)))) (wakeup (ChanPipeWrite a) (modpipe a (\<lambda>_. x) (t\<lparr>memory := m\<rparr>)))"
      "pipe_ok x" "pipe_bytes x = drop (n - Suc i) (pipe_bytes ?y)"
      "user_store m1 root (addr + of_nat (Suc i)) (take (n - Suc i) (pipe_bytes ?y)) m"
      using Suc(1) [of "Suc i" t, unfolded t(1-3), OF _ t(4) Suc(4) uw(5) Suc(6) yok mp' Suc(9)] Suc(2) i by fastforce
    have tm: "modpipe a (\<lambda>_. x) (t\<lparr>memory := m\<rparr>) = modpipe a (\<lambda>_. x) (s\<lparr>memory := m\<rparr>)"
      by (simp add: t_def modpipe_memory modpipe_twice)
    have n: "n - i = Suc (n - Suc i)" using i by simp
    have l: "int (Suc i + min (n - Suc i) (length (pipe_bytes ?y))) = int (i + min (n - i) (length (pipe_bytes ?x)))"
      unfolding n b by simp
    have us: "user_store (memory s) root ?va (?c # take (n - Suc i) (pipe_bytes ?y)) m"
      using Suc(8) n Suc(9) by (intro user_store_Cons [OF Suc(5) _ _ uw(4) m1(2)]) (use x(4) in \<open>simp_all add: mapped_def algebra_simps\<close>)
    show ?thesis unfolding step x(1) l tm n b by (intro exI conjI, rule refl) (use x(2,3) us in simp_all)
  qed
qed

lemma wakeup_k [simp]: "pipes (wakeup ch s) = pipes s" "memory (wakeup ch s) = memory s" "myproc (wakeup ch s) = myproc s"
  by (subst wakeup_procs, simp add: myproc_def)+

lemma pipewrite_fits:
  assumes "vm_wf s fl \<Gamma>" "\<Gamma> root = Some (root, [])" "myproc s = Some pr" "p_pagetable (getp pr s) = root" "\<not> killed pr s"
    and "pi_readopen (pipes s a)" "pipe_ok (pipes s a)" "mapped (memory s) root addr n"
    and "length (pipe_bytes (pipes s a)) + n \<le> PIPESIZE"
  obtains x where "pipewrite a addr (int n) s = Ret (int n) (wakeup (ChanPipeRead a) (modpipe a (\<lambda>_. x) s))" "pipe_ok x"
    "pipe_bytes x = pipe_bytes (pipes s a) @ user_bytes (memory s) root addr n"
proof -
  obtain x where x: "pipewrite_loop a addr (int 0) (int n) pr s =
      (let t = wakeup (ChanPipeRead a) (modpipe a (\<lambda>_. x) s)
       in if length (pipe_bytes (pipes s a)) + (n - 0) \<le> PIPESIZE then Ret (int n) t else sleep (ChanPipeWrite a) t)"
    "pipe_ok x" "pipe_bytes x = pipe_bytes (pipes s a) @ take (PIPESIZE - length (pipe_bytes (pipes s a))) (drop 0 (user_bytes (memory s) root addr n))"
    using pipewrite_loop_spec [OF assms(1,2,4-8), of 0] by auto
  have "length (user_bytes (memory s) root addr n) \<le> PIPESIZE - length (pipe_bytes (pipes s a))"
    using assms(9) by (simp add: user_bytes_def)
  then have "pipe_bytes x = pipe_bytes (pipes s a) @ user_bytes (memory s) root addr n" using x(3) by (simp only: drop_0 take_all)
  moreover have "pipewrite a addr (int n) s = Ret (int n) (wakeup (ChanPipeRead a) (modpipe a (\<lambda>_. x) s))"
    using assms(3,9) x(1) by (simp add: pipewrite_def with_myproc_def Let_def)
  ultimately show ?thesis using that x(2) by blast
qed

lemma pipewrite_bytes:
  assumes "vm_wf s fl \<Gamma>" "\<Gamma> root = Some (root, [])" "myproc s = Some pr" "p_pagetable (getp pr s) = root" "\<not> killed pr s"
    and "pi_readopen (pipes s a)" "pipe_ok (pipes s a)" "mapped (memory s) root addr n"
  shows "if length (pipe_bytes (pipes s a)) + n \<le> PIPESIZE
    then \<exists>s'. pipewrite a addr (int n) s = Ret (int n) s' \<and> pipe_ok (pipes s' a) \<and>
      pipe_bytes (pipes s' a) = pipe_bytes (pipes s a) @ user_bytes (memory s) root addr n
    else \<exists>s'. pipewrite a addr (int n) s = Sleep (ChanPipeWrite a) s' \<and> pipe_ok (pipes s' a) \<and>
      pipe_bytes (pipes s' a) = take PIPESIZE (pipe_bytes (pipes s a) @ user_bytes (memory s) root addr n)"
proof -
  let ?q = "pipe_bytes (pipes s a)" and ?ub = "user_bytes (memory s) root addr n"
  obtain x where x: "pipewrite_loop a addr (int 0) (int n) pr s =
      (let t = wakeup (ChanPipeRead a) (modpipe a (\<lambda>_. x) s)
       in if length ?q + (n - 0) \<le> PIPESIZE then Ret (int n) t else sleep (ChanPipeWrite a) t)"
    "pipe_ok x" "pipe_bytes x = ?q @ take (PIPESIZE - length ?q) (drop 0 ?ub)"
    using pipewrite_loop_spec [OF assms(1,2,4-8), of 0] by auto
  have q: "length ?q \<le> PIPESIZE" using assms(7) by (simp add: pipe_ok_def)
  have run: "pipewrite a addr (int n) s = pipewrite_loop a addr (int 0) (int n) pr s"
    using assms(3) by (simp add: pipewrite_def with_myproc_def)
  let ?t = "wakeup (ChanPipeRead a) (modpipe a (\<lambda>_. x) s)"
  have t: "pipes ?t a = x" "myproc ?t = Some pr" using assms(3) by (simp_all add: modpipe_def) (simp add: myproc_def)
  show ?thesis
  proof (cases "length ?q + n \<le> PIPESIZE")
    case True
    obtain y where "pipewrite a addr (int n) s = Ret (int n) (wakeup (ChanPipeRead a) (modpipe a (\<lambda>_. y) s))" "pipe_ok y"
      "pipe_bytes y = ?q @ ?ub" using pipewrite_fits [OF assms True] .
    then show ?thesis using True by (simp add: modpipe_def)
  next
    case False
    then have "pipewrite a addr (int n) s = Sleep (ChanPipeWrite a) (modp pr (\<lambda>q. q\<lparr>p_chan := ChanPipeWrite a, p_state := SLEEPING\<rparr>) ?t)"
      using run x(1) t(2) by (simp add: Let_def sleep_def with_myproc_def)
    moreover have "pipes (modp pr (\<lambda>q. q\<lparr>p_chan := ChanPipeWrite a, p_state := SLEEPING\<rparr>) ?t) a = x" using t(1) by (simp add: modp_def)
    ultimately show ?thesis using False x(2,3) q by simp
  qed
qed

lemma piperead_bytes:
  assumes "vm_wf s fl \<Gamma>" "\<Gamma> root = Some (root, [])" "user_pages_ok (memory s) fl \<Gamma> root"
    and "myproc s = Some pr" "p_pagetable (getp pr s) = root"
    and "pipe_ok (pipes s a)" "mapped (memory s) root addr n" "n < 2 ^ 31" "pipe_bytes (pipes s a) \<noteq> []"
  shows "\<exists>s'. piperead a addr (int n) s = Ret (int (min n (length (pipe_bytes (pipes s a))))) s' \<and> pipe_ok (pipes s' a) \<and>
    pipe_bytes (pipes s' a) = drop n (pipe_bytes (pipes s a)) \<and>
    user_store (memory s) root addr (take n (pipe_bytes (pipes s a))) (memory s')"
proof -
  have "pi_nread (pipes s a) \<noteq> pi_nwrite (pipes s a)" using assms(9) by (auto simp: pipe_bytes_def)
  then have "piperead a addr (int n) s = piperead_loop a addr (int 0) (int n) pr s"
    using assms(4) by (simp add: piperead_def with_myproc_def)
  then show ?thesis
    using piperead_loop_spec [OF assms(1,2,3,5,6), of addr 0 n] assms(7,8) by (auto simp: modpipe_def)
qed

text \<open>
  C29: pipes are first-in first-out. Writing appends the caller's bytes, in order, to the bytes in the pipe: all of
  them when they fit, and otherwise as many as fit before the writer sleeps. Reading a pipe that holds bytes
  removes the oldest of them, as many as were asked for and are there, and stores exactly those in the caller's buffer.
\<close>

theorem pipe_fifo:
  assumes "vm_wf s fl \<Gamma>" "\<Gamma> root = Some (root, [])" "user_pages_ok (memory s) fl \<Gamma> root"
    and "myproc s = Some pr" "p_pagetable (getp pr s) = root" "\<not> killed pr s"
    and "pipe_ok (pipes s a)" "mapped (memory s) root addr n" "n < 2 ^ 31"
  shows "(pi_readopen (pipes s a) \<longrightarrow>
      (if length (pipe_bytes (pipes s a)) + n \<le> PIPESIZE
       then \<exists>s'. pipewrite a addr (int n) s = Ret (int n) s' \<and> pipe_ok (pipes s' a) \<and>
         pipe_bytes (pipes s' a) = pipe_bytes (pipes s a) @ user_bytes (memory s) root addr n
       else \<exists>s'. pipewrite a addr (int n) s = Sleep (ChanPipeWrite a) s' \<and> pipe_ok (pipes s' a) \<and>
         pipe_bytes (pipes s' a) = take PIPESIZE (pipe_bytes (pipes s a) @ user_bytes (memory s) root addr n))) \<and>
    (pipe_bytes (pipes s a) \<noteq> [] \<longrightarrow>
      (\<exists>s'. piperead a addr (int n) s = Ret (int (min n (length (pipe_bytes (pipes s a))))) s' \<and> pipe_ok (pipes s' a) \<and>
         pipe_bytes (pipes s' a) = drop n (pipe_bytes (pipes s a)) \<and>
         user_store (memory s) root addr (take n (pipe_bytes (pipes s a))) (memory s')))"
  using pipewrite_bytes [OF assms(1,2,4,5,6) _ assms(7,8)] piperead_bytes [OF assms(1-5,7-9)] by blast

section \<open>A running machine\<close>

definition inode0 :: inode where
  "inode0 = \<lparr>i_dev = 0, i_inum = 0, i_ref = 0, i_lock = \<lparr>sl_locked = False, sl_name = [], sl_pid = 0\<rparr>, i_valid = False,
     i_type = 0, i_major = 0, i_minor = 0, i_nlink = 0, i_size = 0, i_addrs = replicate 13 0\<rparr>"

text \<open>One process with one page of memory runs; the console has received \<open>a\<close>; a pipe holds \<open>x\<close>.\<close>

definition kernel0 :: kernel where
  "kernel0 =
     \<lparr>memory = memory machine1, freelist = 0, kend = 0x80022000,
      procs = proc0\<lparr>p_state := RUNNING, p_pid := 1, p_pagetable := 0x87ffe000, p_sz := 4096\<rparr> # replicate 63 proc0,
      initproc = Some 0, nextpid = 2, curproc = Some 0, ticks = 0,
      bufs = replicate 31 buf0, disk = (\<lambda>_. replicate BSIZE 0), dwrites = [], vq = vdisk0,
      the_log = \<lparr>l_start = 2, l_size = 30, l_outstanding = 0, l_committing = False, l_dev = 1, l_lh = \<lparr>lh_n = 0, lh_block = replicate 30 0\<rparr>\<rparr>,
      sb = \<lparr>sb_magic = FSMAGIC, sb_size = 2000, sb_nblocks = 1954, sb_ninodes = 200, sb_nlog = 30, sb_logstart = 2, sb_inodestart = 32, sb_bmapstart = 45\<rparr>,
      itable = replicate 50 inode0,
      uart = \<lparr>u_ier = 3, u_fcr = 7, u_lcr = 3, u_dll = 3, u_dlm = 0, u_depth = 1, u_room = 1, u_out = [], u_in = []\<rparr>,
      uart_tx_buf = replicate UART_TX_BUF_SIZE 0, uart_tx_w = 0, uart_tx_r = 0, panicked = False,
      cons = \<lparr>c_buf = (replicate INPUT_BUF_SIZE 0)[0 := 97], c_r = 0, c_w = 0, c_e = 1\<rparr>,
      devsw = replicate NDEV \<lparr>dev_read = None, dev_write = None\<rparr>, pr_locking = True,
      ftable = replicate NFILE \<lparr>f_type = FD_NONE, f_ref = 0, f_readable = False, f_writable = False, f_pipe = 0, f_ip = None, f_off = 0, f_major = 0\<rparr>,
      pipes = (\<lambda>_. \<lparr>pi_data = (replicate PIPESIZE 0)[0 := 120], pi_nread = 0, pi_nwrite = 1, pi_readopen = True, pi_writeopen = True\<rparr>),
      syms = \<lparr>sym_trampoline = 0x80007000, sym_uservec = 0x80007000, sym_userret = 0x8000709c, sym_kernelvec = 0x80005a90,
        sym_usertrap = 0x80002a00, sym_forkret = 0x80001a00\<rparr>,
      first = False\<rparr>"

lemma kernel0_basic: "\<not> panicked kernel0" "myproc kernel0 = Some 0" "p_pagetable (getp 0 kernel0) = 0x87ffe000" "\<not> killed 0 kernel0"
  "memory kernel0 = memory machine1"
  by (simp_all add: kernel0_def myproc_def getp_def killed_def proc0_def)

lemma kernel0_wf: "vm_wf kernel0 [] typing1"
proof -
  have k: "kpage kernel0 = kpage machine1" by (rule ext) (simp add: kpage_def kernel0_def machine1_def)
  have "freelist kernel0 = freelist machine1" "kend kernel0 = kend machine1" by (simp_all add: kernel0_def machine1_def)
  then show ?thesis using machine1_wf unfolding vm_wf_def kmem_wf_def k kernel0_basic(5) by simp
qed

lemma kernel0_queues: "tx_ok kernel0" "tx_pending kernel0 = []" "u_out (uart kernel0) = []" "con_ok (cons kernel0)"
  "con_ready (cons kernel0) = []" "con_line (cons kernel0) = [97]" "pipe_ok (pipes kernel0 a)" "pipe_bytes (pipes kernel0 a) = [120]"
  by (simp_all add: kernel0_def tx_ok_def tx_pending_def con_ok_def con_ready_def con_line_def pipe_ok_def pipe_bytes_def queue_def aget_def)

theorem uart_in_order_witness:
  "\<exists>k s'. rfor [104, 105] uartputc kernel0 = (if k = 2 then Ret () s' else Sleep ChanUart s') \<and> k \<le> 2 \<and>
    u_out (uart s') @ tx_pending s' = take k [104, 105]"
proof -
  have "length [104 :: u8, 105] = 2" by simp
  then show ?thesis
    using uart_in_order [OF kernel0_queues(1) kernel0_basic(1,2), of "[104, 105]"]
    unfolding kernel0_queues(2,3) append_Nil by metis
qed

theorem printint_reads_back_witness:
  "length (int_chars (-2147483648) 10 True) \<le> 16 \<and>
    (\<exists>s' cs. printint (-2147483648) 10 True kernel0 = Ret () s' \<and> u_out (uart s') = u_out (uart kernel0) @ cs \<and> read_int 10 cs = -2147483648)"
proof (rule printint_reads_back [OF kernel0_basic(1)])
  show "u_lcr (uart kernel0) AND LCR_BAUD_LATCH = 0" using kernel0_queues(1) by (simp add: tx_ok_def)
qed simp_all

theorem console_edits_witness:
  "\<exists>s'. consoleintr 13 kernel0 = Ret () s' \<and> con_ready (cons s') = [97, 10] \<and> con_line (cons s') = []"
  using console_edits [OF kernel0_basic(1) kernel0_queues(4), of 13] unfolding kernel0_queues(5,6) by (auto simp: edit_def)

theorem pipe_fifo_witness:
  "\<exists>s'. piperead 0x87ffa000 0 (int 4) kernel0 = Ret 1 s' \<and> pipe_bytes (pipes s' 0x87ffa000) = [] \<and>
     user_store (memory machine1) 0x87ffe000 0 [120] (memory s')"
proof -
  have "user_pages_ok (memory kernel0) [] typing1 0x87ffe000" "mapped (memory kernel0) 0x87ffe000 0 4" "(4 :: nat) < 2 ^ 31"
    using machine1_user_ok machine1_mapped [of 4] by (simp_all add: kernel0_basic)
  then show ?thesis
    using pipe_fifo [OF kernel0_wf typing1_root _ kernel0_basic(2-4) kernel0_queues(7), of 0 4]
    unfolding kernel0_queues(8) kernel0_basic(5) by (auto simp: min_def)
qed

end
