(* ===== verification/Procops.thy ===== *)
theory Procops
  imports File
begin

text \<open>
  Creating, growing and ending processes, \<^verbatim>\<open>kernel/proc.c\<close>. A trapframe lies in its page of
  physical memory, at the byte offsets of \<open>struct trapframe\<close>. \<open>exit\<close> does not return: its outcome is
  \<open>Sleep NoChan\<close> with the state that it leaves to the other processes.
\<close>

section \<open>Trapframes\<close>

definition TF_SIZE :: nat where [simp]: "TF_SIZE = 288"

definition tf_kernel_satp :: u64 where [simp]: "tf_kernel_satp = 0"
definition tf_kernel_sp :: u64 where [simp]: "tf_kernel_sp = 8"
definition tf_kernel_trap :: u64 where [simp]: "tf_kernel_trap = 16"
definition tf_epc :: u64 where [simp]: "tf_epc = 24"
definition tf_kernel_hartid :: u64 where [simp]: "tf_kernel_hartid = 32"
definition tf_ra :: u64 where [simp]: "tf_ra = 40"
definition tf_sp :: u64 where [simp]: "tf_sp = 48"
definition tf_gp :: u64 where [simp]: "tf_gp = 56"
definition tf_tp :: u64 where [simp]: "tf_tp = 64"

text \<open>\<open>a0\<close> to \<open>a7\<close>.\<close>

definition tf_a :: "nat \<Rightarrow> u64" where "tf_a n = 112 + 8 * of_nat n"

definition tf_get :: "nat \<Rightarrow> u64 \<Rightarrow> 'a pstate_scheme \<Rightarrow> u64" where
  "tf_get p ofs s = load64 (memory s) (p_trapframe (getp p s) + ofs)"

definition tf_set :: "nat \<Rightarrow> u64 \<Rightarrow> u64 \<Rightarrow> 'a pstate_scheme \<Rightarrow> 'a pstate_scheme" where
  "tf_set p ofs v s = s\<lparr>memory := store64 (memory s) (p_trapframe (getp p s) + ofs) v\<rparr>"

section \<open>Address spaces of processes\<close>

definition proc_pagetable :: "nat \<Rightarrow> 'a kernel_scheme \<Rightarrow> (u64, 'a kernel_scheme) res" where
  "proc_pagetable p s =
     rbind (uvmcreate s) (\<lambda>pagetable s.
       if pagetable = 0 then Ret 0 s
       else rbind (mappages pagetable TRAMPOLINE PGSIZE (sym_trampoline (syms s)) (PTE_R OR PTE_X) s) (\<lambda>r s.
         if r < 0 then rbind (uvmfree pagetable 0 s) (\<lambda>_ s. Ret 0 s)
         else rbind (mappages pagetable TRAPFRAME PGSIZE (p_trapframe (getp p s)) (PTE_R OR PTE_W) s) (\<lambda>r s.
           if r < 0 then
             rbind (uvmunmap pagetable TRAMPOLINE 1 False s) (\<lambda>_ s. rbind (uvmfree pagetable 0 s) (\<lambda>_ s. Ret 0 s))
           else Ret pagetable s)))"

definition proc_freepagetable :: "u64 \<Rightarrow> u64 \<Rightarrow> 'a kernel_scheme \<Rightarrow> (unit, 'a kernel_scheme) res" where
  "proc_freepagetable pagetable sz s =
     rbind (uvmunmap pagetable TRAMPOLINE 1 False s) (\<lambda>_ s.
     rbind (uvmunmap pagetable TRAPFRAME 1 False s) (\<lambda>_ s. uvmfree pagetable sz s))"

section \<open>Allocating and freeing table entries\<close>

definition freeproc :: "nat \<Rightarrow> 'a kernel_scheme \<Rightarrow> (unit, 'a kernel_scheme) res" where
  "freeproc p s =
     rbind (if p_trapframe (getp p s) \<noteq> 0 then kfree (p_trapframe (getp p s)) s else Ret () s) (\<lambda>_ s.
       let s = modp p (\<lambda>q. q\<lparr>p_trapframe := 0\<rparr>) s in
       rbind (if p_pagetable (getp p s) \<noteq> 0 then proc_freepagetable (p_pagetable (getp p s)) (p_sz (getp p s)) s else Ret () s)
         (\<lambda>_ s. Ret () (modp p (\<lambda>q. q\<lparr>p_pagetable := 0, p_sz := 0, p_pid := 0, p_parent := None,
            p_name := (p_name q)[0 := 0], p_chan := NoChan, p_killed := 0, p_xstate := 0, p_state := UNUSED\<rparr>) s)))"

definition allocproc :: "'a kernel_scheme \<Rightarrow> (nat option, 'a kernel_scheme) res" where
  "allocproc s =
     (case find_index (\<lambda>p. p_state p = UNUSED) (procs s) of
        None \<Rightarrow> Ret None s
      | Some p \<Rightarrow>
          rbind (allocpid s) (\<lambda>pid s.
            let s = modp p (\<lambda>q. q\<lparr>p_pid := pid, p_state := USED\<rparr>) s in
            rbind (kalloc s) (\<lambda>tf s.
              let s = modp p (\<lambda>q. q\<lparr>p_trapframe := tf\<rparr>) s in
              if tf = 0 then rbind (freeproc p s) (\<lambda>_ s. Ret None s)
              else rbind (proc_pagetable p s) (\<lambda>pt s.
                let s = modp p (\<lambda>q. q\<lparr>p_pagetable := pt\<rparr>) s in
                if pt = 0 then rbind (freeproc p s) (\<lambda>_ s. Ret None s)
                else Ret (Some p) (modp p (\<lambda>q. q\<lparr>p_context :=
                  \<lparr>ctx_ra = sym_forkret (syms s), ctx_sp = p_kstack q + PGSIZE, ctx_s = replicate 12 0\<rparr>\<rparr>) s)))))"

definition initcode :: "u8 list" where
  "initcode =
    [0x17, 0x05, 0x00, 0x00, 0x13, 0x05, 0x45, 0x02,
     0x97, 0x05, 0x00, 0x00, 0x93, 0x85, 0x35, 0x02,
     0x93, 0x08, 0x70, 0x00, 0x73, 0x00, 0x00, 0x00,
     0x93, 0x08, 0x20, 0x00, 0x73, 0x00, 0x00, 0x00,
     0xef, 0xf0, 0x9f, 0xff, 0x2f, 0x69, 0x6e, 0x69,
     0x74, 0x00, 0x00, 0x24, 0x00, 0x00, 0x00, 0x00,
     0x00, 0x00, 0x00, 0x00]"

definition set_name :: "u8 list \<Rightarrow> proc \<Rightarrow> proc" where
  "set_name nm q = q\<lparr>p_name := blit (p_name q) 0 (safestrcpy (chars nm) 0 16)\<rparr>"

definition userinit :: "'a kernel_scheme \<Rightarrow> (unit, 'a kernel_scheme) res" where
  "userinit s =
     rbind (allocproc s) (\<lambda>po s.
       let s = s\<lparr>initproc := po\<rparr> in
       case po of None \<Rightarrow> Panic ''kerneltrap''
       | Some p \<Rightarrow>
           rbind (uvmfirst (p_pagetable (getp p s)) initcode s) (\<lambda>_ s.
             let s = modp p (\<lambda>q. q\<lparr>p_sz := PGSIZE\<rparr>) s;
                 s = tf_set p tf_epc 0 s; s = tf_set p tf_sp PGSIZE s;
                 s = modp p (set_name (str ''initcode'')) s
             in rbind (namei (str ''/'') s) (\<lambda>cwd s.
               Ret () (modp p (\<lambda>q. q\<lparr>p_cwd := cwd, p_state := RUNNABLE, p_ps_priority := 5, p_accumulator := 0,
                 p_cfs_priority := 1, p_rtime := 0, p_stime := 0, p_retime := 0\<rparr>) s))))"

definition growproc :: "int \<Rightarrow> 'a kernel_scheme \<Rightarrow> (int, 'a kernel_scheme) res" where
  "growproc n s =
     with_myproc s (\<lambda>p.
       let sz = p_sz (getp p s); pt = p_pagetable (getp p s) in
       if n > 0 then
         rbind (uvmalloc pt sz (sz + of_int n) PTE_W s) (\<lambda>sz s.
           if sz = 0 then Ret (-1) s else Ret 0 (modp p (\<lambda>q. q\<lparr>p_sz := sz\<rparr>) s))
       else if n < 0 then
         rbind (uvmdealloc pt sz (sz + of_int n) s) (\<lambda>sz s. Ret 0 (modp p (\<lambda>q. q\<lparr>p_sz := sz\<rparr>) s))
       else Ret 0 (modp p (\<lambda>q. q\<lparr>p_sz := sz\<rparr>) s))"

section \<open>fork\<close>

definition fork_file :: "nat \<Rightarrow> nat \<Rightarrow> nat \<Rightarrow> 'a kernel_scheme \<Rightarrow> (unit, 'a kernel_scheme) res" where
  "fork_file p np i s =
     (case p_ofile (getp p s) ! i of
        None \<Rightarrow> Ret () s
      | Some f \<Rightarrow> rbind (filedup f s) (\<lambda>f s. Ret () (modp np (\<lambda>q. q\<lparr>p_ofile := (p_ofile q)[i := Some f]\<rparr>) s)))"

definition fork :: "'a kernel_scheme \<Rightarrow> (int, 'a kernel_scheme) res" where
  "fork s =
     with_myproc s (\<lambda>p.
     rbind (allocproc s) (\<lambda>npo s.
       case npo of None \<Rightarrow> Ret (-1) s
       | Some np \<Rightarrow>
           rbind (uvmcopy (p_pagetable (getp p s)) (p_pagetable (getp np s)) (p_sz (getp p s)) s) (\<lambda>r s.
             if r < 0 then rbind (freeproc np s) (\<lambda>_ s. Ret (-1) s)
             else
               let s = modp np (\<lambda>q. q\<lparr>p_sz := p_sz (getp p s)\<rparr>) s;
                   s = write_bytes (p_trapframe (getp np s)) (read_bytes (p_trapframe (getp p s)) TF_SIZE s) s;
                   s = tf_set np (tf_a 0) 0 s
               in rbind (rfor [0..<NOFILE] (fork_file p np) s) (\<lambda>_ s.
                  rbind (case p_cwd (getp p s) of None \<Rightarrow> Panic ''kerneltrap'' | Some d \<Rightarrow> idup d s) (\<lambda>cwd s.
                    let s = modp np (\<lambda>q. q\<lparr>p_cwd := Some cwd\<rparr>) s;
                        s = modp np (set_name (p_name (getp p s))) s;
                        pid = p_pid (getp np s);
                        s = modp np (\<lambda>q. q\<lparr>p_parent := Some p\<rparr>) s;
                        s = modp np (\<lambda>q. q\<lparr>p_state := RUNNABLE\<rparr>) s;
                        s = modp np (\<lambda>q. q\<lparr>p_ps_priority := 5\<rparr>) s;
                        s = modp np (\<lambda>q. q\<lparr>p_accumulator := getMinAccumulator s\<rparr>) s;
                        s = modp np (\<lambda>q. q\<lparr>p_cfs_priority := p_cfs_priority (getp p s), p_rtime := 0, p_stime := 0, p_retime := 0\<rparr>) s
                    in Ret pid s)))))"

section \<open>exit and wait\<close>

definition exit_file :: "nat \<Rightarrow> nat \<Rightarrow> 'a kernel_scheme \<Rightarrow> (unit, 'a kernel_scheme) res" where
  "exit_file p fd s =
     (case p_ofile (getp p s) ! fd of
        None \<Rightarrow> Ret () s
      | Some f \<Rightarrow> rbind (fileclose f s) (\<lambda>_ s. Ret () (modp p (\<lambda>q. q\<lparr>p_ofile := (p_ofile q)[fd := None]\<rparr>) s)))"

definition parent_chan :: "nat option \<Rightarrow> chan" where
  "parent_chan pp = (case pp of None \<Rightarrow> NoChan | Some i \<Rightarrow> ChanProc i)"

definition exit :: "int \<Rightarrow> u8 list \<Rightarrow> 'a kernel_scheme \<Rightarrow> ('b, 'a kernel_scheme) res" where
  "exit status msg s =
     with_myproc s (\<lambda>p.
       if Some p = initproc s then Panic ''init exiting''
       else let s = modp p (\<lambda>q. q\<lparr>p_exit_msg := strncpy (chars msg) 0 32\<rparr>) s in
       rbind (rfor [0..<NOFILE] (exit_file p) s) (\<lambda>_ s.
       rbind (begin_op s) (\<lambda>_ s.
       rbind (case p_cwd (getp p s) of None \<Rightarrow> Panic ''kerneltrap'' | Some d \<Rightarrow> iput d s) (\<lambda>_ s.
       rbind (end_op s) (\<lambda>_ s.
         let s = modp p (\<lambda>q. q\<lparr>p_cwd := None\<rparr>) s;
             s = reparent p s;
             s = wakeup (parent_chan (p_parent (getp p s))) s;
             s = modp p (\<lambda>q. q\<lparr>p_xstate := status, p_state := ZOMBIE\<rparr>) s
         in Sleep NoChan s)))))"

definition wait :: "u64 \<Rightarrow> u64 \<Rightarrow> 'a kernel_scheme \<Rightarrow> (int, 'a kernel_scheme) res" where
  "wait addr msg_addr s =
     with_myproc s (\<lambda>p.
       case find_index (\<lambda>q. p_parent q = Some p \<and> p_state q = ZOMBIE) (procs s) of
         Some pp \<Rightarrow>
           let pid = p_pid (getp pp s); pt = p_pagetable (getp p s) in
           rbind (if addr \<noteq> 0 then copyout pt addr (map (le_byte (of_int (p_xstate (getp pp s)) :: u32)) [0..<4]) s else Ret 0 s) (\<lambda>r s.
             if r < 0 then Ret (-1) s
             else rbind (copyout pt msg_addr (take 32 (p_exit_msg (getp pp s))) s) (\<lambda>_ s.
                  rbind (freeproc pp s) (\<lambda>_ s. Ret pid s)))
       | None \<Rightarrow>
           if (\<forall>q\<in>set (procs s). p_parent q \<noteq> Some p) \<or> killed p s then Ret (-1) s
           else sleep (ChanProc p) s)"

end
