(* ===== verification/Exec.thy ===== *)
theory Exec
  imports Procops
begin

text \<open>
  Loading a program, \<^verbatim>\<open>kernel/exec.c\<close>, and fetching system call arguments, \<^verbatim>\<open>kernel/syscall.c\<close>. The
  headers of \<^verbatim>\<open>kernel/elf.h\<close> are read from the bytes of the file. The arguments are strings in
  kernel pages whose addresses are the entries of \<open>argv\<close>.
\<close>

section \<open>System call arguments\<close>

definition fetchaddr :: "u64 \<Rightarrow> 'a kernel_scheme \<Rightarrow> (int \<times> u64, 'a kernel_scheme) res" where
  "fetchaddr addr s =
     with_myproc s (\<lambda>p.
       if addr \<ge> p_sz (getp p s) \<or> addr + 8 > p_sz (getp p s) then Ret (-1, 0) s
       else rbind (copyin (p_pagetable (getp p s)) addr 8 s) (\<lambda>(r, bs) s.
         if r \<noteq> 0 then Ret (-1, 0) s else Ret (0, get_le bs 0 8) s))"

text \<open>
  The return value and the bytes stored at the start of the buffer; on success they end with
  the terminator, and the return value is the length of the string.
\<close>

definition fetchstr :: "u64 \<Rightarrow> nat \<Rightarrow> 'a kernel_scheme \<Rightarrow> (int \<times> u8 list, 'a kernel_scheme) res" where
  "fetchstr addr mx s =
     with_myproc s (\<lambda>p.
       rbind (copyinstr (p_pagetable (getp p s)) addr mx s) (\<lambda>(r, bs) s.
         if r < 0 then Ret (-1, bs) s else Ret (int (length (takeWhile (\<lambda>c. c \<noteq> 0) bs)), bs) s))"

definition argraw :: "nat \<Rightarrow> 'a kernel_scheme \<Rightarrow> (u64, 'a kernel_scheme) res" where
  "argraw n s = with_myproc s (\<lambda>p. if n \<le> 5 then Ret (tf_get p (tf_a n) s) s else Panic ''argraw'')"

definition argint :: "nat \<Rightarrow> 'a kernel_scheme \<Rightarrow> (int, 'a kernel_scheme) res" where
  "argint n s = rbind (argraw n s) (\<lambda>v s. Ret (s32 (uint v)) s)"

definition argaddr :: "nat \<Rightarrow> 'a kernel_scheme \<Rightarrow> (u64, 'a kernel_scheme) res" where
  "argaddr n s = argraw n s"

definition argstr :: "nat \<Rightarrow> nat \<Rightarrow> 'a kernel_scheme \<Rightarrow> (int \<times> u8 list, 'a kernel_scheme) res" where
  "argstr n mx s = rbind (argaddr n s) (\<lambda>addr s. fetchstr addr mx s)"

section \<open>ELF\<close>

definition ELF_MAGIC :: u32 where "ELF_MAGIC = 0x464C457F"
definition ELF_PROG_LOAD :: u32 where "ELF_PROG_LOAD = 1"
definition ELF_SIZE :: nat where [simp]: "ELF_SIZE = 64"
definition PH_SIZE :: nat where [simp]: "PH_SIZE = 56"

record elfhdr =
  e_magic :: u32
  e_entry :: u64
  e_phoff :: u64
  e_phnum :: u16

record proghdr =
  ph_type :: u32
  ph_flags :: u32
  ph_off :: u64
  ph_vaddr :: u64
  ph_filesz :: u64
  ph_memsz :: u64

definition get_elfhdr :: "u8 list \<Rightarrow> elfhdr" where
  "get_elfhdr d = \<lparr>e_magic = get_le d 0 4, e_entry = get_le d 24 8, e_phoff = get_le d 32 8, e_phnum = get_le d 56 2\<rparr>"

definition get_proghdr :: "u8 list \<Rightarrow> proghdr" where
  "get_proghdr d = \<lparr>ph_type = get_le d 0 4, ph_flags = get_le d 4 4, ph_off = get_le d 8 8, ph_vaddr = get_le d 16 8,
     ph_filesz = get_le d 32 8, ph_memsz = get_le d 40 8\<rparr>"

definition flags2perm :: "u32 \<Rightarrow> u64" where
  "flags2perm flags = (if flags AND 1 \<noteq> 0 then PTE_X else 0) OR (if flags AND 2 \<noteq> 0 then PTE_W else 0)"

section \<open>Loading segments\<close>

fun loadseg_loop :: "u64 \<Rightarrow> u64 \<Rightarrow> nat \<Rightarrow> u32 \<Rightarrow> u32 \<Rightarrow> nat list \<Rightarrow> 'a kernel_scheme \<Rightarrow> (int, 'a kernel_scheme) res" where
  "loadseg_loop pagetable va ip offset sz [] s = Ret 0 s"
| "loadseg_loop pagetable va ip offset sz (i # is) s =
     rbind (walkaddr pagetable (va + of_nat i) s) (\<lambda>pa s.
       if pa = 0 then Panic ''loadseg: address should exist''
       else let n = (if unat sz - i < 4096 then of_nat (unat sz - i) else 4096 :: u32) in
         rbind (readi ip (KernDst pa) (offset + of_nat i) n s) (\<lambda>(r, _) s.
           if of_int r \<noteq> n then Ret (-1) s else loadseg_loop pagetable va ip offset sz is s))"

definition loadseg :: "u64 \<Rightarrow> u64 \<Rightarrow> nat \<Rightarrow> u32 \<Rightarrow> u32 \<Rightarrow> 'a kernel_scheme \<Rightarrow> (int, 'a kernel_scheme) res" where
  "loadseg pagetable va ip offset sz s =
     loadseg_loop pagetable va ip offset sz (map ((*) 4096) [0..<(unat sz + 4095) div 4096]) s"

text \<open>The loop over \<open>n\<close> program headers: whether all were loaded, and the size reached.\<close>

fun load_segments :: "nat \<Rightarrow> u32 \<Rightarrow> nat \<Rightarrow> u64 \<Rightarrow> u64 \<Rightarrow> 'a kernel_scheme \<Rightarrow> (bool \<times> u64, 'a kernel_scheme) res" where
  "load_segments 0 off ip pagetable sz s = Ret (True, sz) s"
| "load_segments (Suc n) off ip pagetable sz s =
     rbind (readi ip Local off (of_nat PH_SIZE) s) (\<lambda>(r, d) s.
       let ph = get_proghdr d in
       if r \<noteq> int PH_SIZE then Ret (False, sz) s
       else if ph_type ph \<noteq> ELF_PROG_LOAD then load_segments n (off + of_nat PH_SIZE) ip pagetable sz s
       else if ph_memsz ph < ph_filesz ph then Ret (False, sz) s
       else if ph_vaddr ph + ph_memsz ph < ph_vaddr ph then Ret (False, sz) s
       else if ph_vaddr ph mod PGSIZE \<noteq> 0 then Ret (False, sz) s
       else rbind (uvmalloc pagetable sz (ph_vaddr ph + ph_memsz ph) (flags2perm (ph_flags ph)) s) (\<lambda>sz1 s.
         if sz1 = 0 then Ret (False, sz) s
         else rbind (loadseg pagetable (ph_vaddr ph) ip (ucast (ph_off ph)) (ucast (ph_filesz ph)) s) (\<lambda>r s.
           if r < 0 then Ret (False, sz1) s
           else load_segments n (off + of_nat PH_SIZE) ip pagetable sz1 s)))"

section \<open>The argument stack\<close>

text \<open>The length of a string in kernel memory; running off mapped memory faults.\<close>

definition with_strlen :: "u64 \<Rightarrow> 'a kernel_scheme \<Rightarrow> (nat \<Rightarrow> ('b, 'a kernel_scheme) res) \<Rightarrow> ('b, 'a kernel_scheme) res" where
  "with_strlen a s k = (case strlen (\<lambda>i. memory s (a + of_nat i)) 0 of None \<Rightarrow> Panic ''kerneltrap'' | Some n \<Rightarrow> k n)"

definition align16 :: "u64 \<Rightarrow> u64" where
  "align16 sp = sp - sp mod 16"

text \<open>
  Pushing the strings of \<open>argv\<close> from index \<open>argc\<close> on: the stack pointer and the entries of
  \<open>ustack\<close>, or \<open>None\<close> for the error exit.
\<close>

fun push_args :: "u64 list \<Rightarrow> nat \<Rightarrow> u64 \<Rightarrow> u64 \<Rightarrow> u64 \<Rightarrow> u64 list \<Rightarrow> 'a kernel_scheme \<Rightarrow> ((u64 \<times> u64 list) option, 'a kernel_scheme) res" where
  "push_args [] argc pagetable stackbase sp ustack s = Panic ''ub''"
| "push_args (a # argv) argc pagetable stackbase sp ustack s =
     (if a = 0 then Ret (Some (sp, ustack)) s
      else if argc \<ge> MAXARG then Ret None s
      else with_strlen a s (\<lambda>n.
        let sp = align16 (sp - of_nat (n + 1)) in
        if sp < stackbase then Ret None s
        else rbind (copyout pagetable sp (read_bytes a (n + 1) s) s) (\<lambda>r s.
          if r < 0 then Ret None s
          else push_args argv (Suc argc) pagetable stackbase sp (ustack @ [sp]) s)))"

text \<open>The path after its last slash.\<close>

fun last_elem :: "u8 list \<Rightarrow> u8 list \<Rightarrow> u8 list" where
  "last_elem l [] = l"
| "last_elem l (c # cs) = (if c = 0 then l else last_elem (if c = slash then cs else l) cs)"

section \<open>exec\<close>

definition exec_bad :: "u64 \<Rightarrow> u64 \<Rightarrow> nat option \<Rightarrow> 'a kernel_scheme \<Rightarrow> (int, 'a kernel_scheme) res" where
  "exec_bad pagetable sz ipo s =
     rbind (if pagetable \<noteq> 0 then proc_freepagetable pagetable sz s else Ret () s) (\<lambda>_ s.
     rbind (case ipo of None \<Rightarrow> Ret () s | Some ip \<Rightarrow> rbind (iunlockput ip s) (\<lambda>_ s. end_op s)) (\<lambda>_ s.
       Ret (-1) s))"

text \<open>After the arguments are on the stack: switch to the new image.\<close>

definition exec_commit :: "nat \<Rightarrow> u8 list \<Rightarrow> u64 \<Rightarrow> u64 \<Rightarrow> u64 \<Rightarrow> u64 \<Rightarrow> nat \<Rightarrow> 'a kernel_scheme \<Rightarrow> (int, 'a kernel_scheme) res" where
  "exec_commit p path entry pagetable sz sp argc s =
     (let oldsz = p_sz (getp p s);
          s = tf_set p (tf_a 1) sp s;
          s = modp p (set_name (last_elem path path)) s;
          oldpagetable = p_pagetable (getp p s);
          s = modp p (\<lambda>q. q\<lparr>p_pagetable := pagetable, p_sz := sz\<rparr>) s;
          s = tf_set p tf_epc entry s;
          s = tf_set p tf_sp sp s
      in rbind (proc_freepagetable oldpagetable oldsz s) (\<lambda>_ s. Ret (int argc) s))"

text \<open>The user stack: a guard page, a stack page, the strings, then the pointers to them.\<close>

definition exec_stack :: "nat \<Rightarrow> u8 list \<Rightarrow> u64 list \<Rightarrow> u64 \<Rightarrow> u64 \<Rightarrow> u64 \<Rightarrow> 'a kernel_scheme \<Rightarrow> (int, 'a kernel_scheme) res" where
  "exec_stack p path argv entry pagetable sz s =
     (let sz = PGROUNDUP sz in
      rbind (uvmalloc pagetable sz (sz + 2 * PGSIZE) PTE_W s) (\<lambda>sz1 s.
        if sz1 = 0 then exec_bad pagetable sz None s
        else rbind (uvmclear pagetable (sz1 - 2 * PGSIZE) s) (\<lambda>_ s.
          let stackbase = sz1 - PGSIZE in
          rbind (push_args argv 0 pagetable stackbase sz1 [] s) (\<lambda>r s.
            case r of None \<Rightarrow> exec_bad pagetable sz1 None s
            | Some (sp, ustack) \<Rightarrow>
                let argc = length ustack; sp = align16 (sp - of_nat (8 * (argc + 1))) in
                if sp < stackbase then exec_bad pagetable sz1 None s
                else rbind (copyout pagetable sp (concat (map (\<lambda>w. map (le_byte w) [0..<8]) (ustack @ [0]))) s) (\<lambda>r s.
                  if r < 0 then exec_bad pagetable sz1 None s
                  else exec_commit p path entry pagetable sz1 sp argc s)))))"

definition exec :: "u8 list \<Rightarrow> u64 list \<Rightarrow> 'a kernel_scheme \<Rightarrow> (int, 'a kernel_scheme) res" where
  "exec path argv s =
     with_myproc s (\<lambda>p.
     rbind (begin_op s) (\<lambda>_ s.
     rbind (namei path s) (\<lambda>ipo s.
       case ipo of None \<Rightarrow> rbind (end_op s) (\<lambda>_ s. Ret (-1) s)
       | Some ip \<Rightarrow>
           rbind (ilock (Some ip) s) (\<lambda>_ s.
           rbind (readi ip Local 0 (of_nat ELF_SIZE) s) (\<lambda>(r, d) s.
             let elf = get_elfhdr d in
             if r \<noteq> int ELF_SIZE then exec_bad 0 0 (Some ip) s
             else if e_magic elf \<noteq> ELF_MAGIC then exec_bad 0 0 (Some ip) s
             else rbind (proc_pagetable p s) (\<lambda>pagetable s.
               if pagetable = 0 then exec_bad 0 0 (Some ip) s
               else rbind (load_segments (unat (e_phnum elf)) (ucast (e_phoff elf)) ip pagetable 0 s) (\<lambda>(ok, sz) s.
                 if \<not> ok then exec_bad pagetable sz (Some ip) s
                 else rbind (iunlockput ip s) (\<lambda>_ s.
                   rbind (end_op s) (\<lambda>_ s.
                     exec_stack p path argv (e_entry elf) pagetable sz s)))))))))"

end
