(* ===== verification/Sysfile.thy ===== *)
theory Sysfile
  imports Exec
begin

text \<open>
  The file system calls, \<^verbatim>\<open>kernel/sysfile.c\<close>. Each handler reads its arguments from the trapframe of
  the running process and returns the value for \<open>a0\<close>. The initial contents of \<open>name\<close> are never read
  before \<open>skipelem\<close> has stored a terminated name, so zeros stand for them.
\<close>

definition minus_one :: u64 where [simp]: "minus_one = -1"

section \<open>Descriptors\<close>

definition argfd :: "nat \<Rightarrow> 'a kernel_scheme \<Rightarrow> ((nat \<times> nat) option, 'a kernel_scheme) res" where
  "argfd n s =
     rbind (argint n s) (\<lambda>fd s.
       if fd < 0 \<or> fd \<ge> int NOFILE then Ret None s
       else with_myproc s (\<lambda>p.
         case p_ofile (getp p s) ! nat fd of None \<Rightarrow> Ret None s | Some f \<Rightarrow> Ret (Some (nat fd, f)) s))"

definition fdalloc :: "nat \<Rightarrow> 'a kernel_scheme \<Rightarrow> (int, 'a kernel_scheme) res" where
  "fdalloc f s =
     with_myproc s (\<lambda>p.
       case find_index (\<lambda>x. x = None) (p_ofile (getp p s)) of
         None \<Rightarrow> Ret (-1) s
       | Some fd \<Rightarrow> Ret (int fd) (modp p (\<lambda>q. q\<lparr>p_ofile := (p_ofile q)[fd := Some f]\<rparr>) s))"

definition set_ofile :: "nat \<Rightarrow> nat option \<Rightarrow> 'a kernel_scheme \<Rightarrow> (unit, 'a kernel_scheme) res" where
  "set_ofile fd v s = with_myproc s (\<lambda>p. Ret () (modp p (\<lambda>q. q\<lparr>p_ofile := (p_ofile q)[fd := v]\<rparr>) s))"

definition sys_dup :: "'a kernel_scheme \<Rightarrow> (u64, 'a kernel_scheme) res" where
  "sys_dup s =
     rbind (argfd 0 s) (\<lambda>a s.
       case a of None \<Rightarrow> Ret minus_one s
       | Some (_, f) \<Rightarrow>
           rbind (fdalloc f s) (\<lambda>fd s.
             if fd < 0 then Ret minus_one s
             else rbind (filedup f s) (\<lambda>_ s. Ret (of_int fd) s)))"

definition sys_read :: "'a kernel_scheme \<Rightarrow> (u64, 'a kernel_scheme) res" where
  "sys_read s =
     rbind (argaddr 1 s) (\<lambda>p s. rbind (argint 2 s) (\<lambda>n s. rbind (argfd 0 s) (\<lambda>a s.
       case a of None \<Rightarrow> Ret minus_one s
       | Some (_, f) \<Rightarrow> rbind (fileread f p n s) (\<lambda>r s. Ret (of_int r) s))))"

definition sys_write :: "'a kernel_scheme \<Rightarrow> (u64, 'a kernel_scheme) res" where
  "sys_write s =
     rbind (argaddr 1 s) (\<lambda>p s. rbind (argint 2 s) (\<lambda>n s. rbind (argfd 0 s) (\<lambda>a s.
       case a of None \<Rightarrow> Ret minus_one s
       | Some (_, f) \<Rightarrow> rbind (filewrite f p n s) (\<lambda>r s. Ret (of_int r) s))))"

definition sys_close :: "'a kernel_scheme \<Rightarrow> (u64, 'a kernel_scheme) res" where
  "sys_close s =
     rbind (argfd 0 s) (\<lambda>a s.
       case a of None \<Rightarrow> Ret minus_one s
       | Some (fd, f) \<Rightarrow>
           rbind (set_ofile fd None s) (\<lambda>_ s. rbind (fileclose f s) (\<lambda>_ s. Ret 0 s)))"

definition sys_fstat :: "(nat \<Rightarrow> u8) \<Rightarrow> 'a kernel_scheme \<Rightarrow> (u64, 'a kernel_scheme) res" where
  "sys_fstat junk s =
     rbind (argaddr 1 s) (\<lambda>st s. rbind (argfd 0 s) (\<lambda>a s.
       case a of None \<Rightarrow> Ret minus_one s
       | Some (_, f) \<Rightarrow> rbind (filestat junk f st s) (\<lambda>r s. Ret (of_int r) s)))"

section \<open>Links\<close>

text \<open>Ending a system call inside a transaction.\<close>

definition end_with :: "u64 \<Rightarrow> 'a kernel_scheme \<Rightarrow> (u64, 'a kernel_scheme) res" where
  "end_with r s = rbind (end_op s) (\<lambda>_ s. Ret r s)"

definition put_and_end :: "nat \<Rightarrow> u64 \<Rightarrow> 'a kernel_scheme \<Rightarrow> (u64, 'a kernel_scheme) res" where
  "put_and_end ip r s = rbind (iunlockput ip s) (\<lambda>_ s. end_with r s)"

definition name0 :: "u8 list" where "name0 = replicate DIRSIZ 0"

definition link_bad :: "nat \<Rightarrow> 'a kernel_scheme \<Rightarrow> (u64, 'a kernel_scheme) res" where
  "link_bad ip s =
     rbind (ilock (Some ip) s) (\<lambda>_ s.
     rbind (iupdate ip (modi ip (\<lambda>x. x\<lparr>i_nlink := i_nlink x - 1\<rparr>) s)) (\<lambda>_ s. put_and_end ip minus_one s))"

definition sys_link :: "'a kernel_scheme \<Rightarrow> (u64, 'a kernel_scheme) res" where
  "sys_link s =
     rbind (argstr 0 MAXPATH s) (\<lambda>(r, old) s. if r < 0 then Ret minus_one s else
     rbind (argstr 1 MAXPATH s) (\<lambda>(r, new) s. if r < 0 then Ret minus_one s else
     rbind (begin_op s) (\<lambda>_ s.
     rbind (namei old s) (\<lambda>ipo s.
       case ipo of None \<Rightarrow> end_with minus_one s
       | Some ip \<Rightarrow>
           rbind (ilock (Some ip) s) (\<lambda>_ s.
             if i_type (geti ip s) = T_DIR then put_and_end ip minus_one s
             else rbind (iupdate ip (modi ip (\<lambda>x. x\<lparr>i_nlink := i_nlink x + 1\<rparr>) s)) (\<lambda>_ s.
               rbind (iunlock (Some ip) s) (\<lambda>_ s.
               rbind (nameiparent new name0 s) (\<lambda>(dpo, name) s.
                 case dpo of None \<Rightarrow> link_bad ip s
                 | Some dp \<Rightarrow>
                     rbind (ilock (Some dp) s) (\<lambda>_ s.
                       if i_dev (geti dp s) \<noteq> i_dev (geti ip s)
                       then rbind (iunlockput dp s) (\<lambda>_ s. link_bad ip s)
                       else rbind (dirlink dp name (i_inum (geti ip s)) s) (\<lambda>r s.
                         if r < 0 then rbind (iunlockput dp s) (\<lambda>_ s. link_bad ip s)
                         else rbind (iunlockput dp s) (\<lambda>_ s. rbind (iput ip s) (\<lambda>_ s. end_with 0 s))))))))))))"

fun isdirempty_loop :: "nat \<Rightarrow> nat list \<Rightarrow> 'a kernel_scheme \<Rightarrow> (bool, 'a kernel_scheme) res" where
  "isdirempty_loop dp [] s = Ret True s"
| "isdirempty_loop dp (off # offs) s =
     rbind (readi dp Local (of_nat off) 16 s) (\<lambda>(r, de) s.
       if r \<noteq> 16 then Panic ''isdirempty: readi''
       else if de_inum de \<noteq> 0 then Ret False s else isdirempty_loop dp offs s)"

definition isdirempty :: "nat \<Rightarrow> 'a kernel_scheme \<Rightarrow> (bool, 'a kernel_scheme) res" where
  "isdirempty dp s = isdirempty_loop dp (drop 2 (dir_offsets (i_size (geti dp s)))) s"

definition unlink_found :: "nat \<Rightarrow> nat \<Rightarrow> nat \<Rightarrow> 'a kernel_scheme \<Rightarrow> (u64, 'a kernel_scheme) res" where
  "unlink_found dp ip off s =
     rbind (writei dp (LocalSrc (replicate 16 0)) (of_nat off) 16 s) (\<lambda>r s.
       if r \<noteq> 16 then Panic ''unlink: writei''
       else rbind (if i_type (geti ip s) = T_DIR then iupdate dp (modi dp (\<lambda>x. x\<lparr>i_nlink := i_nlink x - 1\<rparr>) s) else Ret () s) (\<lambda>_ s.
         rbind (iunlockput dp s) (\<lambda>_ s.
         rbind (iupdate ip (modi ip (\<lambda>x. x\<lparr>i_nlink := i_nlink x - 1\<rparr>) s)) (\<lambda>_ s. put_and_end ip 0 s))))"

definition sys_unlink :: "'a kernel_scheme \<Rightarrow> (u64, 'a kernel_scheme) res" where
  "sys_unlink s =
     rbind (argstr 0 MAXPATH s) (\<lambda>(r, path) s. if r < 0 then Ret minus_one s else
     rbind (begin_op s) (\<lambda>_ s.
     rbind (nameiparent path name0 s) (\<lambda>(dpo, name) s.
       case dpo of None \<Rightarrow> end_with minus_one s
       | Some dp \<Rightarrow>
           rbind (ilock (Some dp) s) (\<lambda>_ s.
             if namecmp name (str ''.'') = 0 \<or> namecmp name (str ''..'') = 0 then put_and_end dp minus_one s
             else rbind (dirlookup dp name s) (\<lambda>ro s.
               case ro of None \<Rightarrow> put_and_end dp minus_one s
               | Some (ip, off) \<Rightarrow>
                   rbind (ilock (Some ip) s) (\<lambda>_ s.
                     if sint (i_nlink (geti ip s)) < 1 then Panic ''unlink: nlink < 1''
                     else rbind (if i_type (geti ip s) = T_DIR then isdirempty ip s else Ret True s) (\<lambda>empty s.
                       if \<not> empty then rbind (iunlockput ip s) (\<lambda>_ s. put_and_end dp minus_one s)
                       else unlink_found dp ip off s)))))))"

section \<open>Creating and opening\<close>

definition create_fail :: "nat \<Rightarrow> nat \<Rightarrow> 'a kernel_scheme \<Rightarrow> (nat option, 'a kernel_scheme) res" where
  "create_fail dp ip s =
     rbind (iupdate ip (modi ip (\<lambda>x. x\<lparr>i_nlink := 0\<rparr>) s)) (\<lambda>_ s.
     rbind (iunlockput ip s) (\<lambda>_ s. rbind (iunlockput dp s) (\<lambda>_ s. Ret None s)))"

text \<open>The entries \<open>.\<close> and \<open>..\<close> of a new directory: 0, or -1.\<close>

definition create_dots :: "nat \<Rightarrow> nat \<Rightarrow> 'a kernel_scheme \<Rightarrow> (int, 'a kernel_scheme) res" where
  "create_dots dp ip s =
     rbind (dirlink ip (str ''.'') (i_inum (geti ip s)) s) (\<lambda>r s.
       if r < 0 then Ret (-1) s else dirlink ip (str ''..'') (i_inum (geti dp s)) s)"

definition create :: "u8 list \<Rightarrow> u16 \<Rightarrow> u16 \<Rightarrow> u16 \<Rightarrow> 'a kernel_scheme \<Rightarrow> (nat option, 'a kernel_scheme) res" where
  "create path ty mj mi s =
     rbind (nameiparent path name0 s) (\<lambda>(dpo, name) s.
       case dpo of None \<Rightarrow> Ret None s
       | Some dp \<Rightarrow>
           rbind (ilock (Some dp) s) (\<lambda>_ s.
           rbind (dirlookup dp name s) (\<lambda>ro s.
             case ro of
               Some (ip, _) \<Rightarrow>
                 rbind (iunlockput dp s) (\<lambda>_ s. rbind (ilock (Some ip) s) (\<lambda>_ s.
                   if ty = T_FILE \<and> (i_type (geti ip s) = T_FILE \<or> i_type (geti ip s) = T_DEVICE) then Ret (Some ip) s
                   else rbind (iunlockput ip s) (\<lambda>_ s. Ret None s)))
             | None \<Rightarrow>
                 rbind (ialloc (i_dev (geti dp s)) ty s) (\<lambda>ipo s.
                   case ipo of None \<Rightarrow> rbind (iunlockput dp s) (\<lambda>_ s. Ret None s)
                   | Some ip \<Rightarrow>
                       rbind (ilock (Some ip) s) (\<lambda>_ s.
                       rbind (iupdate ip (modi ip (\<lambda>x. x\<lparr>i_major := mj, i_minor := mi, i_nlink := 1\<rparr>) s)) (\<lambda>_ s.
                       rbind (if ty = T_DIR then create_dots dp ip s else Ret 0 s) (\<lambda>r s.
                         if r < 0 then create_fail dp ip s
                         else rbind (dirlink dp name (i_inum (geti ip s)) s) (\<lambda>r s.
                           if r < 0 then create_fail dp ip s
                           else rbind (if ty = T_DIR then iupdate dp (modi dp (\<lambda>x. x\<lparr>i_nlink := i_nlink x + 1\<rparr>) s) else Ret () s) (\<lambda>_ s.
                             rbind (iunlockput dp s) (\<lambda>_ s. Ret (Some ip) s)))))))))) "

text \<open>The last part of \<open>sys_open\<close>: the inode is locked and the descriptor allocated.\<close>

definition open_finish :: "nat \<Rightarrow> nat \<Rightarrow> int \<Rightarrow> u32 \<Rightarrow> 'a kernel_scheme \<Rightarrow> (u64, 'a kernel_scheme) res" where
  "open_finish ip f fd omode s =
     (let s = (if i_type (geti ip s) = T_DEVICE then modf f (\<lambda>x. x\<lparr>f_type := FD_DEVICE, f_major := i_major (geti ip s)\<rparr>) s
               else modf f (\<lambda>x. x\<lparr>f_type := FD_INODE, f_off := 0\<rparr>) s);
          s = modf f (\<lambda>x. x\<lparr>f_ip := Some ip, f_readable := (omode AND O_WRONLY = 0),
                f_writable := (omode AND O_WRONLY \<noteq> 0 \<or> omode AND O_RDWR \<noteq> 0)\<rparr>) s
      in rbind (if omode AND O_TRUNC \<noteq> 0 \<and> i_type (geti ip s) = T_FILE then itrunc ip s else Ret () s) (\<lambda>_ s.
         rbind (iunlock (Some ip) s) (\<lambda>_ s. end_with (of_int fd) s)))"

definition open_file :: "nat \<Rightarrow> u32 \<Rightarrow> 'a kernel_scheme \<Rightarrow> (u64, 'a kernel_scheme) res" where
  "open_file ip omode s =
     (if i_type (geti ip s) = T_DEVICE \<and> (sint (i_major (geti ip s)) < 0 \<or> sint (i_major (geti ip s)) \<ge> int NDEV)
      then put_and_end ip minus_one s
      else rbind (filealloc s) (\<lambda>fo s.
        case fo of None \<Rightarrow> put_and_end ip minus_one s
        | Some f \<Rightarrow>
            rbind (fdalloc f s) (\<lambda>fd s.
              if fd < 0 then rbind (fileclose f s) (\<lambda>_ s. put_and_end ip minus_one s)
              else open_finish ip f fd omode s)))"

definition sys_open :: "'a kernel_scheme \<Rightarrow> (u64, 'a kernel_scheme) res" where
  "sys_open s =
     rbind (argint 1 s) (\<lambda>om s. let omode = of_int om in
     rbind (argstr 0 MAXPATH s) (\<lambda>(r, path) s. if r < 0 then Ret minus_one s else
     rbind (begin_op s) (\<lambda>_ s.
       if omode AND O_CREATE \<noteq> 0 then
         rbind (create path T_FILE 0 0 s) (\<lambda>ipo s.
           case ipo of None \<Rightarrow> end_with minus_one s | Some ip \<Rightarrow> open_file ip omode s)
       else rbind (namei path s) (\<lambda>ipo s.
         case ipo of None \<Rightarrow> end_with minus_one s
         | Some ip \<Rightarrow>
             rbind (ilock (Some ip) s) (\<lambda>_ s.
               if i_type (geti ip s) = T_DIR \<and> omode \<noteq> O_RDONLY then put_and_end ip minus_one s
               else open_file ip omode s)))))"

definition sys_mkdir :: "'a kernel_scheme \<Rightarrow> (u64, 'a kernel_scheme) res" where
  "sys_mkdir s =
     rbind (begin_op s) (\<lambda>_ s.
     rbind (argstr 0 MAXPATH s) (\<lambda>(r, path) s. if r < 0 then end_with minus_one s else
     rbind (create path T_DIR 0 0 s) (\<lambda>ipo s.
       case ipo of None \<Rightarrow> end_with minus_one s | Some ip \<Rightarrow> put_and_end ip 0 s)))"

definition sys_mknod :: "'a kernel_scheme \<Rightarrow> (u64, 'a kernel_scheme) res" where
  "sys_mknod s =
     rbind (begin_op s) (\<lambda>_ s. rbind (argint 1 s) (\<lambda>mj s. rbind (argint 2 s) (\<lambda>mi s.
     rbind (argstr 0 MAXPATH s) (\<lambda>(r, path) s. if r < 0 then end_with minus_one s else
     rbind (create path T_DEVICE (of_int mj) (of_int mi) s) (\<lambda>ipo s.
       case ipo of None \<Rightarrow> end_with minus_one s | Some ip \<Rightarrow> put_and_end ip 0 s)))))"

definition sys_chdir :: "'a kernel_scheme \<Rightarrow> (u64, 'a kernel_scheme) res" where
  "sys_chdir s =
     with_myproc s (\<lambda>p.
     rbind (begin_op s) (\<lambda>_ s.
     rbind (argstr 0 MAXPATH s) (\<lambda>(r, path) s. if r < 0 then end_with minus_one s else
     rbind (namei path s) (\<lambda>ipo s.
       case ipo of None \<Rightarrow> end_with minus_one s
       | Some ip \<Rightarrow>
           rbind (ilock (Some ip) s) (\<lambda>_ s.
             if i_type (geti ip s) \<noteq> T_DIR then put_and_end ip minus_one s
             else rbind (iunlock (Some ip) s) (\<lambda>_ s.
               rbind (case p_cwd (getp p s) of None \<Rightarrow> Panic ''kerneltrap'' | Some d \<Rightarrow> iput d s) (\<lambda>_ s.
               rbind (end_op s) (\<lambda>_ s. Ret 0 (modp p (\<lambda>q. q\<lparr>p_cwd := Some ip\<rparr>) s)))))))))"

section \<open>exec and pipe\<close>

text \<open>
  Copying the argument strings into pages, with \<open>n\<close> free entries in \<open>argv\<close>: whether the
  terminating null pointer was found, and the pages in use.
\<close>

fun fetch_args :: "nat \<Rightarrow> u64 \<Rightarrow> u64 list \<Rightarrow> 'a kernel_scheme \<Rightarrow> (bool \<times> u64 list, 'a kernel_scheme) res" where
  "fetch_args 0 uargv argv s = Ret (False, argv) s"
| "fetch_args (Suc n) uargv argv s =
     rbind (fetchaddr (uargv + of_nat (8 * length argv)) s) (\<lambda>(r, uarg) s.
       if r < 0 then Ret (False, argv) s
       else if uarg = 0 then Ret (True, argv) s
       else rbind (kalloc s) (\<lambda>m s.
         if m = 0 then Ret (False, argv) s
         else rbind (fetchstr uarg 4096 s) (\<lambda>(r, bs) s.
           let s = write_bytes m bs s in
           if r < 0 then Ret (False, argv @ [m]) s else fetch_args n uargv (argv @ [m]) s)))"

definition free_args :: "u64 list \<Rightarrow> u64 \<Rightarrow> 'a kernel_scheme \<Rightarrow> (u64, 'a kernel_scheme) res" where
  "free_args argv ret s = rbind (rfor argv kfree s) (\<lambda>_ s. Ret ret s)"

definition sys_exec :: "'a kernel_scheme \<Rightarrow> (u64, 'a kernel_scheme) res" where
  "sys_exec s =
     rbind (argaddr 1 s) (\<lambda>uargv s.
     rbind (argstr 0 MAXPATH s) (\<lambda>(r, path) s. if r < 0 then Ret minus_one s else
     rbind (fetch_args MAXARG uargv [] s) (\<lambda>(ok, argv) s.
       if \<not> ok then free_args argv minus_one s
       else rbind (exec path (argv @ replicate (MAXARG - length argv) 0) s) (\<lambda>ret s. free_args argv (of_int ret) s))))"

definition fd_bytes :: "int \<Rightarrow> u8 list" where
  "fd_bytes fd = map (le_byte (of_int fd :: u32)) [0..<4]"

definition sys_pipe :: "'a kernel_scheme \<Rightarrow> (u64, 'a kernel_scheme) res" where
  "sys_pipe s =
     with_myproc s (\<lambda>p.
     rbind (argaddr 0 s) (\<lambda>fdarray s.
     rbind (pipealloc s) (\<lambda>fo s.
       case fo of None \<Rightarrow> Ret minus_one s
       | Some (rfile, wfile) \<Rightarrow>
           rbind (fdalloc rfile s) (\<lambda>fd0 s.
             if fd0 < 0 then rbind (fileclose rfile s) (\<lambda>_ s. rbind (fileclose wfile s) (\<lambda>_ s. Ret minus_one s))
             else rbind (fdalloc wfile s) (\<lambda>fd1 s.
               if fd1 < 0 then
                 rbind (set_ofile (nat fd0) None s) (\<lambda>_ s.
                 rbind (fileclose rfile s) (\<lambda>_ s. rbind (fileclose wfile s) (\<lambda>_ s. Ret minus_one s)))
               else
                 rbind (copyout (p_pagetable (getp p s)) fdarray (fd_bytes fd0) s) (\<lambda>r s.
                 rbind (if r < 0 then Ret r s else copyout (p_pagetable (getp p s)) (fdarray + 4) (fd_bytes fd1) s) (\<lambda>r s.
                   if r < 0 then
                     rbind (set_ofile (nat fd0) None s) (\<lambda>_ s. rbind (set_ofile (nat fd1) None s) (\<lambda>_ s.
                     rbind (fileclose rfile s) (\<lambda>_ s. rbind (fileclose wfile s) (\<lambda>_ s. Ret minus_one s))))
                   else Ret 0 s)))))))"

end
