(* ===== verification/Syscall.thy ===== *)
theory Syscall
  imports Sysfile
begin

text \<open>
  The process system calls, \<^verbatim>\<open>kernel/sysproc.c\<close>, and the dispatcher, \<^verbatim>\<open>kernel/syscall.c\<close>. \<open>junk\<close> stands
  for the uninitialised bytes of the handlers' local variables.
\<close>

section \<open>Process system calls\<close>

text \<open>The result of \<open>argstr\<close> is ignored: what it did not store in \<open>msg\<close> is uninitialised.\<close>

definition sys_exit :: "(nat \<Rightarrow> u8) \<Rightarrow> 'a kernel_scheme \<Rightarrow> (u64, 'a kernel_scheme) res" where
  "sys_exit junk s =
     rbind (argint 0 s) (\<lambda>n s. rbind (argstr 1 32 s) (\<lambda>(_, bs) s.
       rbind (exit n (bs @ map junk [length bs..<32]) s) (\<lambda>(_ :: unit) s. Ret 0 s)))"

definition sys_getpid :: "'a kernel_scheme \<Rightarrow> (u64, 'a kernel_scheme) res" where
  "sys_getpid s = with_myproc s (\<lambda>p. Ret (of_int (p_pid (getp p s))) s)"

definition sys_fork :: "'a kernel_scheme \<Rightarrow> (u64, 'a kernel_scheme) res" where
  "sys_fork s = rbind (fork s) (\<lambda>r s. Ret (of_int r) s)"

definition sys_wait :: "'a kernel_scheme \<Rightarrow> (u64, 'a kernel_scheme) res" where
  "sys_wait s =
     rbind (argaddr 0 s) (\<lambda>p s. rbind (argaddr 1 s) (\<lambda>msg s. rbind (wait p msg s) (\<lambda>r s. Ret (of_int r) s)))"

definition sys_sbrk :: "'a kernel_scheme \<Rightarrow> (u64, 'a kernel_scheme) res" where
  "sys_sbrk s =
     rbind (argint 0 s) (\<lambda>n s. with_myproc s (\<lambda>p.
       let addr = p_sz (getp p s) in
       rbind (growproc n s) (\<lambda>r s. if r < 0 then Ret minus_one s else Ret addr s)))"

text \<open>
  The loop of \<open>sys_sleep\<close>, entered again after each wakeup; \<open>n\<close> is converted to unsigned for the
  comparison.
\<close>

definition sleep_until :: "u32 \<Rightarrow> int \<Rightarrow> 'a kernel_scheme \<Rightarrow> (u64, 'a kernel_scheme) res" where
  "sleep_until ticks0 n s =
     (if ticks s - ticks0 < of_int n then
        with_myproc s (\<lambda>p. if killed p s then Ret minus_one s else sleep ChanTicks s)
      else Ret 0 s)"

definition sys_sleep :: "'a kernel_scheme \<Rightarrow> (u64, 'a kernel_scheme) res" where
  "sys_sleep s = rbind (argint 0 s) (\<lambda>n s. sleep_until (ticks s) n s)"

definition sys_kill :: "'a kernel_scheme \<Rightarrow> (u64, 'a kernel_scheme) res" where
  "sys_kill s = rbind (argint 0 s) (\<lambda>pid s. rbind (kill pid s) (\<lambda>r s. Ret (of_int r) s))"

definition sys_uptime :: "'a kernel_scheme \<Rightarrow> (u64, 'a kernel_scheme) res" where
  "sys_uptime s = Ret (ucast (ticks s)) s"

definition sys_memsize :: "'a kernel_scheme \<Rightarrow> (u64, 'a kernel_scheme) res" where
  "sys_memsize s = with_myproc s (\<lambda>p. Ret (p_sz (getp p s)) s)"

definition sys_set_ps_priority :: "'a kernel_scheme \<Rightarrow> (u64, 'a kernel_scheme) res" where
  "sys_set_ps_priority s = rbind (argint 0 s) (\<lambda>n s. rbind (set_ps_priority n s) (\<lambda>_ s. Ret 0 s))"

definition sys_set_cfs_priority :: "'a kernel_scheme \<Rightarrow> (u64, 'a kernel_scheme) res" where
  "sys_set_cfs_priority s = rbind (argint 0 s) (\<lambda>n s. rbind (set_cfs_priority n s) (\<lambda>r s. Ret (of_int r) s))"

text \<open>The statistics, each cut to a byte, go to the address space of the process asked about.\<close>

definition sys_get_cfs_stats :: "'a kernel_scheme \<Rightarrow> (u64, 'a kernel_scheme) res" where
  "sys_get_cfs_stats s =
     rbind (argint 0 s) (\<lambda>pid s. rbind (argaddr 1 s) (\<lambda>addr s.
       case getProc pid s of None \<Rightarrow> Ret minus_one s
       | Some p \<Rightarrow>
           let q = getp p s; ans = [of_int (p_cfs_priority q), of_int (p_rtime q), of_int (p_stime q), of_int (p_retime q)] in
           rbind (copyout (p_pagetable q) addr ans s) (\<lambda>_ s. Ret 0 s)))"

section \<open>The dispatcher\<close>

definition syscalls :: "(nat \<Rightarrow> u8) \<Rightarrow> ('a kernel_scheme \<Rightarrow> (u64, 'a kernel_scheme) res) option list" where
  "syscalls junk =
     [None, Some sys_fork, Some (sys_exit junk), Some sys_wait, Some sys_pipe, Some sys_read, Some sys_kill, Some sys_exec,
      Some (sys_fstat junk), Some sys_chdir, Some sys_dup, Some sys_getpid, Some sys_sbrk, Some sys_sleep, Some sys_uptime,
      Some sys_open, Some sys_write, Some sys_mknod, Some sys_unlink, Some sys_link, Some sys_mkdir, Some sys_close,
      Some sys_memsize, Some sys_set_ps_priority, Some sys_set_cfs_priority, Some sys_get_cfs_stats]"

definition syscall :: "(nat \<Rightarrow> u8) \<Rightarrow> 'a kernel_scheme \<Rightarrow> (unit, 'a kernel_scheme) res" where
  "syscall junk s =
     with_myproc s (\<lambda>p.
       let num = s32 (uint (tf_get p (tf_a 7) s)) in
       case (if num > 0 \<and> num < int (length (syscalls junk :: ('a kernel_scheme \<Rightarrow> (u64, 'a kernel_scheme) res) option list))
             then syscalls junk ! nat num else None) of
         Some f \<Rightarrow> rbind (f s) (\<lambda>r s. Ret () (tf_set p (tf_a 0) r s))
       | None \<Rightarrow>
           rbind (printf (Some (str ''%d %s: unknown sys call %d'' @ [10]))
               [AInt (p_pid (getp p s)), AStr (Some (p_name (getp p s))), AInt num] s) (\<lambda>_ s.
             Ret () (tf_set p (tf_a 0) (-1) s)))"

end
