(* ===== verification/Trap.thy ===== *)
theory Trap
  imports Syscall
begin

text \<open>
  Traps, \<^verbatim>\<open>kernel/trap.c\<close>, the interrupt controller, \<^verbatim>\<open>kernel/plic.c\<close>, the first return of a child,
  \<open>forkret\<close>, and start-up, \<^verbatim>\<open>kernel/main.c\<close>. The state gains the supervisor registers of the hart and
  the controller. \<open>others\<close> stands for what the rest of the system does between a \<open>yield\<close> and the
  return to the process; \<^verbatim>\<open>Sched.thy\<close> treats the switch itself.
\<close>

section \<open>State\<close>

record csrs =
  h_scause :: u64
  h_sepc :: u64
  h_sstatus :: u64
  h_stval :: u64
  h_stvec :: u64
  h_sip :: u64
  h_satp :: u64
  h_tp :: u64

text \<open>Pending interrupts in the order the controller hands them out, and those completed.\<close>

record plic =
  pl_priority :: "nat \<Rightarrow> u32"
  pl_senable :: "nat \<Rightarrow> u32"
  pl_spriority :: "nat \<Rightarrow> u32"
  pl_pending :: "nat list"
  pl_complete :: "nat list"

record hstate = kernel +
  csr :: csrs
  plic :: plic
  kernel_pagetable :: u64
  started :: bool

definition modcsr :: "(csrs \<Rightarrow> csrs) \<Rightarrow> 'a hstate_scheme \<Rightarrow> 'a hstate_scheme" where
  "modcsr f s = s\<lparr>csr := f (csr s)\<rparr>"

definition modplic :: "(plic \<Rightarrow> plic) \<Rightarrow> 'a hstate_scheme \<Rightarrow> 'a hstate_scheme" where
  "modplic f s = s\<lparr>plic := f (plic s)\<rparr>"

definition SSTATUS_SPP :: u64 where [simp]: "SSTATUS_SPP = 0x100"
definition SSTATUS_SPIE :: u64 where [simp]: "SSTATUS_SPIE = 0x20"
definition SSTATUS_SIE :: u64 where [simp]: "SSTATUS_SIE = 2"
definition UART0_IRQ :: nat where [simp]: "UART0_IRQ = 10"
definition VIRTIO0_IRQ :: nat where [simp]: "VIRTIO0_IRQ = 1"

definition cpuid :: "'a hstate_scheme \<Rightarrow> nat" where
  "cpuid s = unat (h_tp (csr s))"

section \<open>Interrupt controller\<close>

definition plicinit :: "'a hstate_scheme \<Rightarrow> 'a hstate_scheme" where
  "plicinit s = modplic (\<lambda>x. x\<lparr>pl_priority := (pl_priority x)(UART0_IRQ := 1, VIRTIO0_IRQ := 1)\<rparr>) s"

definition plicinithart :: "'a hstate_scheme \<Rightarrow> 'a hstate_scheme" where
  "plicinithart s =
     (let hart = cpuid s;
          s = modplic (\<lambda>x. x\<lparr>pl_senable := (pl_senable x)(hart := push_bit UART0_IRQ 1 OR push_bit VIRTIO0_IRQ 1)\<rparr>) s
      in modplic (\<lambda>x. x\<lparr>pl_spriority := (pl_spriority x)(hart := 0)\<rparr>) s)"

text \<open>Reading the claim register gives the next pending interrupt, 0 when there is none.\<close>

definition plic_claim :: "'a hstate_scheme \<Rightarrow> nat \<times> 'a hstate_scheme" where
  "plic_claim s =
     (case pl_pending (plic s) of [] \<Rightarrow> (0, s) | irq # irqs \<Rightarrow> (irq, modplic (\<lambda>x. x\<lparr>pl_pending := irqs\<rparr>) s))"

definition plic_complete :: "nat \<Rightarrow> 'a hstate_scheme \<Rightarrow> 'a hstate_scheme" where
  "plic_complete irq s = modplic (\<lambda>x. x\<lparr>pl_complete := pl_complete x @ [irq]\<rparr>) s"

section \<open>Device interrupts\<close>

definition clockintr :: "'a hstate_scheme \<Rightarrow> 'a hstate_scheme" where
  "clockintr s = wakeup ChanTicks (s\<lparr>ticks := ticks s + 1\<rparr>)"

definition devintr :: "'a hstate_scheme \<Rightarrow> (int, 'a hstate_scheme) res" where
  "devintr s =
     (let scause = h_scause (csr s) in
      if scause AND 0x8000000000000000 \<noteq> 0 \<and> scause AND 0xff = 9 then
        let (irq, s) = plic_claim s in
        rbind
          (if irq = UART0_IRQ then uartintr s
           else if irq = VIRTIO0_IRQ then virtio_disk_intr s
           else if irq \<noteq> 0 then printf (Some (str ''unexpected interrupt irq=%d'' @ [10])) [AInt (int irq)] s
           else Ret () s)
          (\<lambda>_ s. Ret 1 (if irq \<noteq> 0 then plic_complete irq s else s))
      else if scause = 0x8000000000000001 then
        let s = (if cpuid s = 0 then update_ticks (clockintr s) else s)
        in Ret 2 (modcsr (\<lambda>c. c\<lparr>h_sip := h_sip c AND NOT 2\<rparr>) s)
      else Ret 0 s)"

section \<open>Returning to user space\<close>

text \<open>
  The address jumped to and the page table passed to it. The jump to \<open>userret\<close> does not come
  back: the statement after it is dead.
\<close>

definition usertrapret :: "'a hstate_scheme \<Rightarrow> (u64 \<times> u64, 'a hstate_scheme) res" where
  "usertrapret s =
     with_myproc s (\<lambda>p.
       let s = modcsr (\<lambda>c. c\<lparr>h_sstatus := h_sstatus c AND NOT SSTATUS_SIE\<rparr>) s;
           s = modcsr (\<lambda>c. c\<lparr>h_stvec := TRAMPOLINE + (sym_uservec (syms s) - sym_trampoline (syms s))\<rparr>) s;
           s = tf_set p tf_kernel_satp (h_satp (csr s)) s;
           s = tf_set p tf_kernel_sp (p_kstack (getp p s) + PGSIZE) s;
           s = tf_set p tf_kernel_trap (sym_usertrap (syms s)) s;
           s = tf_set p tf_kernel_hartid (h_tp (csr s)) s;
           s = modcsr (\<lambda>c. c\<lparr>h_sstatus := (h_sstatus c AND NOT SSTATUS_SPP) OR SSTATUS_SPIE\<rparr>) s;
           s = modcsr (\<lambda>c. c\<lparr>h_sepc := tf_get p tf_epc s\<rparr>) s
       in Ret (TRAMPOLINE + (sym_userret (syms s) - sym_trampoline (syms s)), MAKE_SATP (p_pagetable (getp p s))) s)"

definition forkret :: "'a hstate_scheme \<Rightarrow> (u64 \<times> u64, 'a hstate_scheme) res" where
  "forkret s =
     rbind (if first s then fsinit ROOTDEV (s\<lparr>first := False\<rparr>) else Ret () s) (\<lambda>_ s. usertrapret s)"

section \<open>Traps\<close>

definition charge :: "nat \<Rightarrow> 'a hstate_scheme \<Rightarrow> 'a hstate_scheme" where
  "charge p s = modp p (\<lambda>q. q\<lparr>p_accumulator := p_accumulator q + p_ps_priority q\<rparr>) s"

definition yield_to :: "('a hstate_scheme \<Rightarrow> 'a hstate_scheme) \<Rightarrow> nat \<Rightarrow> 'a hstate_scheme \<Rightarrow> 'a hstate_scheme" where
  "yield_to others p s = others (modp p (\<lambda>q. q\<lparr>p_state := RUNNABLE\<rparr>) s)"

definition exit_if_killed :: "nat \<Rightarrow> 'a hstate_scheme \<Rightarrow> (unit, 'a hstate_scheme) res" where
  "exit_if_killed p s = (if killed p s then exit (-1) [0] s else Ret () s)"

definition usertrap_syscall :: "(nat \<Rightarrow> u8) \<Rightarrow> nat \<Rightarrow> 'a hstate_scheme \<Rightarrow> (int, 'a hstate_scheme) res" where
  "usertrap_syscall junk p s =
     rbind (exit_if_killed p s) (\<lambda>_ s.
       let s = tf_set p tf_epc (tf_get p tf_epc s + 4) s;
           s = modcsr (\<lambda>c. c\<lparr>h_sstatus := h_sstatus c OR SSTATUS_SIE\<rparr>) s
       in rbind (syscall junk s) (\<lambda>_ s. Ret 0 s))"

definition usertrap :: "(nat \<Rightarrow> u8) \<Rightarrow> ('a hstate_scheme \<Rightarrow> 'a hstate_scheme) \<Rightarrow> 'a hstate_scheme \<Rightarrow> (u64 \<times> u64, 'a hstate_scheme) res" where
  "usertrap junk others s =
     (if h_sstatus (csr s) AND SSTATUS_SPP \<noteq> 0 then Panic ''usertrap: not from user mode''
      else let s = modcsr (\<lambda>c. c\<lparr>h_stvec := sym_kernelvec (syms s)\<rparr>) s in
      with_myproc s (\<lambda>p.
        let s = tf_set p tf_epc (h_sepc (csr s)) s in
        rbind
          (if h_scause (csr s) = 8 then usertrap_syscall junk p s
           else rbind (devintr s) (\<lambda>which_dev s.
             if which_dev \<noteq> 0 then Ret which_dev s
             else rbind (printf (Some (str ''usertrap(): unexpected scause %p pid=%d'' @ [10]))
                      [APtr (h_scause (csr s)), AInt (p_pid (getp p s))] s) (\<lambda>_ s.
                  rbind (printf (Some (str ''            sepc=%p stval=%p'' @ [10]))
                      [APtr (h_sepc (csr s)), APtr (h_stval (csr s))] s) (\<lambda>_ s. Ret 0 (setkilled p s)))))
          (\<lambda>which_dev s.
             rbind (exit_if_killed p s) (\<lambda>_ s.
               usertrapret (if which_dev = 2 then yield_to others p (charge p s) else s)))))"

definition kerneltrap :: "('a hstate_scheme \<Rightarrow> 'a hstate_scheme) \<Rightarrow> 'a hstate_scheme \<Rightarrow> (unit, 'a hstate_scheme) res" where
  "kerneltrap others s =
     (let sepc = h_sepc (csr s); sstatus = h_sstatus (csr s) in
      if sstatus AND SSTATUS_SPP = 0 then Panic ''kerneltrap: not from supervisor mode''
      else if h_sstatus (csr s) AND SSTATUS_SIE \<noteq> 0 then Panic ''kerneltrap: interrupts enabled''
      else rbind (devintr s) (\<lambda>which_dev s.
        if which_dev = 0 then Panic ''kerneltrap''
        else
          let s = (case myproc s of
                     Some p \<Rightarrow> if which_dev = 2 \<and> p_state (getp p s) = RUNNING then yield_to others p (charge p s) else s
                   | None \<Rightarrow> s)
          in Ret () (modcsr (\<lambda>c. c\<lparr>h_sepc := sepc, h_sstatus := sstatus\<rparr>) s)))"

section \<open>Start-up\<close>

definition trapinithart :: "'a hstate_scheme \<Rightarrow> 'a hstate_scheme" where
  "trapinithart s = modcsr (\<lambda>c. c\<lparr>h_stvec := sym_kernelvec (syms s)\<rparr>) s"

definition kvminit :: "u64 \<Rightarrow> 'a hstate_scheme \<Rightarrow> (unit, 'a hstate_scheme) res" where
  "kvminit etext s =
     rbind (kvmmake etext (sym_trampoline (syms s)) s) (\<lambda>pt s. Ret () (s\<lparr>kernel_pagetable := pt\<rparr>))"

definition kvminithart :: "'a hstate_scheme \<Rightarrow> 'a hstate_scheme" where
  "kvminithart s = modcsr (\<lambda>c. c\<lparr>h_satp := MAKE_SATP (kernel_pagetable s)\<rparr>) s"

text \<open>\<open>main\<close> up to the call of \<open>scheduler\<close>.\<close>

definition main_boot :: "u64 \<Rightarrow> 'a hstate_scheme \<Rightarrow> (unit, 'a hstate_scheme) res" where
  "main_boot etext s =
     (if cpuid s = 0 then
        let s = printfinit (consoleinit s) in
        rbind (printf (Some [10]) [] s) (\<lambda>_ s.
        rbind (printf (Some (str ''xv6 kernel is booting'' @ [10])) [] s) (\<lambda>_ s.
        rbind (printf (Some [10]) [] s) (\<lambda>_ s.
        rbind (kinit s) (\<lambda>_ s.
        rbind (kvminit etext s) (\<lambda>_ s.
          let s = kvminithart s; s = procinit s; s = trapinithart s; s = plicinithart (plicinit s);
              s = iinit (binit s)
          in rbind (virtio_disk_init s) (\<lambda>_ s.
             rbind (userinit s) (\<lambda>_ s. Ret () (s\<lparr>started := True\<rparr>))))))))
      else if \<not> started s then Sleep NoChan s
      else rbind (printf (Some (str ''hart %d starting'' @ [10])) [AInt (int (cpuid s))] s) (\<lambda>_ s.
        Ret () (plicinithart (trapinithart (kvminithart s)))))"

end
