(* ===== verification/User_Io.thy ===== *)
theory User_Io
  imports Hw
begin

text \<open>
  User programs that copy and print, \<^verbatim>\<open>user/cat.c\<close>, \<^verbatim>\<open>user/wc.c\<close>, \<^verbatim>\<open>user/echo.c\<close>, and the printing functions of
  \<^verbatim>\<open>user/printf.c\<close>. The world of a program is what it sees of the system: the files it can open, what is left to
  read on each descriptor, and the writes made so far. How many bytes each \<open>read\<close> delivers, and which reads and
  writes fail, is decided by the schedules \<open>w_reads\<close> and \<open>w_writes\<close>, over which every statement quantifies; when
  they run out, calls do all that was asked. Reading an argument that \<open>printf\<close> was not given is undefined: \<open>Crashed\<close>.
\<close>

section \<open>System calls as a program sees them\<close>

record world =
  w_files :: "u8 list \<rightharpoonup> u8 list"
  w_fds :: "u8 list option list"
  w_reads :: "nat option list"
  w_writes :: "bool list"
  w_out :: "(nat \<times> u8 list) list"

datatype 'a run = Go 'a world | Exited int world | Crashed

fun ubind :: "'a run \<Rightarrow> ('a \<Rightarrow> world \<Rightarrow> 'b run) \<Rightarrow> 'b run" where
  "ubind (Go x w) f = f x w"
| "ubind (Exited n w) f = Exited n w"
| "ubind Crashed f = Crashed"

lemma ubind_cong [fundef_cong]: "r = r' \<Longrightarrow> (\<And>x w. r' = Go x w \<Longrightarrow> f x w = g x w) \<Longrightarrow> ubind r f = ubind r' g"
  by (cases r') auto

definition input :: "nat \<Rightarrow> world \<Rightarrow> u8 list" where
  "input fd w = (if fd < length (w_fds w) then case w_fds w ! fd of None \<Rightarrow> [] | Some bs \<Rightarrow> bs else [])"

definition hand_over :: "nat \<Rightarrow> nat \<Rightarrow> world \<Rightarrow> int \<times> u8 list \<times> world" where
  "hand_over fd k w =
     (let bs = take k (input fd w)
      in (int (length bs), bs, w\<lparr>w_fds := (w_fds w)[fd := Some (drop k (input fd w))]\<rparr>))"

definition read_fd :: "nat \<Rightarrow> nat \<Rightarrow> world \<Rightarrow> int \<times> u8 list \<times> world" where
  "read_fd fd n w =
     (case w_reads w of
        [] \<Rightarrow> hand_over fd n w
      | None # rs \<Rightarrow> (-1, [], w\<lparr>w_reads := rs\<rparr>)
      | Some k # rs \<Rightarrow> hand_over fd (min n (Suc k)) (w\<lparr>w_reads := rs\<rparr>))"

definition write_fd :: "nat \<Rightarrow> u8 list \<Rightarrow> world \<Rightarrow> int \<times> world" where
  "write_fd fd bs w =
     (case w_writes w of
        False # ws \<Rightarrow> (-1, w\<lparr>w_writes := ws\<rparr>)
      | ws \<Rightarrow> (int (length bs), w\<lparr>w_writes := tl ws, w_out := w_out w @ [(fd, bs)]\<rparr>))"

definition open_path :: "u8 list \<Rightarrow> world \<Rightarrow> int \<times> world" where
  "open_path path w =
     (case (w_files w path, find_index (\<lambda>x. x = None) (w_fds w)) of
        (Some bs, Some fd) \<Rightarrow> (int fd, w\<lparr>w_fds := (w_fds w)[fd := Some bs]\<rparr>)
      | _ \<Rightarrow> (-1, w))"

definition close_file :: "nat \<Rightarrow> world \<Rightarrow> world" where
  "close_file fd w = w\<lparr>w_fds := (w_fds w)[fd := None]\<rparr>"

text \<open>The bytes that reached a descriptor.\<close>

definition sent :: "nat \<Rightarrow> world \<Rightarrow> u8 list" where
  "sent fd w = concat (map snd (filter (\<lambda>x. fst x = fd) (w_out w)))"

lemma read_spec:
  assumes "read_fd fd n w = (r, bs, w')"
  shows "r = -1 \<and> bs = [] \<and> input fd w' = input fd w \<or> r = int (length bs) \<and> length bs \<le> n \<and> input fd w = bs @ input fd w'"
    "w_out w' = w_out w" "w_writes w' = w_writes w" "length (w_fds w') = length (w_fds w)"
    "r = -1 \<Longrightarrow> None \<in> set (w_reads w)" "set (w_reads w') \<subseteq> set (w_reads w)"
    "0 < n \<Longrightarrow> None \<notin> set (w_reads w) \<Longrightarrow> input fd w \<noteq> [] \<Longrightarrow> bs \<noteq> []"
  using assms by (auto simp: read_fd_def hand_over_def input_def Let_def split: list.splits option.splits if_splits)

lemma read_shrinks: "read_fd fd n w = (r, bs, w') \<Longrightarrow> 0 < r \<Longrightarrow> length (input fd w') < length (input fd w)"
  using read_spec(1) [of fd n w r bs w'] by auto

lemma write_simps [simp]:
  "input fd (snd (write_fd fd' bs w)) = input fd w" "w_reads (snd (write_fd fd' bs w)) = w_reads w"
  "length (w_fds (snd (write_fd fd' bs w))) = length (w_fds w)"
  by (auto simp: write_fd_def input_def split: list.splits bool.splits)

lemma write_ok: "w_writes w = [] \<Longrightarrow> write_fd fd bs w = (int (length bs), w\<lparr>w_out := w_out w @ [(fd, bs)]\<rparr>)"
  by (simp add: write_fd_def)

section \<open>Printing\<close>

definition user_digits :: "u8 list" where
  "user_digits = str ''0123456789ABCDEF''"

definition putc :: "nat \<Rightarrow> u8 \<Rightarrow> world \<Rightarrow> world" where
  "putc fd c w = snd (write_fd fd [c] w)"

definition put_all :: "nat \<Rightarrow> u8 list \<Rightarrow> world \<Rightarrow> world" where
  "put_all fd cs w = fold (putc fd) cs w"

function user_number :: "nat \<Rightarrow> nat \<Rightarrow> u8 list" where
  "user_number x base =
     user_digits ! (x mod base) # (if base < 2 \<or> x div base = 0 then [] else user_number (x div base) base)"
  by pat_completeness auto
termination
  by (relation "measure fst") (auto simp: div_less_dividend div_greater_zero_iff)

declare user_number.simps [simp del]

text \<open>The characters of a number, last one first, as \<open>printint\<close> collects them in \<open>buf\<close>.\<close>

definition user_printint :: "int \<Rightarrow> nat \<Rightarrow> bool \<Rightarrow> u8 list" where
  "user_printint xx base sg =
     (let neg = (sg \<and> xx < 0); x = (if neg then of_int (- xx) else of_int xx :: u32)
      in user_number (unat x) base @ (if neg then [45] else []))"

definition user_printptr :: "u64 \<Rightarrow> u8 list" where
  "user_printptr x = str ''0x'' @ map (\<lambda>i. user_digits ! unat (drop_bit 60 (push_bit (4 * i) x))) [0..<16]"

datatype uarg = UInt int | ULong u64 | UStr "u8 list option"

text \<open>The characters \<open>vprintf\<close> puts out; \<open>pct\<close> is its state after a percent sign.\<close>

fun vprintf :: "bool \<Rightarrow> u8 list \<Rightarrow> uarg list \<Rightarrow> u8 list option" where
  "vprintf pct [] args = Some []"
| "vprintf False (c # fmt) args =
     (if c = 37 then vprintf True fmt args else map_option ((#) c) (vprintf False fmt args))"
| "vprintf True (c # fmt) args =
     (if c = of_char CHR ''d'' then
        (case args of UInt x # args \<Rightarrow> map_option ((@) (rev (user_printint x 10 True))) (vprintf False fmt args) | _ \<Rightarrow> None)
      else if c = of_char CHR ''l'' then
        (case args of ULong x # args \<Rightarrow> map_option ((@) (rev (user_printint (s32 (uint x)) 10 False))) (vprintf False fmt args) | _ \<Rightarrow> None)
      else if c = of_char CHR ''x'' then
        (case args of UInt x # args \<Rightarrow> map_option ((@) (rev (user_printint x 16 False))) (vprintf False fmt args) | _ \<Rightarrow> None)
      else if c = of_char CHR ''p'' then
        (case args of ULong x # args \<Rightarrow> map_option ((@) (user_printptr x)) (vprintf False fmt args) | _ \<Rightarrow> None)
      else if c = of_char CHR ''s'' then
        (case args of UStr t # args \<Rightarrow>
           map_option ((@) (case t of None \<Rightarrow> str ''(null)'' | Some t \<Rightarrow> t)) (vprintf False fmt args) | _ \<Rightarrow> None)
      else if c = of_char CHR ''c'' then
        (case args of UInt x # args \<Rightarrow> map_option ((#) (of_int x)) (vprintf False fmt args) | _ \<Rightarrow> None)
      else if c = 37 then map_option ((#) c) (vprintf False fmt args)
      else map_option (\<lambda>cs. 37 # c # cs) (vprintf False fmt args))"

definition fprintf :: "nat \<Rightarrow> u8 list \<Rightarrow> uarg list \<Rightarrow> world \<Rightarrow> unit run" where
  "fprintf fd fmt args w = (case vprintf False fmt args of None \<Rightarrow> Crashed | Some cs \<Rightarrow> Go () (put_all fd cs w))"

definition user_printf :: "u8 list \<Rightarrow> uarg list \<Rightarrow> world \<Rightarrow> unit run" where
  "user_printf fmt args w = fprintf 1 fmt args w"

section \<open>gets\<close>

function gets_loop :: "nat \<Rightarrow> u8 list \<Rightarrow> world \<Rightarrow> u8 list \<times> world" where
  "gets_loop n acc w =
     (if length acc + 1 < n then
        case read_fd 0 1 w of (cc, bs, w) \<Rightarrow>
          if cc < 1 then (acc, w)
          else if hd bs = 10 \<or> hd bs = 13 then (acc @ [hd bs], w)
          else gets_loop n (acc @ [hd bs]) w
      else (acc, w))"
  by pat_completeness auto
termination by (relation "measure (\<lambda>(n, acc, w). n - length acc)") auto

declare gets_loop.simps [simp del]

text \<open>The contents of the buffer with its terminator.\<close>

definition gets :: "nat \<Rightarrow> world \<Rightarrow> u8 list \<times> world" where
  "gets n w = (case gets_loop n [] w of (bs, w) \<Rightarrow> (bs @ [0], w))"

section \<open>echo\<close>

fun echo :: "u8 list list \<Rightarrow> world \<Rightarrow> world" where
  "echo [] w = w"
| "echo [a] w = snd (write_fd 1 [10] (snd (write_fd 1 a w)))"
| "echo (a # args) w = echo args (snd (write_fd 1 [32] (snd (write_fd 1 a w))))"

section \<open>cat\<close>

function cat :: "nat \<Rightarrow> world \<Rightarrow> unit run" where
  "cat fd w =
     (case read_fd fd 512 w of (n, bs, w) \<Rightarrow>
      if n > 0 then
        (case write_fd 1 bs w of (r, w) \<Rightarrow>
         if r \<noteq> n then ubind (fprintf 2 (str ''cat: write error'' @ [10]) [] w) (\<lambda>_ w. Exited 1 w) else cat fd w)
      else if n < 0 then ubind (fprintf 2 (str ''cat: read error'' @ [10]) [] w) (\<lambda>_ w. Exited 1 w)
      else Go () w)"
  by pat_completeness auto
termination
proof (relation "measure (\<lambda>(fd, w). length (input fd w))", simp, goal_cases)
  case (1 fd w n x bs w1 r w2)
  then have "read_fd fd 512 w = (n, bs, w1)" "input fd w2 = input fd w1" using write_simps(1) [of fd 1 bs w1] by (metis snd_conv)+
  with read_shrinks [OF this(1)] 1 show ?case by simp
qed

declare cat.simps [simp del]

fun cat_files :: "u8 list list \<Rightarrow> world \<Rightarrow> unit run" where
  "cat_files [] w = Exited 0 w"
| "cat_files (a # args) w =
     (case open_path a w of (fd, w) \<Rightarrow>
      if fd < 0 then ubind (fprintf 2 (str ''cat: cannot open %s'' @ [10]) [UStr (Some a)] w) (\<lambda>_ w. Exited 1 w)
      else ubind (cat (nat fd) w) (\<lambda>_ w. cat_files args (close_file (nat fd) w)))"

definition cat_main :: "u8 list list \<Rightarrow> world \<Rightarrow> unit run" where
  "cat_main args w = (if args = [] then ubind (cat 0 w) (\<lambda>_ w. Exited 0 w) else cat_files args w)"

section \<open>wc\<close>

definition wc_space :: "u8 \<Rightarrow> bool" where
  "wc_space c \<longleftrightarrow> c \<in> set [32, 13, 9, 10, 11]"

text \<open>The counters of lines, words and characters, and \<open>inword\<close>.\<close>

type_synonym counts = "int \<times> int \<times> int \<times> bool"

definition wc_byte :: "u8 \<Rightarrow> counts \<Rightarrow> counts" where
  "wc_byte b = (\<lambda>(l, w, c, inword).
     let c = s32 (c + 1); l = (if b = 10 then s32 (l + 1) else l) in
     if wc_space b then (l, w, c, False) else if \<not> inword then (l, s32 (w + 1), c, True) else (l, w, c, inword))"

function wc_loop :: "nat \<Rightarrow> counts \<Rightarrow> world \<Rightarrow> int \<times> counts \<times> world" where
  "wc_loop fd st w =
     (case read_fd fd 512 w of (n, bs, w) \<Rightarrow> if n > 0 then wc_loop fd (fold wc_byte bs st) w else (n, st, w))"
  by pat_completeness auto
termination by (relation "measure (\<lambda>(fd, st, w). length (input fd w))") (auto dest: read_shrinks [OF sym])

declare wc_loop.simps [simp del]

definition wc :: "nat \<Rightarrow> u8 list \<Rightarrow> world \<Rightarrow> unit run" where
  "wc fd name w =
     (case wc_loop fd (0, 0, 0, False) w of (n, (l, ws, c, _), w) \<Rightarrow>
      if n < 0 then ubind (user_printf (str ''wc: read error'' @ [10]) [] w) (\<lambda>_ w. Exited 1 w)
      else user_printf (str ''%d %d %d %s'' @ [10]) [UInt l, UInt ws, UInt c, UStr (Some name)] w)"

fun wc_files :: "u8 list list \<Rightarrow> world \<Rightarrow> unit run" where
  "wc_files [] w = Exited 0 w"
| "wc_files (a # args) w =
     (case open_path a w of (fd, w) \<Rightarrow>
      if fd < 0 then ubind (user_printf (str ''wc: cannot open %s'' @ [10]) [UStr (Some a)] w) (\<lambda>_ w. Exited 1 w)
      else ubind (wc (nat fd) a w) (\<lambda>_ w. wc_files args (close_file (nat fd) w)))"

definition wc_main :: "u8 list list \<Rightarrow> world \<Rightarrow> unit run" where
  "wc_main args w = (if args = [] then ubind (wc 0 [] w) (\<lambda>_ w. Exited 0 w) else wc_files args w)"

section \<open>What the programs put out\<close>

text \<open>No call fails.\<close>

definition reliable :: "world \<Rightarrow> bool" where
  "reliable w \<longleftrightarrow> w_writes w = [] \<and> None \<notin> set (w_reads w)"

lemma reliable_write: "reliable w \<Longrightarrow> reliable (snd (write_fd fd bs w))"
  by (simp add: reliable_def write_ok)

lemma sent_write: "w_writes w = [] \<Longrightarrow> sent fd (snd (write_fd fd' bs w)) = sent fd w @ (if fd' = fd then bs else [])"
  by (simp add: write_ok sent_def)

lemma reliable_read:
  assumes "reliable w" "read_fd fd n w = (r, bs, w')" "0 < n"
  shows "reliable w'" "r = int (length bs)" "input fd w = bs @ input fd w'" "bs = [] \<longleftrightarrow> input fd w = []" "sent fd' w' = sent fd' w" "length bs \<le> n"
  using assms read_spec [OF assms(2)] by (auto simp: reliable_def sent_def)

lemma cat_copies:
  assumes "reliable w"
  shows "\<exists>w'. cat fd w = Go () w' \<and> reliable w' \<and> input fd w' = [] \<and> sent 1 w' = sent 1 w @ input fd w"
  using assms
proof (induction fd w rule: cat.induct)
  case (1 fd w)
  obtain n bs w1 where rd: "read_fd fd 512 w = (n, bs, w1)" by (metis prod_cases3)
  note r = reliable_read [OF 1(2) rd zero_less_numeral]
  show ?case
  proof (cases "bs = []")
    case True
    then have i: "n = 0" "input fd w = []" using r(2,4) by simp_all
    then have "cat fd w = Go () w1" using rd by (subst cat.simps) simp
    moreover have "input fd w1 = []" using r(3) i(2) by simp
    ultimately show ?thesis using r(1) r(5) [of 1] i(2) by (intro exI [of _ w1]) simp
  next
    case False
    define w2 where "w2 = snd (write_fd 1 bs w1)"
    have wr: "write_fd 1 bs w1 = (n, w2)" using r by (simp add: w2_def reliable_def write_ok)
    have "cat fd w = cat fd w2" using rd r False wr by (subst cat.simps) (simp only: prod.case if_True if_False simp_thms, simp)
    moreover have "reliable w2" "input fd w2 = input fd w1" "sent 1 w2 = sent 1 w1 @ bs"
      using reliable_write r sent_write [of w1 1 1 bs] by (simp_all add: w2_def reliable_def)
    moreover have pos: "0 < n" using r(2) False by simp
    ultimately obtain w' where "cat fd w = Go () w'" "reliable w'" "input fd w' = []" "sent 1 w' = sent 1 w2 @ input fd w2"
      using 1(1) [OF rd [symmetric] refl pos wr [symmetric]] by auto
    then show ?thesis
      using r(3) r(5) [of 1] \<open>input fd w2 = input fd w1\<close> \<open>sent 1 w2 = sent 1 w1 @ bs\<close> by (intro exI [of _ w']) simp
  qed
qed

text \<open>The three counts of a text.\<close>

fun word_starts :: "bool \<Rightarrow> u8 list \<Rightarrow> nat" where
  "word_starts inword [] = 0"
| "word_starts inword (b # bs) = (if wc_space b \<or> inword then 0 else 1) + word_starts (\<not> wc_space b) bs"

lemma fold_wc:
  assumes "0 \<le> l" "0 \<le> w" "0 \<le> c" "l \<le> c" "w \<le> c" "c + int (length bs) < 2 ^ 31"
  shows "\<exists>q. fold wc_byte bs (l, w, c, p) = (l + int (length (filter (\<lambda>b. b = 10) bs)), w + int (word_starts p bs), c + int (length bs), q)"
  using assms
proof (induction bs arbitrary: l w c p)
  case (Cons b bs)
  define l' w' where d: "l' = (if b = 10 then l + 1 else l)" "w' = (if wc_space b \<or> p then w else w + 1)"
  have b: "0 \<le> l'" "0 \<le> w'" "l' \<le> c + 1" "w' \<le> c + 1" "c + 1 + int (length bs) < 2 ^ 31"
    using Cons.prems by (auto simp: d)
  have s: "s32 (x + 1) = x + 1" if "0 \<le> x" "x \<le> c" for x using that Cons.prems(6) by (simp add: s32_id)
  have "wc_byte b (l, w, c, p) = (l', w', c + 1, \<not> wc_space b)"
    using s [OF Cons.prems(1,4)] s [OF Cons.prems(2,5)] s [OF Cons.prems(3)]
    unfolding wc_byte_def Let_def d by (cases "wc_space b"; cases p; cases "b = 10") simp_all
  moreover obtain q where "fold wc_byte bs (l', w', c + 1, \<not> wc_space b) =
      (l' + int (length (filter (\<lambda>b. b = 10) bs)), w' + int (word_starts (\<not> wc_space b) bs), c + 1 + int (length bs), q)"
    using Cons.IH [OF b(1,2) _ b(3-5)] Cons.prems(3) by auto
  ultimately have "fold wc_byte (b # bs) (l, w, c, p) =
      (l' + int (length (filter (\<lambda>b. b = 10) bs)), w' + int (word_starts (\<not> wc_space b) bs), c + 1 + int (length bs), q)"
    by (simp only: fold_Cons comp_apply)
  then show ?case by (intro exI [of _ q]) (simp add: d)
qed simp

lemma wc_loop_fold:
  assumes "reliable w"
  shows "\<exists>w'. wc_loop fd st w = (0, fold wc_byte (input fd w) st, w') \<and> reliable w' \<and> sent 1 w' = sent 1 w"
  using assms
proof (induction fd st w rule: wc_loop.induct)
  case (1 fd st w)
  obtain n bs w1 where rd: "read_fd fd 512 w = (n, bs, w1)" by (metis prod_cases3)
  note r = reliable_read [OF 1(2) rd zero_less_numeral]
  show ?case
  proof (cases "bs = []")
    case True
    then have i: "n = 0" "input fd w = []" using r(2,4) by simp_all
    then have "wc_loop fd st w = (0, st, w1)" using rd by (subst wc_loop.simps) simp
    then show ?thesis using r(1) r(5) [of 1] i(2) by (intro exI [of _ w1]) simp
  next
    case False
    have "wc_loop fd st w = wc_loop fd (fold wc_byte bs st) w1" using rd r False by (subst wc_loop.simps) simp
    moreover have pos: "0 < n" using r(2) False by simp
    ultimately obtain w' where "wc_loop fd st w = (0, fold wc_byte (input fd w1) (fold wc_byte bs st), w')" "reliable w'" "sent 1 w' = sent 1 w1"
      using 1(1) [OF rd [symmetric] refl pos r(1)] by auto
    then show ?thesis using r(3) r(5) [of 1] by (intro exI [of _ w']) simp
  qed
qed

end
