(* ===== verification/Grep.thy ===== *)
theory Grep
  imports User_Io
begin

text \<open>
  \<^verbatim>\<open>user/grep.c\<close>: the regular-expression matcher and the loop that prints matching lines. C strings are the
  lists of the bytes before their terminator.
\<close>

section \<open>The matcher\<close>

function matchhere :: "u8 list \<Rightarrow> u8 list \<Rightarrow> bool" and matchstar :: "u8 \<Rightarrow> u8 list \<Rightarrow> u8 list \<Rightarrow> bool" where
  "matchhere re s =
     (case re of [] \<Rightarrow> True
      | c # re' \<Rightarrow>
          if re' \<noteq> [] \<and> hd re' = 42 then matchstar c (tl re') s
          else if c = 36 \<and> re' = [] then s = []
          else if s \<noteq> [] \<and> (c = 46 \<or> c = hd s) then matchhere re' (tl s)
          else False)"
| "matchstar c re s =
     (if matchhere re s then True
      else if s \<noteq> [] \<and> (hd s = c \<or> c = 46) then matchstar c re (tl s)
      else False)"
  by pat_completeness auto
termination
  by (relation "measures [\<lambda>x. case x of Inl (re, s) \<Rightarrow> 2 * length re | Inr (c, re, s) \<Rightarrow> 2 * length re + 1,
        \<lambda>x. case x of Inl (re, s) \<Rightarrow> length s | Inr (c, re, s) \<Rightarrow> length s]")
    (auto simp: neq_Nil_conv)

declare matchhere.simps [simp del] matchstar.simps [simp del]

fun match_loop :: "u8 list \<Rightarrow> u8 list \<Rightarrow> bool" where
  "match_loop re [] = matchhere re []"
| "match_loop re (t # s) = (if matchhere re (t # s) then True else match_loop re s)"

definition match :: "u8 list \<Rightarrow> u8 list \<Rightarrow> bool" where
  "match re s = (if re \<noteq> [] \<and> hd re = 94 then matchhere (tl re) s else match_loop re s)"

section \<open>What a pattern denotes\<close>

datatype atom = Byte u8 | Any | Many u8

text \<open>The atoms of a pattern, and whether a final \<open>$\<close> ties it to the end of the line.\<close>

fun atoms :: "u8 list \<Rightarrow> atom list \<times> bool" where
  "atoms [] = ([], False)"
| "atoms [c] = (if c = 36 then ([], True) else ([if c = 46 then Any else Byte c], False))"
| "atoms (c # d # re) =
     (if d = 42 then map_prod ((#) (Many c)) id (atoms re)
      else map_prod ((#) (if c = 46 then Any else Byte c)) id (atoms (d # re)))"

primrec atom_lang :: "atom \<Rightarrow> u8 list set" where
  "atom_lang (Byte c) = {[c]}"
| "atom_lang Any = {[x] | x. True}"
| "atom_lang (Many c) = {w. c = 46 \<or> set w \<subseteq> {c}}"

primrec lang :: "atom list \<Rightarrow> u8 list set" where
  "lang [] = {[]}"
| "lang (a # as) = {u @ v | u v. u \<in> atom_lang a \<and> v \<in> lang as}"

text \<open>A prefix of the text is in the language, all of it where the pattern is tied to the end.\<close>

definition prefix_match :: "atom list \<times> bool \<Rightarrow> u8 list \<Rightarrow> bool" where
  "prefix_match p s \<longleftrightarrow> (\<exists>u v. s = u @ v \<and> u \<in> lang (fst p) \<and> (snd p \<longrightarrow> v = []))"

lemma prefix_match_Nil: "prefix_match ([], e) s \<longleftrightarrow> (e \<longrightarrow> s = [])"
  by (auto simp: prefix_match_def)

lemma prefix_matchI: "s = u @ v \<Longrightarrow> u \<in> lang as \<Longrightarrow> (e \<longrightarrow> v = []) \<Longrightarrow> prefix_match (as, e) s"
  unfolding prefix_match_def by (intro exI [of _ u] exI [of _ v]) simp

lemma prefix_matchE:
  assumes "prefix_match (as, e) s"
  obtains u v where "s = u @ v" "u \<in> lang as" "e \<longrightarrow> v = []"
  using assms unfolding prefix_match_def fst_conv snd_conv by blast

lemma prefix_match_ConsI: "s = u @ v @ w \<Longrightarrow> u \<in> atom_lang a \<Longrightarrow> v \<in> lang as \<Longrightarrow> (e \<longrightarrow> w = []) \<Longrightarrow> prefix_match (a # as, e) s"
  by (rule prefix_matchI [of _ "u @ v" w]) (simp, unfold lang.simps, blast+)

lemma prefix_match_ConsE:
  assumes "prefix_match (a # as, e) s"
  obtains u v w where "s = u @ v @ w" "u \<in> atom_lang a" "v \<in> lang as" "e \<longrightarrow> w = []"
proof -
  from assms obtain x w where x: "s = x @ w" "x \<in> lang (a # as)" "e \<longrightarrow> w = []" by (rule prefix_matchE)
  then obtain u v where "x = u @ v" "u \<in> atom_lang a" "v \<in> lang as" unfolding lang.simps by blast
  then show ?thesis using that x by simp
qed

lemma prefix_match_one:
  assumes "a = Any \<or> a = Byte c"
  shows "prefix_match (a # as, e) s \<longleftrightarrow> s \<noteq> [] \<and> (a = Any \<or> a = Byte (hd s)) \<and> prefix_match (as, e) (tl s)"
proof
  assume "prefix_match (a # as, e) s"
  then obtain u v w where d: "s = u @ v @ w" "u \<in> atom_lang a" "v \<in> lang as" "e \<longrightarrow> w = []" by (rule prefix_match_ConsE)
  then obtain x where x: "u = [x]" "a = Any \<or> a = Byte x" using assms by auto
  then have "prefix_match (as, e) (tl s)" using d by (intro prefix_matchI [of _ v w]) simp_all
  then show "s \<noteq> [] \<and> (a = Any \<or> a = Byte (hd s)) \<and> prefix_match (as, e) (tl s)" using d x by simp
next
  assume r: "s \<noteq> [] \<and> (a = Any \<or> a = Byte (hd s)) \<and> prefix_match (as, e) (tl s)"
  then obtain v w where d: "tl s = v @ w" "v \<in> lang as" "e \<longrightarrow> w = []" by (blast elim: prefix_matchE)
  have "s = [hd s] @ v @ w" using r d(1) by (metis append_Cons append_Nil list.collapse)
  moreover have "[hd s] \<in> atom_lang a" using r by auto
  ultimately show "prefix_match (a # as, e) s" using d(2,3) by (rule prefix_match_ConsI)
qed

lemma prefix_match_many:
  "prefix_match (Many c # as, e) s \<longleftrightarrow>
     prefix_match (as, e) s \<or> s \<noteq> [] \<and> (hd s = c \<or> c = 46) \<and> prefix_match (Many c # as, e) (tl s)" (is "?l \<longleftrightarrow> ?r")
proof
  assume ?l
  then obtain u v w where d: "s = u @ v @ w" "u \<in> atom_lang (Many c)" "v \<in> lang as" "e \<longrightarrow> w = []" by (rule prefix_match_ConsE)
  show ?r
  proof (cases u)
    case Nil
    then show ?thesis using d prefix_matchI [of s v w as e] by simp
  next
    case (Cons x u')
    then have "prefix_match (Many c # as, e) (tl s)" using d by (intro prefix_match_ConsI [of _ u' v w]) auto
    then show ?thesis using d Cons by auto
  qed
next
  assume ?r
  then show ?l
  proof
    assume "prefix_match (as, e) s"
    then obtain v w where "s = v @ w" "v \<in> lang as" "e \<longrightarrow> w = []" by (rule prefix_matchE)
    then show ?l by (intro prefix_match_ConsI [of _ "[]" v w]) simp_all
  next
    assume r: "s \<noteq> [] \<and> (hd s = c \<or> c = 46) \<and> prefix_match (Many c # as, e) (tl s)"
    then obtain u v w where d: "tl s = u @ v @ w" "u \<in> atom_lang (Many c)" "v \<in> lang as" "e \<longrightarrow> w = []" by (blast elim: prefix_match_ConsE)
    moreover have "s = hd s # tl s" using r by simp
    ultimately show ?l using r by (intro prefix_match_ConsI [of _ "hd s # u" v w]) auto
  qed
qed

lemma matchhere_lang:
  "matchhere re s \<longleftrightarrow> prefix_match (atoms re) s"
  "matchstar c re s \<longleftrightarrow> prefix_match (map_prod ((#) (Many c)) id (atoms re)) s"
proof (induction re s and c re s rule: matchhere_matchstar.induct)
  case (1 re s)
  show ?case
  proof (cases re rule: atoms.cases)
    case 1
    then show ?thesis by (simp add: matchhere.simps prefix_match_Nil)
  next
    case (2 c)
    then show ?thesis using 1 by (subst matchhere.simps) (auto simp: prefix_match_Nil prefix_match_one [of _ c])
  next
    case (3 c d re')
    show ?thesis
    proof (cases "d = 42")
      case True
      then show ?thesis using 1(1) [OF 3] 3 by (subst matchhere.simps) (simp add: id_def)
    next
      case False
      obtain as e where a: "atoms (d # re') = (as, e)" by force
      have "matchhere re s \<longleftrightarrow> s \<noteq> [] \<and> (c = 46 \<or> c = hd s) \<and> prefix_match (as, e) (tl s)"
        using 1(2) [OF 3] 3 False a by (subst matchhere.simps) auto
      then show ?thesis using 3 False a by (auto simp: prefix_match_one [of _ c])
    qed
  qed
next
  case (2 c re s)
  obtain as e where a: "atoms re = (as, e)" by force
  show ?case using 2 a by (subst matchstar.simps) (auto simp: prefix_match_many [of c as e s])
qed

lemma match_loop_lang: "match_loop re s \<longleftrightarrow> (\<exists>pre rest. s = pre @ rest \<and> prefix_match (atoms re) rest)"
proof (induction s)
  case (Cons t s)
  then show ?case by (auto simp: matchhere_lang Cons_eq_append_conv)
qed (simp add: matchhere_lang)

text \<open>
  C39: the matcher finds exactly the lines that contain a match. For every pattern and every line, \<open>match\<close> is true if
  and only if some part of the line is in the language of the pattern, a part at the start of the line for
  patterns with \<open>^\<close> and at its end for patterns with \<open>$\<close>.
\<close>

theorem grep_match_correct:
  "match re s \<longleftrightarrow>
     (\<exists>pre u post. s = pre @ u @ post \<and> u \<in> lang (fst (atoms (if re \<noteq> [] \<and> hd re = 94 then tl re else re))) \<and>
        (re \<noteq> [] \<and> hd re = 94 \<longrightarrow> pre = []) \<and> (snd (atoms (if re \<noteq> [] \<and> hd re = 94 then tl re else re)) \<longrightarrow> post = []))"
  unfolding match_def match_loop_lang matchhere_lang prefix_match_def by (auto split: if_splits)

theorem grep_match_correct_witness:
  "match (str ''^b*c'') (str ''bbcd'') \<and> (\<exists>u post. str ''bbcd'' = u @ post \<and> u \<in> lang (fst (atoms (str ''b*c''))))"
proof -
  have m: "match (str ''^b*c'') (str ''bbcd'')" by code_simp
  have v: "str ''^b*c'' \<noteq> []" "hd (str ''^b*c'') = 94" "tl (str ''^b*c'') = str ''b*c''" by (simp_all add: str_def)
  show ?thesis using m m [unfolded grep_match_correct v] v(1) by auto
qed

section \<open>Printing matching lines\<close>

text \<open>The inner loop: the lines in the buffer. What follows the last newline stays.\<close>

function grep_lines :: "u8 list \<Rightarrow> u8 list \<Rightarrow> world \<Rightarrow> u8 list \<times> world" where
  "grep_lines re p w =
     (case find_index (\<lambda>c. c = 10) (takeWhile (\<lambda>c. c \<noteq> 0) p) of
        None \<Rightarrow> (p, w)
      | Some q \<Rightarrow> grep_lines re (drop (Suc q) p) (if match re (take q p) then snd (write_fd 1 (take (Suc q) p) w) else w))"
  by pat_completeness auto
termination
proof (relation "measure (\<lambda>(re, p, w). length p)", simp, goal_cases)
  case (1 re p w q)
  have "length (takeWhile (\<lambda>c. c \<noteq> 0) p) \<le> length p" by (rule length_takeWhile_le)
  then show ?case using find_index_lt [OF 1] by simp
qed

declare grep_lines.simps [simp del]

lemma grep_lines_input: "input fd (snd (grep_lines re p w)) = input fd w"
proof (induction re p w rule: grep_lines.induct)
  case (1 re p w)
  then show ?case by (subst grep_lines.simps) (auto split: option.splits)
qed

text \<open>\<open>held\<close> is the part of a line that \<open>buf\<close> holds, \<open>m\<close> bytes of it.\<close>

function grep :: "u8 list \<Rightarrow> nat \<Rightarrow> u8 list \<Rightarrow> world \<Rightarrow> world" where
  "grep re fd held w =
     (case read_fd fd (1024 - length held - 1) w of (n, bs, w) \<Rightarrow>
      if n > 0 then case grep_lines re (held @ bs) w of (held, w) \<Rightarrow> grep re fd held w else w)"
  by pat_completeness auto
termination
proof (relation "measure (\<lambda>(re, fd, held, w). length (input fd w))", simp, goal_cases)
  case (1 re fd held w n x bs w1 held' w2)
  then have "read_fd fd (1024 - length held - 1) w = (n, bs, w1)" "input fd w2 = input fd w1"
    using grep_lines_input [of fd re "held @ bs" w1] by (metis snd_conv)+
  with read_shrinks [OF this(1)] 1(3) 1(4) [symmetric] show ?case by simp
qed

declare grep.simps [simp del]

fun grep_files :: "u8 list \<Rightarrow> u8 list list \<Rightarrow> world \<Rightarrow> unit run" where
  "grep_files re [] w = Exited 0 w"
| "grep_files re (a # args) w =
     (case open_path a w of (fd, w) \<Rightarrow>
      if fd < 0 then ubind (user_printf (str ''grep: cannot open %s'' @ [10]) [UStr (Some a)] w) (\<lambda>_ w. Exited 1 w)
      else grep_files re args (close_file (nat fd) (grep re (nat fd) [] w)))"

definition grep_main :: "u8 list list \<Rightarrow> world \<Rightarrow> unit run" where
  "grep_main args w =
     (case args of
        [] \<Rightarrow> ubind (fprintf 2 (str ''usage: grep pattern [file ...]'' @ [10]) [] w) (\<lambda>_ w. Exited 1 w)
      | [re] \<Rightarrow> Exited 0 (grep re 0 [] w)
      | re # files \<Rightarrow> grep_files re files w)"

section \<open>The lines of a text\<close>

text \<open>The complete lines of a text that continues \<open>acc\<close>, and what follows the last of them.\<close>

fun full_lines :: "u8 list \<Rightarrow> u8 list \<Rightarrow> u8 list list" where
  "full_lines acc [] = []"
| "full_lines acc (c # cs) = (if c = 10 then acc # full_lines [] cs else full_lines (acc @ [c]) cs)"

fun last_part :: "u8 list \<Rightarrow> u8 list \<Rightarrow> u8 list" where
  "last_part acc [] = acc"
| "last_part acc (c # cs) = (if c = 10 then last_part [] cs else last_part (acc @ [c]) cs)"

lemma lines_append:
  "full_lines acc (a @ b) = full_lines acc a @ full_lines (last_part acc a) b"
  "last_part acc (a @ b) = last_part (last_part acc a) b"
  by (induction acc a rule: full_lines.induct) auto

lemma lines_no_newline: "10 \<notin> set u \<Longrightarrow> full_lines acc u = [] \<and> last_part acc u = acc @ u"
  by (induction acc u rule: full_lines.induct) auto

lemma last_part_no_newline: "10 \<notin> set acc \<Longrightarrow> 10 \<notin> set (last_part acc u)"
  by (induction acc u rule: last_part.induct) auto

lemma set_last_part: "set (last_part acc u) \<subseteq> set acc \<union> set u"
  by (induction acc u rule: last_part.induct) auto

lemma acc_short: "\<exists>l \<in> insert (last_part acc u) (set (full_lines acc u)). length acc \<le> length l"
proof (induction acc u rule: full_lines.induct)
  case (2 acc c cs)
  then show ?case by (cases "c = 10") force+
qed simp

definition matching :: "u8 list \<Rightarrow> u8 list list \<Rightarrow> u8 list" where
  "matching re ls = concat (map (\<lambda>l. l @ [10]) (filter (match re) ls))"

lemma grep_lines_spec:
  assumes "0 \<notin> set p" "reliable w"
  shows "\<exists>w'. grep_lines re p w = (last_part [] p, w') \<and> reliable w' \<and> sent 1 w' = sent 1 w @ matching re (full_lines [] p)"
  using assms
proof (induction re p w rule: grep_lines.induct)
  case (1 re p w)
  have p: "takeWhile (\<lambda>c. c \<noteq> 0) p = p" using 1(2) by (auto simp: takeWhile_eq_all_conv)
  from this have st: "grep_lines re p w = (case find_index (\<lambda>c. c = 10) p of None \<Rightarrow> (p, w)
      | Some q \<Rightarrow> grep_lines re (drop (Suc q) p) (if match re (take q p) then snd (write_fd 1 (take (Suc q) p) w) else w))"
    by (subst grep_lines.simps) (rule arg_cong)
  show ?case
  proof (cases "find_index (\<lambda>c. c = 10) p")
    case None
    then have "10 \<notin> set p" by (auto simp: find_index_None)
    then show ?thesis using None 1(3) unfolding st by (simp add: lines_no_newline matching_def)
  next
    case (Some q)
    define w1 where "w1 = (if match re (take q p) then snd (write_fd 1 (take (Suc q) p) w) else w)"
    have q: "q < length p" "p ! q = 10" "\<forall>j<q. p ! j \<noteq> 10" using Some by (auto simp: find_index_Some)
    then have pq: "p = take q p @ 10 # drop (Suc q) p" "take (Suc q) p = take q p @ [10]" using id_take_nth_drop take_Suc_conv_app_nth by metis+
    have "10 \<notin> set (take q p)" using q by (auto simp: in_set_conv_nth)
    then have ls: "full_lines [] p = take q p # full_lines [] (drop (Suc q) p)" "last_part [] p = last_part [] (drop (Suc q) p)"
      using lines_append [of "[]" "take q p" "10 # drop (Suc q) p"] lines_no_newline [of "take q p" "[]"] pq(1) by simp_all
    have w1: "reliable w1" "sent 1 w1 = sent 1 w @ (if match re (take q p) then take q p @ [10] else [])"
      using 1(3) reliable_write sent_write [of w 1 1] pq(2) by (auto simp: w1_def reliable_def)
    have "0 \<notin> set (drop (Suc q) p)" using 1(2) by (auto dest: in_set_dropD)
    have "grep_lines re p w = grep_lines re (drop (Suc q) p) w1" unfolding st Some w1_def by simp
    have "find_index (\<lambda>c. c = 10) (takeWhile (\<lambda>c. c \<noteq> 0) p) = Some q" using Some by (simp only: p)
    note IH = 1(1) [OF this, folded w1_def, OF \<open>0 \<notin> set (drop (Suc q) p)\<close> w1(1)]
    then show ?thesis unfolding \<open>grep_lines re p w = grep_lines re (drop (Suc q) p) w1\<close> ls w1(2) by (auto simp: matching_def)
  qed
qed

text \<open>
  C40: \<open>grep\<close> prints exactly the matching lines. Whatever pieces the input arrives in, as long as no line is longer than
  the buffer, the program writes, in order, the complete lines that match, each with its newline, and nothing else.
\<close>

theorem grep_prints_matches:
  assumes "reliable w" "0 \<notin> set (held @ input fd w)" "10 \<notin> set held"
    and "\<forall>l \<in> insert (last_part held (input fd w)) (set (full_lines held (input fd w))). length l < 1023"
  shows "sent 1 (grep re fd held w) = sent 1 w @ matching re (full_lines held (input fd w))"
  using assms
proof (induction re fd held w rule: grep.induct)
  case (1 re fd held w)
  have pos: "0 < 1024 - length held - 1" using acc_short [of held "input fd w"] 1(5) by fastforce
  obtain n bs w1 where rd: "read_fd fd (1024 - length held - 1) w = (n, bs, w1)" by (metis prod_cases3)
  note r = reliable_read [OF 1(2) rd pos]
  show ?case
  proof (cases "bs = []")
    case True
    then have "n = 0" "input fd w = []" using r(2,4) by simp_all
    moreover from this have "grep re fd held w = w1" using rd by (subst grep.simps) simp
    ultimately show ?thesis using r(5) [of 1] by (simp add: matching_def)
  next
    case False
    let ?h = "last_part [] (held @ bs)"
    have n: "0 < n" using r(2) False by simp
    obtain w2 where w2: "grep_lines re (held @ bs) w1 = (?h, w2)" "reliable w2"
      "sent 1 w2 = sent 1 w1 @ matching re (full_lines [] (held @ bs))"
      using grep_lines_spec [of "held @ bs" w1 re] r(1,3) 1(3) by auto
    have in2: "input fd w2 = input fd w1" using grep_lines_input [of fd re "held @ bs" w1] w2(1) by simp
    have h: "?h = last_part held bs" "full_lines [] (held @ bs) = full_lines held bs"
      using lines_append [of "[]" held bs] lines_no_newline [OF 1(4), of "[]"] by simp_all
    have step: "grep re fd held w = grep re fd ?h w2" using rd n w2(1) by (subst grep.simps) simp
    have split: "full_lines held (input fd w) = full_lines held bs @ full_lines ?h (input fd w1)"
      "last_part held (input fd w) = last_part ?h (input fd w1)" 
      unfolding h(1) r(3) by (simp_all add: lines_append)
    have "sent 1 (grep re fd ?h w2) = sent 1 w2 @ matching re (full_lines ?h (input fd w2))"
    proof (rule 1(1) [OF rd [symmetric] refl n w2(1) [symmetric] w2(2)])
      show "10 \<notin> set ?h" by (rule last_part_no_newline) simp
      show "\<forall>l\<in>insert (last_part ?h (input fd w2)) (set (full_lines ?h (input fd w2))). length l < 1023"
        using 1(5) unfolding split in2 by simp
      show "0 \<notin> set (?h @ input fd w2)" using 1(3) r(3) in2 set_last_part [of "[]" "held @ bs"] by auto
    qed
    then show ?thesis unfolding step using w2(3) r(5) [of 1] in2 split h by (simp add: matching_def)
  qed
qed

text \<open>Two lines that arrive in pieces of three and one bytes.\<close>

definition world0 :: world where
  "world0 = \<lparr>w_files = (\<lambda>_. None), w_fds = [Some (str ''ab'' @ [10] @ str ''cb'' @ [10])], w_reads = [Some 2, Some 0], w_writes = [], w_out = []\<rparr>"

theorem grep_prints_matches_witness: "sent 1 (grep (str ''^c.'') 0 [] world0) = str ''cb'' @ [10]"
proof -
  have "sent 1 (grep (str ''^c.'') 0 [] world0) = sent 1 world0 @ matching (str ''^c.'') (full_lines [] (input 0 world0))"
    by (rule grep_prints_matches) (simp_all add: world0_def reliable_def input_def str_def)
  also have "\<dots> = str ''cb'' @ [10]" by code_simp
  finally show ?thesis .
qed

end
