(* ===== verification/Sh.thy ===== *)
theory Sh
  imports Cstring
begin

text \<open>
  The command parser of the shell, \<^verbatim>\<open>user/sh.c\<close>. A command line is the list \<open>b\<close> of its bytes without the
  terminator, and a pointer into it is an index, so that the end of the line \<open>es\<close> is \<open>length b\<close>. The nodes of the
  parse tree hold the bounds of their words, which \<open>nulterminate\<close> later turns into C strings by
  writing into the shared buffer. Memory for the nodes is taken to be available. The mutually recursive
  functions carry fuel; \<open>parsecmd\<close> supplies \<open>4 * length b + 4\<close>, which is always enough. The exit of \<open>panic\<close> is
  the result \<open>Panicked\<close>.
\<close>

section \<open>Commands and tokens\<close>

type_synonym word_at = "nat \<times> nat"

datatype cmd = EXEC "word_at list" | REDIR cmd word_at u32 int | PIPE cmd cmd | LIST cmd cmd | BACK cmd

text \<open>The constructors; \<open>execcmd\<close> with the words that \<open>parseexec\<close> stores in the node.\<close>

abbreviation execcmd :: "word_at list \<Rightarrow> cmd" where
  "execcmd args \<equiv> EXEC args"

abbreviation redircmd :: "cmd \<Rightarrow> word_at \<Rightarrow> u32 \<Rightarrow> int \<Rightarrow> cmd" where
  "redircmd subcmd w mode fd \<equiv> REDIR subcmd w mode fd"

abbreviation pipecmd :: "cmd \<Rightarrow> cmd \<Rightarrow> cmd" where
  "pipecmd left right \<equiv> PIPE left right"

abbreviation listcmd :: "cmd \<Rightarrow> cmd \<Rightarrow> cmd" where
  "listcmd left right \<equiv> LIST left right"

abbreviation backcmd :: "cmd \<Rightarrow> cmd" where
  "backcmd subcmd \<equiv> BACK subcmd"

datatype 'a pres = Parsed 'a | Panicked string | Out_of_fuel

fun pbind :: "'a pres \<Rightarrow> ('a \<Rightarrow> 'b pres) \<Rightarrow> 'b pres" where
  "pbind (Parsed x) f = f x"
| "pbind (Panicked m) f = Panicked m"
| "pbind Out_of_fuel f = Out_of_fuel"

definition MAXARGS :: nat where [simp]: "MAXARGS = 10"

definition whitespace :: "u8 list" where "whitespace = [32, 9, 13, 10, 11]"

definition symbols :: "u8 list" where "symbols = [60, 124, 62, 38, 59, 40, 41]"

definition at :: "u8 list \<Rightarrow> nat \<Rightarrow> u8" where
  "at b i = (if i < length b then b ! i else 0)"

function skip :: "(u8 \<Rightarrow> bool) \<Rightarrow> u8 list \<Rightarrow> nat \<Rightarrow> nat" where
  "skip P b s = (if s < length b \<and> P (b ! s) then skip P b (Suc s) else s)"
  by pat_completeness auto
termination by (relation "measure (\<lambda>(P, b, s). length b - s)") auto

declare skip.simps [simp del]

definition skip_ws :: "u8 list \<Rightarrow> nat \<Rightarrow> nat" where
  "skip_ws b s = skip (\<lambda>c. c \<in> set whitespace) b s"

text \<open>The token, the bounds of its text, and the position after it.\<close>

definition gettoken :: "u8 list \<Rightarrow> nat \<Rightarrow> u8 \<times> word_at \<times> nat" where
  "gettoken b s =
     (let s = skip_ws b s; q = s; c = at b s;
          (ret, s) = (if c = 0 then (c, s)
                      else if c = 62 then (if at b (s + 1) = 62 then (43, s + 2) else (c, s + 1))
                      else if c \<in> set symbols then (c, s + 1)
                      else (97, skip (\<lambda>c. c \<notin> set whitespace \<and> c \<notin> set symbols) b s))
      in (ret, (q, s), skip_ws b s))"

definition peek :: "u8 list \<Rightarrow> u8 list \<Rightarrow> nat \<Rightarrow> bool \<times> nat" where
  "peek b toks s = (let s = skip_ws b s in (at b s \<noteq> 0 \<and> at b s \<in> set toks, s))"

definition after_token :: "u8 list \<Rightarrow> nat \<Rightarrow> nat" where
  "after_token b s = snd (snd (gettoken b s))"

section \<open>Progress of the tokenizer\<close>

lemma skip_ge: "s \<le> skip P b s"
  by (induction P b s rule: skip.induct) (subst skip.simps, auto)

lemma skip_le: "s \<le> length b \<Longrightarrow> skip P b s \<le> length b"
  by (induction P b s rule: skip.induct) (subst skip.simps, auto)

lemma ws_ge: "s \<le> skip_ws b s"
  by (simp add: skip_ws_def skip_ge)

lemma ws_le: "s \<le> length b \<Longrightarrow> skip_ws b s \<le> length b"
  by (simp add: skip_ws_def skip_le)

lemma skip_stops: "skip P b s < length b \<Longrightarrow> \<not> P (b ! skip P b s)"
proof (induction P b s rule: skip.induct)
  case (1 P b s)
  then show ?case by (cases "s < length b \<and> P (b ! s)") (auto simp: skip.simps [of P b s])
qed

lemma skip_all: "s \<le> i \<Longrightarrow> i < skip P b s \<Longrightarrow> i < length b \<and> P (b ! i)"
proof (induction P b s rule: skip.induct)
  case (1 P b s)
  then show ?case by (cases "s < length b \<and> P (b ! s)"; cases "i = s") (auto simp: skip.simps [of P b s])
qed

lemma peek_pos: "snd (peek b toks s) = skip_ws b s"
  by (simp add: peek_def Let_def)

lemma peek_True:
  assumes "fst (peek b toks s)"
  shows "skip_ws b s < length b" "b ! skip_ws b s \<in> set toks" "at b (skip_ws b s) \<noteq> 0"
  using assms by (auto simp: peek_def at_def Let_def split: if_splits)

lemma skip_ws_idem: "skip_ws b (skip_ws b s) = skip_ws b s"
  using skip_stops [of "\<lambda>c. c \<in> set whitespace" b s] unfolding skip_ws_def by (subst skip.simps) auto

text \<open>A word: it holds no separator and a separator or the end of the line follows.\<close>

definition separator :: "u8 \<Rightarrow> bool" where
  "separator c \<longleftrightarrow> c \<in> set whitespace \<or> c \<in> set symbols"

definition word_ok :: "u8 list \<Rightarrow> word_at \<Rightarrow> bool" where
  "word_ok b w \<longleftrightarrow> fst w < snd w \<and> snd w \<le> length b \<and> (\<forall>i. fst w \<le> i \<longrightarrow> i < snd w \<longrightarrow> \<not> separator (b ! i)) \<and>
     (snd w < length b \<longrightarrow> separator (b ! snd w))"

definition in_word :: "u8 \<Rightarrow> bool" where
  "in_word c \<longleftrightarrow> c \<notin> set whitespace \<and> c \<notin> set symbols"

lemma gettoken_cases:
  "gettoken b s =
     (if at b (skip_ws b s) = 0 then (0, (skip_ws b s, skip_ws b s), skip_ws b (skip_ws b s))
      else if at b (skip_ws b s) = 62 \<and> at b (skip_ws b s + 1) = 62 then (43, (skip_ws b s, skip_ws b s + 2), skip_ws b (skip_ws b s + 2))
      else if at b (skip_ws b s) \<in> set symbols then (at b (skip_ws b s), (skip_ws b s, skip_ws b s + 1), skip_ws b (skip_ws b s + 1))
      else (97, (skip_ws b s, skip in_word b (skip_ws b s)), skip_ws b (skip in_word b (skip_ws b s))))"
  unfolding gettoken_def Let_def in_word_def [abs_def] by (simp add: symbols_def)

lemma gettoken_spec:
  assumes g: "gettoken b s = (ret, w, s')" and s: "s \<le> length b"
  shows "fst w = skip_ws b s" "fst w \<le> snd w" "snd w \<le> length b" "s' = skip_ws b (snd w)"
    "at b (skip_ws b s) \<noteq> 0 \<Longrightarrow> fst w < snd w" "ret = 97 \<Longrightarrow> word_ok b w" "ret = 0 \<longleftrightarrow> at b (skip_ws b s) = 0"
proof -
  define p where "p = skip_ws b s"
  have p: "s \<le> p" "p \<le> length b" using s by (simp_all add: p_def skip_ws_def skip_ge skip_le)
  have in_p: "at b p \<noteq> 0 \<Longrightarrow> p < length b" by (simp add: at_def split: if_splits)
  consider (nul) "at b p = 0" "ret = 0" "w = (p, p)"
    | (app) "at b p \<noteq> 0" "at b (p + 1) \<noteq> 0" "ret = 43" "w = (p, p + 2)"
    | (sym) "at b p \<noteq> 0" "at b p \<in> set symbols" "ret = at b p" "w = (p, p + 1)"
    | (word) "at b p \<noteq> 0" "at b p \<notin> set symbols" "ret = 97" "w = (p, skip in_word b p)"
  proof (cases "at b p = 0")
    case True
    then show ?thesis using g that(1) by (simp add: gettoken_cases p_def)
  next
    case nz: False
    show ?thesis
    proof (cases "at b p = 62 \<and> at b (p + 1) = 62")
      case True
      then show ?thesis using g that(2) by (simp add: gettoken_cases p_def)
    next
      case False
      then show ?thesis using g nz that(3,4) by (cases "at b p \<in> set symbols") (simp_all add: gettoken_cases p_def split: if_splits)
    qed
  qed
  note c = this
  have s': "s' = skip_ws b (snd w)" "fst w = p" using g by (auto simp add: gettoken_cases p_def split: if_splits)
  have nw: "at b p \<notin> set whitespace" if "at b p \<noteq> 0"
    using skip_stops [of "\<lambda>c. c \<in> set whitespace" b s] in_p [OF that] by (simp add: at_def p_def skip_ws_def)
  have wd: "p < skip in_word b p" if "at b p \<noteq> 0" "at b p \<notin> set symbols"
  proof -
    have "p < length b" "in_word (b ! p)" using in_p nw that by (simp_all add: in_word_def at_def split: if_splits)
    then have "skip in_word b p = skip in_word b (Suc p)" by (subst skip.simps) simp
    then show ?thesis using skip_ge [of "Suc p" in_word b] by simp
  qed
  show "fst w = skip_ws b s" "s' = skip_ws b (snd w)" using s' by (simp_all add: p_def)
  show "fst w \<le> snd w" using skip_ge [of p in_word b] by (cases rule: c) simp_all
  show "snd w \<le> length b"
  proof (cases rule: c)
    case app
    then show ?thesis by (simp add: at_def split: if_splits)
  qed (use p in_p skip_le [of p b in_word] in simp_all)
  show "at b (skip_ws b s) \<noteq> 0 \<Longrightarrow> fst w < snd w" using wd unfolding p_def [symmetric] by (cases rule: c) simp_all
  show "ret = 0 \<longleftrightarrow> at b (skip_ws b s) = 0" unfolding p_def [symmetric] by (cases rule: c) simp_all
  assume "ret = 97"
  then show "word_ok b w"
  proof (cases rule: c)
    case word
    have sep: "separator c \<longleftrightarrow> \<not> in_word c" for c by (auto simp: separator_def in_word_def)
    show ?thesis unfolding word_ok_def sep not_not word(4) fst_conv snd_conv
      using wd [OF word(1,2)] skip_le [OF p(2), of in_word] skip_all [of p _ in_word b] skip_stops [of in_word b p] by blast
  qed (simp_all add: symbols_def)
qed

lemma after_token_next:
  assumes "s \<le> length b"
  shows "after_token b s \<le> length b" "s \<le> after_token b s" "fst (peek b toks s) \<Longrightarrow> s < after_token b s"
proof -
  obtain ret w s' where g: "gettoken b s = (ret, w, s')" by (cases "gettoken b s") auto
  note sp = gettoken_spec [OF g assms]
  have w: "s \<le> fst w" "snd w \<le> s'" "s' \<le> length b"
    using skip_ge [of s _ b] skip_ge [of "snd w" _ b] skip_le [OF sp(3)] sp(1,4) by (simp_all add: skip_ws_def)
  show "after_token b s \<le> length b" "s \<le> after_token b s" using w sp(2) g by (simp_all add: after_token_def)
  assume "fst (peek b toks s)"
  then have "fst w < snd w" using sp(5) peek_True(3) by blast
  then show "s < after_token b s" using w g by (simp add: after_token_def)
qed

section \<open>The parser\<close>

text \<open>A redirection that is still to be wrapped around a command: file, mode and descriptor.\<close>

type_synonym redir = "word_at \<times> u32 \<times> int"

definition redircmds :: "redir list \<Rightarrow> cmd \<Rightarrow> cmd" where
  "redircmds rs c = foldl (\<lambda>c (w, mode, fd). redircmd c w mode fd) c rs"

definition redir_of :: "u8 \<Rightarrow> word_at \<Rightarrow> redir list" where
  "redir_of tok w =
     (if tok = 60 then [(w, O_RDONLY, 0)]
      else if tok = 62 then [(w, O_WRONLY OR O_CREATE OR O_TRUNC, 1)]
      else if tok = 43 then [(w, O_WRONLY OR O_CREATE, 1)]
      else [])"

lemma pbind_cong [fundef_cong]:
  "p = p' \<Longrightarrow> (\<And>x. p' = Parsed x \<Longrightarrow> f x = g x) \<Longrightarrow> pbind p f = pbind p' g"
  by (cases p') auto

lemma peek_next:
  assumes "peek b toks s = (t, s1)"
  shows "s \<le> s1" "s \<le> length b \<Longrightarrow> s1 \<le> length b" "t \<Longrightarrow> s1 < length b \<and> fst (peek b toks s1) \<and> s1 < after_token b s1 \<and> after_token b s1 \<le> length b"
proof -
  have s1: "s1 = skip_ws b s" "t \<longleftrightarrow> fst (peek b toks s)" using assms by (auto simp: peek_def Let_def)
  show "s \<le> s1" "s \<le> length b \<Longrightarrow> s1 \<le> length b" using s1 ws_ge ws_le by simp_all
  assume "t"
  then have "s1 < length b" "fst (peek b toks s1)" using s1 peek_True(1) [of b toks s] by (simp_all add: peek_def Let_def skip_ws_idem)
  then show "s1 < length b \<and> fst (peek b toks s1) \<and> s1 < after_token b s1 \<and> after_token b s1 \<le> length b"
    using after_token_next(1,2) [of s1 b] after_token_next(3) [of s1 b toks] by simp
qed

lemma token_pair:
  assumes "peek b toks s = (True, s1)" "gettoken b s1 = (tok, w1, s2)" "gettoken b s2 = (tok2, w, s3)"
  shows "s < s3" "s3 \<le> length b" "tok2 = 97 \<Longrightarrow> word_ok b w"
proof -
  have s1: "s1 = skip_ws b s" "s1 < length b" "at b s1 \<noteq> 0" "s \<le> s1"
    using peek_pos [of b toks s] peek_True [of b toks s] assms(1) skip_ge [of s _ b] by (simp_all add: skip_ws_def)
  note g1 = gettoken_spec [OF assms(2) less_imp_le [OF s1(2)]]
  have i: "skip_ws b s1 = s1" using s1(1) skip_ws_idem by simp
  have s2: "s1 < s2" "s2 \<le> length b"
    using g1(1,4) g1(5) s1(3) i ws_ge [of "snd w1" b] ws_le [OF g1(3)] by simp_all
  note g2 = gettoken_spec [OF assms(3) s2(2)]
  show "s < s3" "s3 \<le> length b"
    using g2(1,2,4) s1(4) s2 ws_ge [of "snd w" b] ws_ge [of s2 b] ws_le [OF g2(3)] by simp_all
  show "tok2 = 97 \<Longrightarrow> word_ok b w" by (rule g2(6))
qed

text \<open>
  The loop of \<open>parseredirs\<close>: the redirections found, and the position after them. They are kept as a list because
  \<open>parseexec\<close> still adds arguments to the command inside.
\<close>

function parseredirs :: "u8 list \<Rightarrow> nat \<Rightarrow> (redir list \<times> nat) pres" where
  "parseredirs b s =
     (case peek b [60, 62] s of (t, s) \<Rightarrow>
      if t then
        (case gettoken b s of (tok, _, s) \<Rightarrow>
         case gettoken b s of (tok2, w, s) \<Rightarrow>
         if tok2 \<noteq> 97 then Panicked ''missing file for redirection''
         else pbind (parseredirs b s) (\<lambda>(rs, s). Parsed (redir_of tok w @ rs, s)))
      else Parsed ([], s))"
  by pat_completeness auto
termination
proof (relation "measure (\<lambda>(b, s). length b - s)", simp, goal_cases)
  case (1 b s t s1 tok y w1 s2 tok2 z w s3)
  then have "peek b [60, 62] s = (True, s1)" "gettoken b s1 = (tok, w1, s2)" "gettoken b s2 = (tok2, w, s3)" by simp_all
  from token_pair(1,2) [OF this] show ?case by simp
qed

declare parseredirs.simps [simp del]

text \<open>The loop of \<open>parseexec\<close> over the arguments.\<close>

function exec_loop :: "u8 list \<Rightarrow> word_at list \<Rightarrow> redir list \<Rightarrow> nat \<Rightarrow> (cmd \<times> nat) pres" where
  "exec_loop b args rs s =
     (case peek b [124, 41, 38, 59] s of (t, s) \<Rightarrow>
      if t then Parsed (redircmds rs (execcmd args), s)
      else case gettoken b s of (tok, w, s) \<Rightarrow>
        if tok = 0 then Parsed (redircmds rs (execcmd args), s)
        else if tok \<noteq> 97 then Panicked ''syntax''
        else if length args + 1 \<ge> MAXARGS then Panicked ''too many args''
        else pbind (parseredirs b s) (\<lambda>(rs', s). exec_loop b (args @ [w]) (rs @ rs') s))"
  by pat_completeness auto
termination by (relation "measure (\<lambda>(b, args, rs, s). MAXARGS - length args)") auto

declare exec_loop.simps [simp del]

text \<open>The loop of \<open>parseline\<close> over trailing \<open>&\<close>.\<close>

function back_loop :: "u8 list \<Rightarrow> cmd \<Rightarrow> nat \<Rightarrow> cmd \<times> nat" where
  "back_loop b c s = (case peek b [38] s of (t, s) \<Rightarrow> if t then back_loop b (backcmd c) (after_token b s) else (c, s))"
  by pat_completeness auto
termination
proof (relation "measure (\<lambda>(b, c, s). length b - s)", simp, goal_cases)
  case (1 b c s t s1)
  then have pk: "peek b [38] s = (True, s1)" by simp
  from peek_next(1,3) [OF pk] show ?case by (simp add: diff_less_mono2 order_le_less_trans)
qed

declare back_loop.simps [simp del]

function parseline :: "nat \<Rightarrow> u8 list \<Rightarrow> nat \<Rightarrow> (cmd \<times> nat) pres"
  and parsepipe :: "nat \<Rightarrow> u8 list \<Rightarrow> nat \<Rightarrow> (cmd \<times> nat) pres"
  and parseblock :: "nat \<Rightarrow> u8 list \<Rightarrow> nat \<Rightarrow> (cmd \<times> nat) pres"
  and parseexec :: "nat \<Rightarrow> u8 list \<Rightarrow> nat \<Rightarrow> (cmd \<times> nat) pres" where
  "parseline 0 b s = Out_of_fuel"
| "parseline (Suc n) b s =
     pbind (parsepipe n b s) (\<lambda>(c, s).
       case back_loop b c s of (c, s) \<Rightarrow>
       case peek b [59] s of (t, s) \<Rightarrow>
       if t then pbind (parseline n b (after_token b s)) (\<lambda>(c', s). Parsed (listcmd c c', s)) else Parsed (c, s))"
| "parsepipe 0 b s = Out_of_fuel"
| "parsepipe (Suc n) b s =
     pbind (parseexec n b s) (\<lambda>(c, s).
       case peek b [124] s of (t, s) \<Rightarrow>
       if t then pbind (parsepipe n b (after_token b s)) (\<lambda>(c', s). Parsed (pipecmd c c', s)) else Parsed (c, s))"
| "parseblock 0 b s = Out_of_fuel"
| "parseblock (Suc n) b s =
     (case peek b [40] s of (t, s) \<Rightarrow>
      if \<not> t then Panicked ''parseblock''
      else pbind (parseline n b (after_token b s)) (\<lambda>(c, s).
        case peek b [41] s of (t, s) \<Rightarrow>
        if \<not> t then Panicked ''syntax - missing )''
        else pbind (parseredirs b (after_token b s)) (\<lambda>(rs, s). Parsed (redircmds rs c, s))))"
| "parseexec 0 b s = Out_of_fuel"
| "parseexec (Suc n) b s =
     (case peek b [40] s of (t, s) \<Rightarrow>
      if t then parseblock n b s
      else pbind (parseredirs b s) (\<lambda>(rs, s). exec_loop b [] rs s))"
  by pat_completeness auto
termination
  by (relation "measure (case_sum (case_sum fst fst) (case_sum fst fst))") simp_all

text \<open>Writing the terminators into the buffer.\<close>

primrec nulterminate :: "cmd \<Rightarrow> u8 list \<Rightarrow> u8 list" where
  "nulterminate (EXEC args) buf = fold (\<lambda>w buf. buf[snd w := 0]) args buf"
| "nulterminate (REDIR c w mode fd) buf = (nulterminate c buf)[snd w := 0]"
| "nulterminate (PIPE l r) buf = nulterminate r (nulterminate l buf)"
| "nulterminate (LIST l r) buf = nulterminate r (nulterminate l buf)"
| "nulterminate (BACK c) buf = nulterminate c buf"

definition parsecmd :: "u8 list \<Rightarrow> (cmd \<times> u8 list) pres" where
  "parsecmd b =
     pbind (parseline (4 * length b + 4) b 0) (\<lambda>(c, s).
       case peek b [] s of (_, s) \<Rightarrow>
       if s \<noteq> length b then Panicked ''syntax'' else Parsed (c, nulterminate c (b @ [0])))"

section \<open>Well-formed trees\<close>

primrec words :: "cmd \<Rightarrow> word_at list" where
  "words (EXEC args) = args"
| "words (REDIR c w mode fd) = words c @ [w]"
| "words (PIPE l r) = words l @ words r"
| "words (LIST l r) = words l @ words r"
| "words (BACK c) = words c"

primrec args_fit :: "cmd \<Rightarrow> bool" where
  "args_fit (EXEC args) \<longleftrightarrow> length args < MAXARGS"
| "args_fit (REDIR c w mode fd) \<longleftrightarrow> args_fit c"
| "args_fit (PIPE l r) \<longleftrightarrow> args_fit l \<and> args_fit r"
| "args_fit (LIST l r) \<longleftrightarrow> args_fit l \<and> args_fit r"
| "args_fit (BACK c) \<longleftrightarrow> args_fit c"

definition cmd_ok :: "u8 list \<Rightarrow> cmd \<Rightarrow> bool" where
  "cmd_ok b c \<longleftrightarrow> list_all (word_ok b) (words c) \<and> args_fit c"

lemma cmd_ok_simps [simp]:
  "cmd_ok b (EXEC args) \<longleftrightarrow> list_all (word_ok b) args \<and> length args < MAXARGS"
  "cmd_ok b (REDIR c w mode fd) \<longleftrightarrow> cmd_ok b c \<and> word_ok b w"
  "cmd_ok b (PIPE l r) \<longleftrightarrow> cmd_ok b l \<and> cmd_ok b r" "cmd_ok b (LIST l r) \<longleftrightarrow> cmd_ok b l \<and> cmd_ok b r" "cmd_ok b (BACK c) \<longleftrightarrow> cmd_ok b c"
  by (auto simp: cmd_ok_def)

text \<open>A result that keeps to the line from \<open>s\<close> on, and never for lack of fuel.\<close>

definition redirs_ok :: "u8 list \<Rightarrow> redir list \<Rightarrow> bool" where
  "redirs_ok b rs \<longleftrightarrow> list_all (\<lambda>(w, mode, fd). word_ok b w) rs"

fun ends :: "('a \<Rightarrow> bool) \<Rightarrow> u8 list \<Rightarrow> nat \<Rightarrow> ('a \<times> nat) pres \<Rightarrow> bool" where
  "ends P b s (Parsed (x, s')) \<longleftrightarrow> s \<le> s' \<and> s' \<le> length b \<and> P x"
| "ends P b s (Panicked m) \<longleftrightarrow> True"
| "ends P b s Out_of_fuel \<longleftrightarrow> False"

lemma ends_pbind:
  assumes "ends P b s r" "\<And>x s'. r = Parsed (x, s') \<Longrightarrow> P x \<Longrightarrow> s \<le> s' \<Longrightarrow> s' \<le> length b \<Longrightarrow> ends Q b s (f (x, s'))"
  shows "ends Q b s (pbind r f)"
  using assms by (cases r) auto

lemma ends_mono: "ends P b s' r \<Longrightarrow> s \<le> s' \<Longrightarrow> ends P b s r"
  by (cases "(P, b, s', r)" rule: ends.cases) auto

lemma redircmds_ok: "redirs_ok b rs \<Longrightarrow> cmd_ok b c \<Longrightarrow> cmd_ok b (redircmds rs c)"
  unfolding redirs_ok_def redircmds_def by (induction rs arbitrary: c) auto

lemma parseredirs_ends: "s \<le> length b \<Longrightarrow> ends (redirs_ok b) b s (parseredirs b s)"
proof (induction b s rule: parseredirs.induct)
  case (1 b s)
  obtain t s1 where pk: "peek b [60, 62] s = (t, s1)" by force
  note s1 = peek_next [OF pk]
  show ?case
  proof (cases t)
    case False
    then show ?thesis using s1 1(2) pk by (subst parseredirs.simps) (simp add: redirs_ok_def)
  next
    case True
    obtain tok w1 s2 tok2 w s3 where g: "gettoken b s1 = (tok, w1, s2)" "gettoken b s2 = (tok2, w, s3)" by (metis prod_cases3)
    have "peek b [60, 62] s = (True, s1)" using pk True by simp
    note tp = token_pair [OF this g]
    have st: "parseredirs b s = (if tok2 \<noteq> 97 then Panicked ''missing file for redirection''
        else pbind (parseredirs b s3) (\<lambda>(rs, s). Parsed (redir_of tok w @ rs, s)))"
      using pk g True by (subst parseredirs.simps) simp
    show ?thesis
    proof (cases "tok2 = 97")
      case t2: True
      have "ends (redirs_ok b) b s3 (parseredirs b s3)"
        using 1(1) [OF pk [symmetric] True g(1) [symmetric] refl g(2) [symmetric] refl] t2 tp(2) by simp
      then show ?thesis unfolding st using t2 tp
        by (auto intro!: ends_pbind [OF ends_mono] simp: redirs_ok_def redir_of_def)
    qed (simp add: st)
  qed
qed

lemma exec_loop_ends:
  assumes "s \<le> length b" "list_all (word_ok b) args" "length args < MAXARGS" "redirs_ok b rs"
  shows "ends (cmd_ok b) b s (exec_loop b args rs s)"
  using assms
proof (induction b args rs s rule: exec_loop.induct)
  case (1 b args rs s)
  obtain t s1 where pk: "peek b [124, 41, 38, 59] s = (t, s1)" by force
  note s1 = peek_next [OF pk]
  obtain tok w s2 where g: "gettoken b s1 = (tok, w, s2)" by (metis prod_cases3)
  have l1: "s1 \<le> length b" using s1(2) 1(2) by simp
  note gs = gettoken_spec [OF g l1]
  have s2: "s1 \<le> s2" "s2 \<le> length b" using gs(1,2,4) ws_ge [of s1 b] ws_ge [of "snd w" b] ws_le [OF gs(3)] by simp_all
  have ok: "cmd_ok b (redircmds rs (EXEC args))" using 1 by (intro redircmds_ok) simp_all
  have st: "exec_loop b args rs s = (if t then Parsed (redircmds rs (EXEC args), s1)
      else if tok = 0 then Parsed (redircmds rs (EXEC args), s2) else if tok \<noteq> 97 then Panicked ''syntax''
      else if length args + 1 \<ge> MAXARGS then Panicked ''too many args''
      else pbind (parseredirs b s2) (\<lambda>(rs', s). exec_loop b (args @ [w]) (rs @ rs') s))"
    using pk g by (subst exec_loop.simps) simp
  show ?case
  proof (cases "\<not> t \<and> tok = 97 \<and> \<not> length args + 1 \<ge> MAXARGS")
    case True
    have "ends (cmd_ok b) b s2 (pbind (parseredirs b s2) (\<lambda>(rs', s). exec_loop b (args @ [w]) (rs @ rs') s))"
    proof (rule ends_pbind [OF parseredirs_ends [OF s2(2)]])
      fix rs' s' assume p: "parseredirs b s2 = Parsed (rs', s')" and a: "redirs_ok b rs'" "s2 \<le> s'" "s' \<le> length b"
      have "ends (cmd_ok b) b s' (exec_loop b (args @ [w]) (rs @ rs') s')"
        using True 1(3,5) a p gs(6) by (intro 1(1) [OF pk [symmetric] _ g [symmetric] refl _ _ _ _ refl]) (simp_all add: redirs_ok_def)
      then show "ends (cmd_ok b) b s2 ((\<lambda>(rs', s). exec_loop b (args @ [w]) (rs @ rs') s) (rs', s'))"
        using a by (auto intro: ends_mono)
    qed
    then show ?thesis using True s2 s1(1) by (auto simp: st intro: ends_mono)
  next
    case False
    then show ?thesis using ok s1(1) s2 l1 by (auto simp: st)
  qed
qed

lemma back_loop_ends:
  assumes "s \<le> length b" "cmd_ok b c"
  shows "s \<le> snd (back_loop b c s) \<and> snd (back_loop b c s) \<le> length b \<and> cmd_ok b (fst (back_loop b c s))"
  using assms
proof (induction b c s rule: back_loop.induct)
  case (1 b c s)
  obtain t s1 where pk: "peek b [38] s = (t, s1)" by force
  note s1 = peek_next [OF pk]
  have st: "back_loop b c s = (if t then back_loop b (BACK c) (after_token b s1) else (c, s1))" using pk by (subst back_loop.simps) simp
  show ?case
  proof (cases t)
    case True
    then show ?thesis using 1(1) [OF pk [symmetric]] s1 1(2,3) by (fastforce simp: st)
  qed (use s1 1 st in simp)
qed

lemma parseline_step:
  assumes pp: "\<And>s. s \<le> length b \<Longrightarrow> 4 * (length b - s) + 3 \<le> n \<Longrightarrow> ends (cmd_ok b) b s (parsepipe n b s)"
    and pl: "\<And>s. s \<le> length b \<Longrightarrow> 4 * (length b - s) + 4 \<le> n \<Longrightarrow> ends (cmd_ok b) b s (parseline n b s)"
    and s: "s \<le> length b" and n: "4 * (length b - s) + 4 \<le> Suc n"
  shows "ends (cmd_ok b) b s (parseline (Suc n) b s)"
proof -
  have "ends (cmd_ok b) b s (parsepipe n b s)" using pp s n by simp
  then show ?thesis unfolding parseline.simps
  proof (rule ends_pbind)
    fix c s' assume c: "cmd_ok b c" "s \<le> s'" "s' \<le> length b"
    obtain c2 s2 where bl: "back_loop b c s' = (c2, s2)" by force
    obtain t s3 where pk: "peek b [59] s2 = (t, s3)" by force
    have s2: "s' \<le> s2" "s2 \<le> length b" "cmd_ok b c2" using back_loop_ends [OF c(3,1)] bl by simp_all
    note s3 = peek_next [OF pk]
    have "ends (cmd_ok b) b s (pbind (parseline n b (after_token b s3)) (\<lambda>(c', s). Parsed (LIST c2 c', s)))" if t
    proof (rule ends_pbind)
      have "s < after_token b s3" "after_token b s3 \<le> length b" using s3(1) s3(3) [OF that] s2(1) c(2) by simp_all
      then show "ends (cmd_ok b) b s (parseline n b (after_token b s3))" using s n by (intro ends_mono [OF pl]) simp_all
    qed (use s2 in simp)
    then show "ends (cmd_ok b) b s (case (c, s') of (c, s) \<Rightarrow> case back_loop b c s of (c, s) \<Rightarrow> case peek b [59] s of (t, s) \<Rightarrow>
        if t then pbind (parseline n b (after_token b s)) (\<lambda>(c', s). Parsed (LIST c c', s)) else Parsed (c, s))"
      using s2 s3(1,2) c(2) by (simp add: bl pk)
  qed
qed

lemma parsepipe_step:
  assumes pe: "\<And>s. s \<le> length b \<Longrightarrow> 4 * (length b - s) + 2 \<le> n \<Longrightarrow> ends (cmd_ok b) b s (parseexec n b s)"
    and pp: "\<And>s. s \<le> length b \<Longrightarrow> 4 * (length b - s) + 3 \<le> n \<Longrightarrow> ends (cmd_ok b) b s (parsepipe n b s)"
    and s: "s \<le> length b" and n: "4 * (length b - s) + 3 \<le> Suc n"
  shows "ends (cmd_ok b) b s (parsepipe (Suc n) b s)"
proof -
  have "ends (cmd_ok b) b s (parseexec n b s)" using pe s n by simp
  then show ?thesis unfolding parsepipe.simps
  proof (rule ends_pbind)
    fix c s' assume c: "cmd_ok b c" "s \<le> s'" "s' \<le> length b"
    obtain t s3 where pk: "peek b [124] s' = (t, s3)" by force
    note s3 = peek_next [OF pk]
    have "ends (cmd_ok b) b s (pbind (parsepipe n b (after_token b s3)) (\<lambda>(c', s). Parsed (PIPE c c', s)))" if t
    proof (rule ends_pbind)
      have "s < after_token b s3" "after_token b s3 \<le> length b" using s3(1) s3(3) [OF that] c(2) by simp_all
      then show "ends (cmd_ok b) b s (parsepipe n b (after_token b s3))" using s n by (intro ends_mono [OF pp]) simp_all
    qed (use c in simp)
    then show "ends (cmd_ok b) b s (case (c, s') of (c, s) \<Rightarrow> case peek b [124] s of (t, s) \<Rightarrow>
        if t then pbind (parsepipe n b (after_token b s)) (\<lambda>(c', s). Parsed (PIPE c c', s)) else Parsed (c, s))"
      using s3(1,2) c by (simp add: pk)
  qed
qed

lemma parseblock_step:
  assumes pl: "\<And>s. s \<le> length b \<Longrightarrow> 4 * (length b - s) + 4 \<le> n \<Longrightarrow> ends (cmd_ok b) b s (parseline n b s)"
    and s: "s \<le> length b" and n: "4 * (length b - s) + 1 \<le> Suc n"
  shows "ends (cmd_ok b) b s (parseblock (Suc n) b s)"
proof -
  obtain t s1 where pk: "peek b [40] s = (t, s1)" by force
  note s1 = peek_next [OF pk]
  show ?thesis
  proof (cases t)
    case True
    have a1: "s < after_token b s1" "after_token b s1 \<le> length b" using s1(1) s1(3) [OF True] by simp_all
    have "ends (cmd_ok b) b s (parseline n b (after_token b s1))" using s n a1 by (intro ends_mono [OF pl]) simp_all
    then have "ends (cmd_ok b) b s (pbind (parseline n b (after_token b s1)) (\<lambda>(c, s). case peek b [41] s of (t, s) \<Rightarrow>
        if \<not> t then Panicked ''syntax - missing )''
        else pbind (parseredirs b (after_token b s)) (\<lambda>(rs, s). Parsed (redircmds rs c, s))))"
    proof (rule ends_pbind)
      fix c s' assume c: "cmd_ok b c" "s \<le> s'" "s' \<le> length b"
      obtain t' s3 where pk': "peek b [41] s' = (t', s3)" by force
      note s3 = peek_next [OF pk']
      have "ends (cmd_ok b) b s (pbind (parseredirs b (after_token b s3)) (\<lambda>(rs, s). Parsed (redircmds rs c, s)))" if t'
      proof (rule ends_pbind)
        show "ends (redirs_ok b) b s (parseredirs b (after_token b s3))"
          using s3(1) s3(3) [OF that] c(2) by (intro ends_mono [OF parseredirs_ends]) simp_all
      qed (use c redircmds_ok in simp)
      then show "ends (cmd_ok b) b s (case (c, s') of (c, s) \<Rightarrow> case peek b [41] s of (t, s) \<Rightarrow>
          if \<not> t then Panicked ''syntax - missing )''
          else pbind (parseredirs b (after_token b s)) (\<lambda>(rs, s). Parsed (redircmds rs c, s)))"
        by (simp add: pk')
    qed
    then show ?thesis using True pk by simp
  qed (simp add: pk)
qed

lemma parseexec_step:
  assumes pb: "\<And>s. s \<le> length b \<Longrightarrow> 4 * (length b - s) + 1 \<le> n \<Longrightarrow> ends (cmd_ok b) b s (parseblock n b s)"
    and s: "s \<le> length b" and n: "4 * (length b - s) + 2 \<le> Suc n"
  shows "ends (cmd_ok b) b s (parseexec (Suc n) b s)"
proof -
  obtain t s1 where pk: "peek b [40] s = (t, s1)" by force
  note s1 = peek_next [OF pk]
  have l1: "s1 \<le> length b" using s1(2) s by simp
  have "ends (cmd_ok b) b s1 (parseblock n b s1)" using pb [OF l1] n s1(1) by simp
  moreover have "ends (cmd_ok b) b s1 (pbind (parseredirs b s1) (\<lambda>(rs, s). exec_loop b [] rs s))"
    by (rule ends_pbind [OF parseredirs_ends [OF l1]]) (auto intro!: ends_mono [OF exec_loop_ends])
  ultimately show ?thesis using s1(1) by (auto simp: pk intro: ends_mono)
qed

lemma parse_ends:
  "s \<le> length b \<Longrightarrow> 4 * (length b - s) + 4 \<le> n \<Longrightarrow> ends (cmd_ok b) b s (parseline n b s)"
  "s \<le> length b \<Longrightarrow> 4 * (length b - s) + 3 \<le> n \<Longrightarrow> ends (cmd_ok b) b s (parsepipe n b s)"
  "s \<le> length b \<Longrightarrow> 4 * (length b - s) + 1 \<le> n \<Longrightarrow> ends (cmd_ok b) b s (parseblock n b s)"
  "s \<le> length b \<Longrightarrow> 4 * (length b - s) + 2 \<le> n \<Longrightarrow> ends (cmd_ok b) b s (parseexec n b s)"
proof (induction n arbitrary: s)
  case (Suc n)
  note steps = parseline_step parsepipe_step parseblock_step parseexec_step
  { case 1 show ?case by (rule steps(1) [rotated 2, OF 1]) (fact Suc.IH)+ }
  { case 2 show ?case by (rule steps(2) [rotated 2, OF 2]) (fact Suc.IH)+ }
  { case 3 show ?case by (rule steps(3) [rotated 1, OF 3]) (fact Suc.IH) }
  { case 4 show ?case by (rule steps(4) [rotated 1, OF 4]) (fact Suc.IH) }
qed auto

lemma parsecmd_ok: "case parsecmd b of Parsed (c, buf) \<Rightarrow> cmd_ok b c \<and> buf = nulterminate c (b @ [0]) | Panicked m \<Rightarrow> True | Out_of_fuel \<Rightarrow> False"
proof -
  have "ends (cmd_ok b) b 0 (parseline (4 * length b + 4) b 0)" by (rule parse_ends) simp_all
  then show ?thesis
    unfolding parsecmd_def by (cases "parseline (4 * length b + 4) b 0") (auto simp: peek_def Let_def)
qed

text \<open>
  C36: the parser of the shell ends on every command line: it returns a command or reports an error, and the fuel
  is never the reason. A command it returns has at most 9 arguments in each simple command, and all its words lie
  inside the line.
\<close>

theorem sh_parser_total:
  "case parsecmd b of Parsed (c, buf) \<Rightarrow> cmd_ok b c | Panicked m \<Rightarrow> True | Out_of_fuel \<Rightarrow> False"
  using parsecmd_ok [of b] by (auto split: pres.splits)

section \<open>The words as strings\<close>

lemma nulterminate_words: "nulterminate c buf = fold (\<lambda>w buf. buf[snd w := 0]) (words c) buf"
  by (induction c arbitrary: buf) simp_all

lemma fold_zero:
  "length (fold (\<lambda>w buf. buf[snd w := 0]) ws buf) = length buf"
  "i < length buf \<Longrightarrow> fold (\<lambda>w buf. buf[snd w := 0]) ws buf ! i = (if i \<in> snd ` set ws then 0 else buf ! i)"
  by (induction ws arbitrary: buf) (auto simp: nth_list_update)

definition cstring :: "u8 list \<Rightarrow> nat \<Rightarrow> u8 list" where
  "cstring buf q = takeWhile (\<lambda>c. c \<noteq> 0) (drop q buf)"

lemma cstring_exact:
  assumes "q \<le> eq" "eq < length buf" "\<And>i. q \<le> i \<Longrightarrow> i < eq \<Longrightarrow> buf ! i \<noteq> 0" "buf ! eq = 0"
  shows "cstring buf q = take (eq - q) (drop q buf)"
proof -
  let ?p = "take (eq - q) (drop q buf)" and ?P = "\<lambda>c :: u8. c \<noteq> 0"
  have e: "drop q buf = ?p @ 0 # drop (Suc eq) buf" using id_take_nth_drop [of "eq - q" "drop q buf"] assms(1,2,4) by simp
  have "?P x" if "x \<in> set ?p" for x using that assms(1-3) by (auto simp: in_set_conv_nth)
  then have "takeWhile ?P (?p @ 0 # drop (Suc eq) buf) = ?p" by (subst takeWhile_append2) simp_all
  then show ?thesis unfolding cstring_def by (rule trans [OF arg_cong [OF e]])
qed

text \<open>
  C37: the arguments and file names that the shell passes on are exactly the words of the line. \<open>nulterminate\<close>
  writes all terminators into the one buffer that all words share, and yet every word, read as a C string afterwards, is the
  text between its bounds, because no terminator falls inside a word.
\<close>

theorem sh_words_exact:
  assumes "parsecmd b = Parsed (c, buf)" "0 \<notin> set b" "(q, eq) \<in> set (words c)"
  shows "cstring buf q = take (eq - q) (drop q b) \<and> q < eq \<and> eq \<le> length b"
proof -
  have c: "cmd_ok b c" "buf = nulterminate c (b @ [0])" using parsecmd_ok [of b] assms(1) by simp_all
  then have ok: "word_ok b w" if "w \<in> set (words c)" for w using that by (auto simp: cmd_ok_def list_all_iff)
  have len: "length buf = Suc (length b)" and nth: "i \<le> length b \<Longrightarrow> buf ! i = (if i \<in> snd ` set (words c) then 0 else (b @ [0]) ! i)" for i
    using fold_zero(1) [of "words c" "b @ [0]"] fold_zero(2) [of i "b @ [0]" "words c"] c(2) by (simp_all only: nulterminate_words) simp_all
  note w = ok [OF assms(3), unfolded word_ok_def, simplified]
  have inside: "buf ! i = b ! i" if "q \<le> i" "i < eq" for i
  proof -
    have "i \<notin> snd ` set (words c)"
    proof
      assume "i \<in> snd ` set (words c)"
      then obtain v where "v \<in> set (words c)" "snd v = i" by auto
      then have "separator (b ! i)" using ok [of v] w that by (auto simp: word_ok_def)
      then show False using w that by blast
    qed
    then show ?thesis using nth [of i] w that by (simp add: nth_append)
  qed
  have "cstring buf q = take (eq - q) (drop q buf)"
  proof (rule cstring_exact)
    show "q \<le> eq" "eq < length buf" using w len by simp_all
    show "buf ! eq = 0" using nth [of eq] w assms(3) by force
    show "buf ! i \<noteq> 0" if "q \<le> i" "i < eq" for i 
    proof -
      have "i < length b" using w that by linarith
      then have "b ! i \<noteq> 0" using assms(2) nth_mem by metis
      then show ?thesis using inside [OF that] by simp
    qed
  qed
  also have "\<dots> = take (eq - q) (drop q b)" 
  proof (rule nth_equalityI)
    show "length (take (eq - q) (drop q buf)) = length (take (eq - q) (drop q b))" using w len by auto
    fix i assume "i < length (take (eq - q) (drop q buf))"
    then have "i < eq - q" by simp
    then show "take (eq - q) (drop q buf) ! i = take (eq - q) (drop q b) ! i" using w len inside [of "q + i"] by simp
  qed
  finally show ?thesis using w by simp
qed

section \<open>Running commands\<close>

text \<open>
  A process as the system calls it makes: each call comes with what the process does next, given the
  results of the call. \<open>exec\<close> goes on only when it fails.
\<close>

datatype ucall = Fork | Wait | Pipe2 | Close int | Dup int | Open "u8 list" u32 | Exec "u8 list" "u8 list list" | Write int "u8 list"

datatype prog = Exit int | Call ucall "int list \<Rightarrow> prog"

text \<open>\<open>fprintf\<close> writes one character at a time.\<close>

definition say :: "int \<Rightarrow> u8 list \<Rightarrow> prog \<Rightarrow> prog" where
  "say fd cs k = foldr (\<lambda>c k. Call (Write fd [c]) (\<lambda>_. k)) cs k"

definition panic_prog :: "u8 list \<Rightarrow> prog" where
  "panic_prog m = say 2 (m @ [10]) (Exit 1)"

definition fork1 :: "(int \<Rightarrow> prog) \<Rightarrow> prog" where
  "fork1 k = Call Fork (\<lambda>r. if r ! 0 = -1 then panic_prog (str ''fork'') else k (r ! 0))"

primrec runcmd :: "u8 list \<Rightarrow> cmd \<Rightarrow> prog" where
  "runcmd buf (EXEC args) =
     (if args = [] then Exit 1
      else let argv = map (\<lambda>w. cstring buf (fst w)) args in
        Call (Exec (argv ! 0) argv) (\<lambda>_. say 2 (str ''exec '' @ argv ! 0 @ str '' failed'' @ [10]) (Exit 0)))"
| "runcmd buf (REDIR c w mode fd) =
     Call (Close fd) (\<lambda>_. Call (Open (cstring buf (fst w)) mode) (\<lambda>r.
       if r ! 0 < 0 then say 2 (str ''open '' @ cstring buf (fst w) @ str '' failed'' @ [10]) (Exit 1)
       else runcmd buf c))"
| "runcmd buf (LIST l r) =
     fork1 (\<lambda>pid. if pid = 0 then runcmd buf l else Call Wait (\<lambda>_. runcmd buf r))"
| "runcmd buf (PIPE l r) =
     Call Pipe2 (\<lambda>p. if p ! 0 < 0 then panic_prog (str ''pipe'')
       else fork1 (\<lambda>pid.
         if pid = 0 then Call (Close 1) (\<lambda>_. Call (Dup (p ! 2)) (\<lambda>_. Call (Close (p ! 1)) (\<lambda>_. Call (Close (p ! 2)) (\<lambda>_. runcmd buf l))))
         else fork1 (\<lambda>pid.
           if pid = 0 then Call (Close 0) (\<lambda>_. Call (Dup (p ! 1)) (\<lambda>_. Call (Close (p ! 1)) (\<lambda>_. Call (Close (p ! 2)) (\<lambda>_. runcmd buf r))))
           else Call (Close (p ! 1)) (\<lambda>_. Call (Close (p ! 2)) (\<lambda>_. Call Wait (\<lambda>_. Call Wait (\<lambda>_. Exit 0)))))))"
| "runcmd buf (BACK c) = fork1 (\<lambda>pid. if pid = 0 then runcmd buf c else Exit 0)"

text \<open>
  What a process and its children execute, with the open files each program starts with. The calls succeed, a
  descriptor is the lowest free one, and pipes are named by the path of forks that leads to them.
\<close>

datatype ofile = Console_dev | Opened "u8 list" u32 | Pipe_read "nat list" | Pipe_write "nat list"

type_synonym fds = "ofile option list"

definition lowest :: "fds \<Rightarrow> nat" where
  "lowest fs = (case find_index (\<lambda>x. x = None) fs of Some i \<Rightarrow> i | None \<Rightarrow> length fs)"

primrec execs :: "prog \<Rightarrow> fds \<Rightarrow> nat list \<Rightarrow> (u8 list list \<times> fds) list" where
  "execs (Exit n) = (\<lambda>fs path. [])"
| "execs (Call c k) = (\<lambda>fs path. case c of
       Fork \<Rightarrow> execs (k [0]) fs (path @ [0]) @ execs (k [1]) fs (path @ [1])
     | Wait \<Rightarrow> execs (k [1]) fs path
     | Write fd bs \<Rightarrow> execs (k [1]) fs path
     | Exec file argv \<Rightarrow> [(argv, fs)]
     | Close fd \<Rightarrow> execs (k [0]) (fs[nat fd := None]) path
     | Dup fd \<Rightarrow> execs (k [int (lowest fs)]) (fs[lowest fs := fs ! nat fd]) path
     | Open file mode \<Rightarrow> execs (k [int (lowest fs)]) (fs[lowest fs := Some (Opened file mode)]) path
     | Pipe2 \<Rightarrow> (let r = lowest fs; fs1 = fs[r := Some (Pipe_read path)]; w = lowest fs1
                in execs (k [0, int r, int w]) (fs1[w := Some (Pipe_write path)]) path))"

text \<open>The table of a process with standard input, output and error and nothing else.\<close>

definition std :: "ofile \<Rightarrow> ofile \<Rightarrow> ofile \<Rightarrow> fds" where
  "std i u e = Some i # Some u # Some e # replicate 13 None"

fun pipeline :: "word_at list list \<Rightarrow> cmd" where
  "pipeline [] = EXEC []"
| "pipeline [args] = EXEC args"
| "pipeline (args # rest) = PIPE (EXEC args) (pipeline rest)"

definition argv_of :: "u8 list \<Rightarrow> word_at list \<Rightarrow> u8 list list" where
  "argv_of buf args = map (\<lambda>w. cstring buf (fst w)) args"

lemma execs_PIPE:
  "execs (runcmd buf (PIPE l r)) (std i u e) path =
     execs (runcmd buf l) (std i (Pipe_write path) e) (path @ [0]) @ execs (runcmd buf r) (std (Pipe_read path) u e) (path @ [1, 0])"
  by (simp add: std_def lowest_def fork1_def Let_def numeral_eq_Suc)

text \<open>
  C38: pipelines are wired up right. The stages of a pipeline are started with nothing open but standard input,
  output and error; each stage but the first reads from the pipe that the stage before it writes to,
  the first and the last keep the input and the output of the shell, and no stage holds an end of a pipe
  that it does not use.
\<close>

theorem sh_pipeline_wired:
  assumes "stages \<noteq> []" "[] \<notin> set stages"
  shows "execs (runcmd buf (pipeline stages)) (std i u e) path =
    map (\<lambda>k. (argv_of buf (stages ! k),
          std (if k = 0 then i else Pipe_read (path @ concat (replicate (k - 1) [1, 0])))
            (if Suc k = length stages then u else Pipe_write (path @ concat (replicate k [1, 0]))) e))
      [0..<length stages]"
  using assms
proof (induction stages arbitrary: i path rule: pipeline.induct)
  case (3 args a rest)
  let ?f = "\<lambda>k. (argv_of buf ((args # a # rest) ! k),
      std (if k = 0 then i else Pipe_read (path @ concat (replicate (k - 1) [1, 0])))
        (if Suc k = length (args # a # rest) then u else Pipe_write (path @ concat (replicate k [1, 0]))) e)"
  have head: "execs (runcmd buf (EXEC args)) (std i (Pipe_write path) e) (path @ [0]) = [?f 0]"
    using 3(3) by (auto simp: argv_of_def Let_def)
  have "execs (runcmd buf (pipeline (a # rest))) (std (Pipe_read path) u e) (path @ [1, 0]) = map (\<lambda>k. ?f (Suc k)) [0..<length (a # rest)]"
  proof (subst 3(1))
    show "map (\<lambda>k. (argv_of buf ((a # rest) ! k),
          std (if k = 0 then Pipe_read path else Pipe_read ((path @ [1, 0]) @ concat (replicate (k - 1) [1, 0])))
            (if Suc k = length (a # rest) then u else Pipe_write ((path @ [1, 0]) @ concat (replicate k [1, 0]))) e)) [0..<length (a # rest)] =
        map (\<lambda>k. ?f (Suc k)) [0..<length (a # rest)]"
    proof (rule map_cong [OF refl])
      fix k
      show "(argv_of buf ((a # rest) ! k),
          std (if k = 0 then Pipe_read path else Pipe_read ((path @ [1, 0]) @ concat (replicate (k - 1) [1, 0])))
            (if Suc k = length (a # rest) then u else Pipe_write ((path @ [1, 0]) @ concat (replicate k [1, 0]))) e) = ?f (Suc k)"
        by (cases k) simp_all
    qed
  qed (use 3(3) in auto)
  also have "\<dots> = map ?f [1..<length (args # a # rest)]" by (simp add: map_Suc_upt [symmetric] o_def del: upt_Suc)
  finally show ?case unfolding pipeline.simps execs_PIPE head by (simp add: upt_conv_Cons del: upt_Suc)
qed (auto simp: argv_of_def Let_def)

text \<open>The line \<open>ls | wc -l > f\<close>.\<close>

definition line0 :: "u8 list" where
  "line0 = str ''ls | wc -l > f''"

lemma line0_parse:
  "parsecmd line0 = Parsed (PIPE (EXEC [(0, 2)]) (REDIR (EXEC [(5, 7), (8, 10)]) (13, 14) (O_WRONLY OR O_CREATE OR O_TRUNC) 1),
     str ''ls'' @ [0] @ str ''| wc'' @ [0] @ str ''-l'' @ [0] @ str ''> f'' @ [0])"
  by code_simp

theorem sh_words_exact_witness: "cstring (snd (case parsecmd line0 of Parsed x \<Rightarrow> x)) 8 = str ''-l''"
proof -
  have "0 \<notin> set line0" by code_simp
  from sh_words_exact [OF line0_parse this, of 8 10]
  have "cstring (str ''ls'' @ [0] @ str ''| wc'' @ [0] @ str ''-l'' @ [0] @ str ''> f'' @ [0]) 8 = take (10 - 8) (drop 8 line0)" by simp
  also have "\<dots> = str ''-l''" by code_simp
  finally show ?thesis unfolding line0_parse by simp
qed

theorem sh_pipeline_wired_witness:
  "execs (runcmd (str ''a b'') (pipeline [[(0, 1)], [(2, 3)]])) (std Console_dev Console_dev Console_dev) [] =
     [(argv_of (str ''a b'') [(0, 1)], std Console_dev (Pipe_write []) Console_dev),
      (argv_of (str ''a b'') [(2, 3)], std (Pipe_read []) Console_dev Console_dev)]"
  by (subst sh_pipeline_wired) (simp_all add: upt_conv_Cons)

end
