(* ===== verification/Umalloc.thy ===== *)
theory Umalloc
  imports Prelude
begin

text \<open>
  The user-level allocator, \<^verbatim>\<open>user/umalloc.c\<close>: a circular list of free blocks in order of address. A pointer to a
  header is its byte address; \<open>h_ptr\<close> and \<open>h_size\<close> are the two fields of the headers, and adding \<open>k\<close> to such a pointer adds
  \<open>16 * k\<close>. \<open>base\<close> is the static header. \<open>sbrk\<close> is the system call as the program sees it: the process may grow up to
  \<open>brk_limit\<close>. The loops follow pointers and return \<open>None\<close> when they never end.
\<close>

section \<open>Operations\<close>

record heap =
  h_ptr :: "nat \<Rightarrow> nat"
  h_size :: "nat \<Rightarrow> u32"
  freep :: nat
  base :: nat
  brk :: nat
  brk_limit :: nat

definition set_ptr :: "nat \<Rightarrow> nat \<Rightarrow> heap \<Rightarrow> heap" where
  "set_ptr a v s = s\<lparr>h_ptr := (h_ptr s)(a := v)\<rparr>"

definition set_size :: "nat \<Rightarrow> u32 \<Rightarrow> heap \<Rightarrow> heap" where
  "set_size a v s = s\<lparr>h_size := (h_size s)(a := v)\<rparr>"

definition plus_units :: "nat \<Rightarrow> u32 \<Rightarrow> nat" where
  "plus_units p k = p + 16 * unat k"

definition sbrk :: "int \<Rightarrow> heap \<Rightarrow> nat option \<times> heap" where
  "sbrk n s =
     (if n < 0 then (Some (brk s), if nat (- n) \<le> brk s then s\<lparr>brk := brk s - nat (- n)\<rparr> else s)
      else if brk s + nat n \<le> brk_limit s then (Some (brk s), s\<lparr>brk := brk s + nat n\<rparr>)
      else (None, s))"

text \<open>The loop of \<open>free\<close>: the free block to insert after.\<close>

partial_function (option) free_place :: "heap \<Rightarrow> nat \<Rightarrow> nat \<Rightarrow> nat option" where
  "free_place s bp p =
     (if bp > p \<and> bp < h_ptr s p then Some p
      else if p \<ge> h_ptr s p \<and> (bp > p \<or> bp < h_ptr s p) then Some p
      else free_place s bp (h_ptr s p))"

text \<open>Linking the block to what follows, and to the block before it.\<close>

definition join_up :: "nat \<Rightarrow> nat \<Rightarrow> heap \<Rightarrow> heap" where
  "join_up bp p s =
     (if plus_units bp (h_size s bp) = h_ptr s p
      then set_ptr bp (h_ptr s (h_ptr s p)) (set_size bp (h_size s bp + h_size s (h_ptr s p)) s)
      else set_ptr bp (h_ptr s p) s)"

definition join_down :: "nat \<Rightarrow> nat \<Rightarrow> heap \<Rightarrow> heap" where
  "join_down bp p s =
     (if plus_units p (h_size s p) = bp
      then set_ptr p (h_ptr s bp) (set_size p (h_size s p + h_size s bp) s)
      else set_ptr p bp s)"

definition free_link :: "nat \<Rightarrow> nat \<Rightarrow> heap \<Rightarrow> heap" where
  "free_link bp p s = (join_down bp p (join_up bp p s))\<lparr>freep := p\<rparr>"

definition free :: "nat \<Rightarrow> heap \<Rightarrow> heap option" where
  "free ap s = (let bp = ap - 16 in map_option (\<lambda>p. free_link bp p s) (free_place s bp (freep s)))"

text \<open>The result is \<open>freep\<close>, or 0 when there is no memory.\<close>

definition morecore :: "u32 \<Rightarrow> heap \<Rightarrow> (nat \<times> heap) option" where
  "morecore nu s =
     (let nu = (if nu < 4096 then 4096 else nu) in
      case sbrk (s32 (16 * uint nu)) s of
        (None, s) \<Rightarrow> Some (0, s)
      | (Some hp, s) \<Rightarrow> map_option (\<lambda>s. (freep s, s)) (free (hp + 16) (set_size hp nu s)))"

definition take_block :: "u32 \<Rightarrow> nat \<Rightarrow> nat \<Rightarrow> heap \<Rightarrow> nat \<times> heap" where
  "take_block nunits prevp p s =
     (let (p, s) = (if h_size s p = nunits then (p, set_ptr prevp (h_ptr s p) s)
                    else let s = set_size p (h_size s p - nunits) s; q = plus_units p (h_size s p)
                         in (q, set_size q nunits s))
      in (p + 16, s\<lparr>freep := prevp\<rparr>))"

partial_function (option) malloc_loop :: "u32 \<Rightarrow> nat \<Rightarrow> nat \<Rightarrow> heap \<Rightarrow> (nat \<times> heap) option" where
  "malloc_loop nunits prevp p s =
     (if h_size s p \<ge> nunits then Some (take_block nunits prevp p s)
      else if p = freep s then
        Option.bind (morecore nunits s) (\<lambda>(p, s).
          if p = 0 then Some (0, s) else malloc_loop nunits p (h_ptr s p) s)
      else malloc_loop nunits p (h_ptr s p) s)"

definition units :: "u32 \<Rightarrow> u32" where
  "units nbytes = of_nat ((unat nbytes + 16 - 1) div 16 + 1)"

definition init_heap :: "heap \<Rightarrow> heap" where
  "init_heap s = (if freep s = 0 then set_size (base s) 0 (set_ptr (base s) (base s) s)\<lparr>freep := base s\<rparr> else s)"

definition malloc :: "u32 \<Rightarrow> heap \<Rightarrow> (nat \<times> heap) option" where
  "malloc nbytes s =
     (let nunits = units nbytes; s = init_heap s in malloc_loop nunits (freep s) (h_ptr s (freep s)) s)"

section \<open>Well-formed heaps\<close>

text \<open>Free blocks lie in order between \<open>lo\<close> and \<open>hi\<close>.\<close>

fun layout :: "(nat \<Rightarrow> u32) \<Rightarrow> nat \<Rightarrow> nat list \<Rightarrow> nat \<Rightarrow> bool" where
  "layout sz lo [] hi \<longleftrightarrow> lo \<le> hi"
| "layout sz lo (n # ns) hi \<longleftrightarrow> lo \<le> n \<and> 0 < sz n \<and> layout sz (plus_units n (sz n)) ns hi"

definition heap_ok :: "heap \<Rightarrow> nat list \<Rightarrow> bool" where
  "heap_ok s rest \<longleftrightarrow> 0 < base s \<and> chain (h_ptr s) (base s) rest (base s) \<and> layout (h_size s) (base s + 16) rest (brk s) \<and>
     freep s \<in> set (base s # rest) \<and> h_size s (base s) = 0 \<and> brk s \<le> brk_limit s \<and> brk_limit s < 2 ^ 35"

definition area :: "heap \<Rightarrow> nat \<Rightarrow> nat set" where
  "area s n = {n..<plus_units n (h_size s n)}"

definition free_area :: "heap \<Rightarrow> nat list \<Rightarrow> nat set" where
  "free_area s rest = (\<Union>n\<in>set rest. area s n)"

lemma heap_set_simps [simp]:
  "h_ptr (set_ptr a v s) = (h_ptr s)(a := v)" "h_size (set_ptr a v s) = h_size s" "freep (set_ptr a v s) = freep s"
  "base (set_ptr a v s) = base s" "brk (set_ptr a v s) = brk s" "brk_limit (set_ptr a v s) = brk_limit s"
  "h_size (set_size a k s) = (h_size s)(a := k)" "h_ptr (set_size a k s) = h_ptr s" "freep (set_size a k s) = freep s"
  "base (set_size a k s) = base s" "brk (set_size a k s) = brk s" "brk_limit (set_size a k s) = brk_limit s"
  by (simp_all add: set_ptr_def set_size_def)

lemma plus_units_gt: "0 < k \<Longrightarrow> p + 16 \<le> plus_units p k"
proof -
  assume "0 < k"
  then have "unat k \<noteq> 0" by (auto simp: unat_eq_0)
  then show ?thesis by (simp add: plus_units_def)
qed

lemma layout_mono: "layout sz lo ns hi \<Longrightarrow> lo' \<le> lo \<Longrightarrow> hi \<le> hi' \<Longrightarrow> layout sz lo' ns hi'"
  by (induction ns arbitrary: lo lo') auto

lemma layout_bound: "layout sz lo ns hi \<Longrightarrow> lo \<le> hi"
proof (induction ns arbitrary: lo)
  case (Cons n ns)
  then show ?case using plus_units_gt [of "sz n" n] by force
qed simp

lemma layout_mem: "layout sz lo ns hi \<Longrightarrow> n \<in> set ns \<Longrightarrow> lo \<le> n \<and> 0 < sz n \<and> plus_units n (sz n) \<le> hi"
proof (induction ns arbitrary: lo)
  case (Cons m ns)
  then show ?case using plus_units_gt [of "sz m" m] layout_bound [of sz _ ns hi] by fastforce
qed simp

lemma layout_append: "layout sz lo (xs @ n # ys) hi \<longleftrightarrow> layout sz lo xs n \<and> layout sz n (n # ys) hi"
  by (induction xs arbitrary: lo) (auto dest: layout_bound)

lemma layout_distinct: "layout sz lo ns hi \<Longrightarrow> distinct ns"
proof (induction ns arbitrary: lo)
  case (Cons n ns)
  then show ?case using layout_mem [of sz "plus_units n (sz n)" ns hi n] plus_units_gt [of "sz n" n] by fastforce
qed simp

lemma layout_cong: "(\<And>n. n \<in> set ns \<Longrightarrow> sz n = sz' n) \<Longrightarrow> layout sz lo ns hi = layout sz' lo ns hi"
  by (induction ns arbitrary: lo) auto


section \<open>Freeing\<close>

lemma merge_units:
  assumes "plus_units p k = q" "plus_units q l \<le> hi" "hi < 2 ^ 35"
  shows "plus_units p (k + l) = plus_units q l" "l \<le> k + l"
proof -
  have "unat k + unat l < 2 ^ LENGTH(32)" using assms by (simp add: plus_units_def)
  then have u: "unat (k + l) = unat k + unat l" by (simp only: unat_add_lem)
  show "plus_units p (k + l) = plus_units q l" using u assms(1) by (simp add: plus_units_def)
  show "l \<le> k + l" using u by (simp add: word_le_nat_alt)
qed

text \<open>What a change of the list keeps: the bytes it covers and the headers of all other blocks.\<close>

definition covers :: "heap \<Rightarrow> nat list \<Rightarrow> heap \<Rightarrow> nat list \<Rightarrow> bool" where
  "covers s xs s' ys \<longleftrightarrow> free_area s' ys = free_area s xs \<and> (\<forall>a. a \<notin> set xs \<longrightarrow> h_size s' a = h_size s a) \<and> set ys \<subseteq> set xs \<and>
     (\<forall>n\<in>set xs. \<exists>m\<in>set ys. h_size s n \<le> h_size s' m)"

lemma covers_trans: "covers s xs t ys \<Longrightarrow> covers t ys u zs \<Longrightarrow> covers s xs u zs"
  unfolding covers_def by (metis (no_types, lifting) order_trans subset_iff)

lemma covers_refl: "free_area s' xs = free_area s xs \<Longrightarrow> h_size s' = h_size s \<Longrightarrow> covers s xs s' xs"
  by (auto simp: covers_def)

lemma covers_merge:
  assumes "layout (h_size s) lo (xs @ p # q # ys) hi" "hi < 2 ^ 35" "plus_units p (h_size s p) = q"
      and "h_size s' = (h_size s)(p := h_size s p + h_size s q)"
  shows "covers s (xs @ p # q # ys) s' (xs @ p # ys)" "layout (h_size s') lo (xs @ p # ys) hi"
proof -
  let ?k = "h_size s p" and ?l = "h_size s q"
  have d: "distinct (xs @ p # q # ys)" using assms(1) by (rule layout_distinct)
  have q: "0 < ?k" "0 < ?l" "plus_units q ?l \<le> hi"
    using layout_mem [OF assms(1), of p] layout_mem [OF assms(1), of q] by auto
  note m = merge_units [OF assms(3) q(3) assms(2)]
  have pq: "p < q" "q < plus_units q ?l" using plus_units_gt q assms(3) by (metis add_leD1 less_add_same_cancel1 less_le_trans zero_less_numeral)+
  have ap: "area s' p = area s p \<union> area s q" using m(1) assms(3,4) pq by (auto simp: area_def)
  have eq: "area s' n = area s n" if "n \<in> set xs \<union> set ys" for n
  proof -
    have "n \<noteq> p" using that d by auto
    then show ?thesis using assms(4) by (simp add: area_def)
  qed
  have "(\<Union>n\<in>set xs. area s' n) = (\<Union>n\<in>set xs. area s n)" "(\<Union>n\<in>set ys. area s' n) = (\<Union>n\<in>set ys. area s n)"
    using eq by simp_all
  then have "free_area s' (xs @ p # ys) = free_area s (xs @ p # q # ys)" using ap by (auto simp: free_area_def)
  moreover have "?k \<le> ?k + ?l" using m(1) pq assms(3) by (simp add: plus_units_def word_le_nat_alt)
  ultimately show "covers s (xs @ p # q # ys) s' (xs @ p # ys)"
    unfolding covers_def using assms(4) m(2) by auto
  have "0 < ?k + ?l" using q(2) m(2) by (rule less_le_trans)
  moreover have "layout (h_size s) (plus_units q ?l) ys hi" "layout (h_size s) lo xs p"
    using assms(1) by (auto simp: layout_append)
  moreover have "layout (h_size s') a xs b = layout (h_size s) a xs b" "layout (h_size s') a ys b = layout (h_size s) a ys b" for a b
    using d assms(4) by (auto intro!: layout_cong)
  ultimately show "layout (h_size s') lo (xs @ p # ys) hi" using assms(4) m(1) by (simp add: layout_append)
qed

definition joined :: "heap \<Rightarrow> nat list \<Rightarrow> nat \<Rightarrow> nat list \<Rightarrow> bool" where
  "joined s xs bp ys \<longleftrightarrow> 0 < base s \<and> (\<exists>z. chain (h_ptr s) (base s) xs z) \<and> chain (h_ptr s) bp ys (base s) \<and>
     layout (h_size s) (base s + 16) (xs @ bp # ys) (brk s) \<and> h_size s (base s) = 0 \<and> brk s \<le> brk_limit s \<and> brk_limit s < 2 ^ 35"


lemma chain_upd: "b \<notin> set (a # xs) \<Longrightarrow> chain (f(b := v)) a xs z = chain f a xs z"
  by (rule chain_cong) auto

lemma chain_enter: "chain f a xs z \<Longrightarrow> b \<notin> set xs \<Longrightarrow> chain (f(b := f a)) b xs z"
  by (cases xs) (auto simp: chain_upd)

lemma chain_split: "chain f a (xs @ ys) z \<Longrightarrow> chain f a xs (hd (ys @ [z])) \<and> chain f (List.last (a # xs)) ys z"
proof (induction xs arbitrary: a)
  case Nil
  then show ?case by (cases ys) auto
qed auto

lemma join_up_ok:
  assumes "heap_ok s (xs @ ys)" "layout (h_size s) (base s + 16) (xs @ bp # ys) (brk s)" "List.last (base s # xs) = p"
  shows "\<exists>ys'. joined (join_up bp p s) xs bp ys' \<and> covers s (xs @ bp # ys) (join_up bp p s) (xs @ bp # ys')"
proof -
  let ?n = "hd (ys @ [base s])" and ?q = "plus_units bp (h_size s bp)"
  have c: "chain (h_ptr s) (base s) xs ?n" "chain (h_ptr s) p ys (base s)"
    using assms(1) chain_split [of "h_ptr s" "base s" xs ys "base s"] unfolding assms(3) by (simp_all add: heap_ok_def)
  have d: "distinct (xs @ bp # ys)" using assms(2) by (rule layout_distinct)
  have bp: "base s < bp" using layout_mem [OF assms(2), of bp] by simp
  have nb: "bp \<notin> set (base s # xs)" "bp \<notin> set ys" using bp d by auto
  have pn: "h_ptr s p = ?n" using chain_last [OF c(1)] unfolding assms(3) .
  have cx: "chain (h_ptr (join_up bp p s)) (base s) xs ?n"
    using c(1) nb(1) by (simp add: join_up_def chain_upd)
  have b: "0 < base s" "h_size s (base s) = 0" "brk s \<le> brk_limit s" "brk_limit s < 2 ^ 35"
    using assms(1) by (simp_all add: heap_ok_def)
  show ?thesis
  proof (cases "?q = ?n")
    case False
    then have u: "join_up bp p s = set_ptr bp (h_ptr s p) s" using pn by (simp add: join_up_def)
    have "joined (join_up bp p s) xs bp ys" using cx assms(2) b chain_enter [OF c(2) nb(2)] by (auto simp: joined_def u)
    moreover have "covers s (xs @ bp # ys) (join_up bp p s) (xs @ bp # ys)"
      by (rule covers_refl) (simp_all add: u free_area_def area_def)
    ultimately show ?thesis by blast
  next
    case True
    then obtain n zs where y: "ys = n # zs" "?n = n" using plus_units_gt [of "h_size s bp" bp] bp layout_mem [OF assms(2), of bp]
      by (cases ys) auto
    have u: "join_up bp p s = set_ptr bp (h_ptr s n) (set_size bp (h_size s bp + h_size s n) s)"
      using pn True y by (simp add: join_up_def)
    have l: "layout (h_size s) (base s + 16) (xs @ bp # n # zs) (brk s)" "brk s < 2 ^ 35" "?q = n"
      using assms(2) y True b by auto
    have sz: "h_size (join_up bp p s) = (h_size s)(bp := h_size s bp + h_size s n)" using u by simp
    have "chain (h_ptr s) n zs (base s)" "bp \<notin> set zs" using c(2) nb y by auto
    then have "joined (join_up bp p s) xs bp zs"
      using cx covers_merge(2) [OF l sz] b bp chain_enter by (auto simp: joined_def u)
    then show ?thesis using covers_merge(1) [OF l sz] y by blast
  qed
qed

lemma join_down_ok:
  assumes "joined s xs bp ys" "List.last (base s # xs) = p" "s' = (join_down bp p s)\<lparr>freep := p\<rparr>"
  shows "\<exists>rest. heap_ok s' rest \<and> covers s (xs @ bp # ys) s' rest"
proof -
  obtain z where j: "0 < base s" "chain (h_ptr s) (base s) xs z" "chain (h_ptr s) bp ys (base s)"
     "layout (h_size s) (base s + 16) (xs @ bp # ys) (brk s)" "h_size s (base s) = 0" "brk s \<le> brk_limit s" "brk_limit s < 2 ^ 35"
    using assms by (auto simp: joined_def)
  have ge: "base s + 16 \<le> n" if "n \<in> set (xs @ bp # ys)" for n using layout_mem [OF j(4) that] by simp
  have d: "distinct (base s # xs @ bp # ys)" using layout_distinct [OF j(4)] ge by fastforce
  have pin: "p \<in> set (base s # xs)" unfolding assms(2) [symmetric] by (rule last_in_set) simp
  then have np: "p \<notin> set (bp # ys)" using d by auto
  show ?thesis
  proof (cases "plus_units p (h_size s p) = bp")
    case False
    then have u: "s' = (set_ptr p bp s)\<lparr>freep := p\<rparr>" using assms(3) by (simp add: join_down_def)
    have "chain ((h_ptr s)(p := bp)) (base s) xs bp"
      using chain_redirect [OF j(2), of bp] d unfolding assms(2) by auto
    moreover have "chain ((h_ptr s)(p := bp)) bp ys (base s)" using j(3) np by (simp add: chain_upd)
    ultimately have "heap_ok s' (xs @ bp # ys)" using j pin u by (auto simp: heap_ok_def chain_append)
    moreover have "covers s (xs @ bp # ys) s' (xs @ bp # ys)"
      by (rule covers_refl) (simp_all add: u free_area_def area_def)
    ultimately show ?thesis by blast
  next
    case True
    have pb: "p \<noteq> base s" using True j(5) ge [of bp] by (auto simp: plus_units_def)
    then obtain us where x: "xs = us @ [p]" using assms(2) by (metis append_butlast_last_id last.simps)
    have u: "s' = (set_ptr p (h_ptr s bp) (set_size p (h_size s p + h_size s bp) s))\<lparr>freep := p\<rparr>"
      using True assms(3) by (simp add: join_down_def)
    have l: "layout (h_size s) (base s + 16) (us @ p # bp # ys) (brk s)" "brk s < 2 ^ 35" using j x by simp_all
    have sz: "h_size s' = (h_size s)(p := h_size s p + h_size s bp)" using u by simp
    have "chain ((h_ptr s)(p := h_ptr s bp)) (base s) us p" using j(2) d pb by (simp add: x chain_append chain_upd)
    moreover have "chain ((h_ptr s)(p := h_ptr s bp)) p ys (base s)" using chain_enter [OF j(3)] np by simp
    ultimately have "heap_ok s' (us @ p # ys)"
      using j pb covers_merge(2) [OF l True sz] u by (simp add: heap_ok_def chain_append)
    moreover have "covers s (xs @ bp # ys) s' (us @ p # ys)" using covers_merge(1) [OF l True sz] x by simp
    ultimately show ?thesis by blast
  qed
qed

lemma free_link_ok:
  assumes "heap_ok s (xs @ ys)" "layout (h_size s) (base s + 16) (xs @ bp # ys) (brk s)" "List.last (base s # xs) = p"
  shows "\<exists>rest. heap_ok (free_link bp p s) rest \<and> covers s (xs @ bp # ys) (free_link bp p s) rest"
proof -
  have "base (join_up bp p s) = base s" by (simp add: join_up_def)
  then show ?thesis
    using join_up_ok [OF assms] join_down_ok [of "join_up bp p s" xs bp _ p "free_link bp p s"] assms(3) covers_trans
    by (auto simp only: free_link_def) blast
qed

text \<open>The search of \<open>free\<close> ends at the block just below \<open>bp\<close>, wherever it starts.\<close>

definition stops :: "heap \<Rightarrow> nat \<Rightarrow> nat \<Rightarrow> bool" where
  "stops s bp p \<longleftrightarrow> bp > p \<and> bp < h_ptr s p \<or> p \<ge> h_ptr s p \<and> (bp > p \<or> bp < h_ptr s p)"

lemma free_place_step: "free_place s bp p = (if stops s bp p then Some p else free_place s bp (h_ptr s p))"
  by (subst free_place.simps) (auto simp: stops_def)

lemma free_place_front:
  "chain (h_ptr s) a xs z \<Longrightarrow> \<forall>n\<in>set (butlast (a # xs)). \<not> stops s bp n \<Longrightarrow> stops s bp (List.last (a # xs)) \<Longrightarrow>
   n \<in> set (a # xs) \<Longrightarrow> free_place s bp n = Some (List.last (a # xs))"
proof (induction xs arbitrary: a n)
  case Nil
  then show ?case using free_place_step [of s bp a] by simp
next
  case (Cons x xs)
  then have x: "free_place s bp m = Some (List.last (x # xs))" if "m \<in> set (x # xs)" for m using that by simp
  have "free_place s bp a = free_place s bp x" using Cons.prems free_place_step [of s bp a] by simp
  then show ?case using x Cons.prems(4) by auto
qed

lemma free_place_back:
  "chain (h_ptr s) a xs z \<Longrightarrow> \<forall>n\<in>set (a # xs). \<not> stops s bp n \<Longrightarrow> n \<in> set (a # xs) \<Longrightarrow> free_place s bp n = free_place s bp z"
proof (induction xs arbitrary: a n)
  case Nil
  then show ?case using free_place_step [of s bp a] by simp
next
  case (Cons x xs)
  then have x: "free_place s bp m = free_place s bp z" if "m \<in> set (x # xs)" for m
    using that Cons.IH [of x m] by simp
  have "free_place s bp a = free_place s bp x" using Cons.prems free_place_step [of s bp a] by simp
  then show ?case using x Cons.prems(3) by auto
qed

lemma chain_next: "chain f a xs z \<Longrightarrow> a # xs = us @ n # vs \<Longrightarrow> f n = hd (vs @ [z])"
  by (cases us; cases vs) (auto simp: chain_append)

lemma layout_sorted: "layout sz lo ns hi \<Longrightarrow> sorted_wrt (<) ns"
proof (induction ns arbitrary: lo)
  case (Cons n ns)
  then have "n < m" if "m \<in> set ns" for m
    using that layout_mem [of sz "plus_units n (sz n)" ns hi m] plus_units_gt [of "sz n" n] by fastforce
  then show ?case using Cons by auto
qed simp

lemma in_butlast: "n \<in> set (butlast xs) \<Longrightarrow> \<exists>us v vs. xs = us @ n # v # vs"
proof (induction xs)
  case (Cons x xs)
  show ?case
  proof (cases "n = x")
    case True
    then obtain v vs where "x # xs = [] @ n # v # vs" using Cons.prems by (cases xs) auto
    then show ?thesis by blast
  next
    case False
    then obtain us v vs where "xs = us @ n # v # vs" using Cons by (auto split: if_splits)
    then have "x # xs = (x # us) @ n # v # vs" by simp
    then show ?thesis by blast
  qed
qed simp

lemma free_place_ok:
  assumes "heap_ok s (xs @ ys)" "layout (h_size s) (base s + 16) (xs @ bp # ys) (brk s)" "List.last (base s # xs) = p"
      and "n \<in> set (base s # xs @ ys)"
  shows "free_place s bp n = Some p"
proof -
  have c: "chain (h_ptr s) (base s) (xs @ ys) (base s)" using assms(1) by (simp add: heap_ok_def)
  have st: "sorted_wrt (<) (base s # xs @ bp # ys)"
    using layout_sorted [OF assms(2)] layout_mem [OF assms(2)] by fastforce
  have front: "\<not> stops s bp m" if m: "m \<in> set (butlast (base s # xs))" for m
  proof -
    obtain us v vs where e: "base s # xs = us @ m # v # vs" using in_butlast [OF m] by blast
    then have a: "base s # xs @ zs = us @ m # v # vs @ zs" for zs by (metis append.assoc append_Cons)
    have "h_ptr s m = v" using chain_next [OF c a [of ys]] by simp
    moreover have "m < v" "v < bp" using st unfolding a [of "bp # ys"] by (auto simp: sorted_wrt_append)
    ultimately show ?thesis by (simp add: stops_def)
  qed
  have rear: "\<not> stops s bp m" if m: "m \<in> set ys" for m
  proof -
    obtain us vs where e: "ys = us @ m # vs" using m by (meson split_list)
    then have h: "h_ptr s m = hd (vs @ [base s])" using chain_next [OF c, of "base s # xs @ us" m vs] by simp
    have "base s < bp" "bp < m" "\<forall>v\<in>set vs. m < v" using st by (auto simp: e sorted_wrt_append)
    then show ?thesis using h by (cases vs) (auto simp: stops_def)
  qed
  have cp: "chain (h_ptr s) (base s) xs (hd (ys @ [base s]))" "chain (h_ptr s) p ys (base s)"
    using chain_split [OF c] unfolding assms(3) by auto
  have pin: "p \<in> set (base s # xs)" unfolding assms(3) [symmetric] by (rule last_in_set) simp
  have "p < bp" "base s \<le> p" using st pin by (auto simp: sorted_wrt_append less_imp_le)
  moreover have "h_ptr s p = hd (ys @ [base s])" using chain_last [OF cp(1)] unfolding assms(3) .
  moreover have "\<forall>y\<in>set ys. bp < y" using st by (auto simp: sorted_wrt_append)
  ultimately have "stops s bp p" by (cases ys) (auto simp: stops_def)
  then have f: "free_place s bp m = Some p" if "m \<in> set (base s # xs)" for m
    using free_place_front [OF cp(1) _ _ that] front unfolding assms(3) by blast
  have "free_place s bp m = Some p" if m: "m \<in> set ys" for m
  proof -
    obtain y zs where y: "ys = y # zs" using m by (cases ys) auto
    then have "chain (h_ptr s) y zs (base s)" using cp(2) by simp
    then show ?thesis using free_place_back [of s y zs "base s" bp m] rear m y f by simp
  qed
  then show ?thesis using f assms(4) by auto
qed

lemma layout_insert:
  assumes "layout sz lo ns hi" "lo \<le> bp" "0 < sz bp" "plus_units bp (sz bp) \<le> hi"
      and "\<forall>n\<in>set ns. {n..<plus_units n (sz n)} \<inter> {bp..<plus_units bp (sz bp)} = {}"
  shows "\<exists>xs ys. ns = xs @ ys \<and> layout sz lo (xs @ bp # ys) hi"
  using assms
proof (induction ns arbitrary: lo)
  case Nil
  then show ?case by auto
next
  case (Cons n ns)
  have gt: "n < plus_units n (sz n)" "bp < plus_units bp (sz bp)"
    using Cons.prems plus_units_gt [of "sz n" n] plus_units_gt [of "sz bp" bp] by auto
  have dj: "{n..<plus_units n (sz n)} \<inter> {bp..<plus_units bp (sz bp)} = {}" using Cons.prems by simp
  show ?case
  proof (cases "bp < n")
    case True
    have "plus_units bp (sz bp) \<le> n"
    proof (rule ccontr)
      assume "\<not> ?thesis"
      then have "n \<in> {n..<plus_units n (sz n)} \<inter> {bp..<plus_units bp (sz bp)}" using gt True by simp
      then show False using dj by blast
    qed
    then have "layout sz lo ([] @ bp # n # ns) hi" using Cons.prems by simp
    then show ?thesis by blast
  next
    case False
    have "plus_units n (sz n) \<le> bp"
    proof (rule ccontr)
      assume "\<not> ?thesis"
      then have "bp \<in> {n..<plus_units n (sz n)} \<inter> {bp..<plus_units bp (sz bp)}" using gt False by simp
      then show False using dj by blast
    qed
    then obtain xs ys where "ns = xs @ ys" "layout sz (plus_units n (sz n)) (xs @ bp # ys) hi"
      using Cons.IH [of "plus_units n (sz n)"] Cons.prems by auto
    then have "n # ns = (n # xs) @ ys \<and> layout sz lo ((n # xs) @ bp # ys) hi" using Cons.prems(1) by simp
    then show ?thesis by blast
  qed
qed

lemma free_link_frame:
  "base (free_link bp p s) = base s" "brk (free_link bp p s) = brk s" "brk_limit (free_link bp p s) = brk_limit s"
  "freep (free_link bp p s) = p"
  by (simp_all add: free_link_def join_up_def join_down_def)

text \<open>A block that the list does not hold yet can be returned.\<close>

definition returnable :: "heap \<Rightarrow> nat list \<Rightarrow> nat \<Rightarrow> bool" where
  "returnable s rest bp \<longleftrightarrow> base s + 16 \<le> bp \<and> 0 < h_size s bp \<and> plus_units bp (h_size s bp) \<le> brk s \<and>
     area s bp \<inter> free_area s rest = {}"

lemma free_ok:
  assumes "heap_ok s rest" "returnable s rest bp"
  obtains s' rest' where "free (bp + 16) s = Some s'" "heap_ok s' rest'" "covers s (bp # rest) s' rest'"
    "base s' = base s" "brk s' = brk s" "brk_limit s' = brk_limit s"
proof -
  have l: "layout (h_size s) (base s + 16) rest (brk s)" using assms(1) by (simp add: heap_ok_def)
  have "\<forall>n\<in>set rest. {n..<plus_units n (h_size s n)} \<inter> {bp..<plus_units bp (h_size s bp)} = {}"
    using assms(2) unfolding returnable_def free_area_def area_def by blast
  then obtain xs ys where e: "rest = xs @ ys" "layout (h_size s) (base s + 16) (xs @ bp # ys) (brk s)"
    using layout_insert [OF l] assms(2) unfolding returnable_def by blast
  have h: "heap_ok s (xs @ ys)" "freep s \<in> set (base s # xs @ ys)" using assms(1) e by (simp_all add: heap_ok_def)
  let ?p = "List.last (base s # xs)"
  have f: "free (bp + 16) s = Some (free_link bp ?p s)" using free_place_ok [OF h(1) e(2) refl h(2)] by (simp add: free_def)
  obtain rest' where r: "heap_ok (free_link bp ?p s) rest'" "covers s (xs @ bp # ys) (free_link bp ?p s) rest'"
    using free_link_ok [OF h(1) e(2) refl] by blast
  have "covers s (bp # rest) (free_link bp ?p s) rest'" using r(2) by (simp add: covers_def e(1) free_area_def Un_ac)
  then show ?thesis using that f r(1) free_link_frame by blast
qed


section \<open>Allocating\<close>

lemma layout_join: "layout sz lo us m \<Longrightarrow> layout sz m vs hi \<Longrightarrow> layout sz lo (us @ vs) hi"
  by (induction us arbitrary: lo) (auto intro: layout_mono)

lemma layout_disjoint:
  assumes "layout sz lo (us @ p # vs) hi" "n \<in> set (us @ vs)"
  shows "{n..<plus_units n (sz n)} \<inter> {p..<plus_units p (sz p)} = {}"
proof -
  have l: "layout sz lo us p" "layout sz (plus_units p (sz p)) vs hi" using assms(1) by (simp_all add: layout_append)
  show ?thesis
  proof (cases "n \<in> set us")
    case True
    then show ?thesis using layout_mem [OF l(1), of n] by auto
  next
    case False
    then show ?thesis using layout_mem [OF l(2), of n] assms(2) by auto
  qed
qed

lemma chain_remove:
  assumes "chain f a xs z" "distinct (a # xs)" "a # xs = us @ n # p # vs"
  shows "chain (f(n := f p)) a (tl (us @ n # vs)) z"
proof -
  have "chain f p vs z" "n \<notin> set vs" using assms by (cases us; auto simp: chain_append)+
  then have n: "chain (f(n := f p)) n vs z" by (rule chain_enter)
  show ?thesis
  proof (cases us)
    case Nil
    then show ?thesis using n assms(3) by simp
  next
    case (Cons u ws)
    then have "chain (f(n := f p)) a ws n" using assms by (auto simp: chain_append chain_upd)
    then show ?thesis using n Cons by (simp add: chain_append)
  qed
qed

text \<open>Taking a block of \<open>nunits\<close> units at \<open>q\<close> out of the free area.\<close>

definition taken_from :: "heap \<Rightarrow> nat list \<Rightarrow> u32 \<Rightarrow> nat \<Rightarrow> heap \<Rightarrow> nat list \<Rightarrow> bool" where
  "taken_from s rest nunits q s' rest' \<longleftrightarrow> heap_ok s' rest' \<and> base s + 16 \<le> q \<and> h_size s' q = nunits \<and>
     {q..<plus_units q nunits} \<inter> free_area s' rest' = {} \<and>
     free_area s' rest' \<union> {q..<plus_units q nunits} = free_area s rest \<and>
     (\<forall>a. a \<notin> free_area s rest \<longrightarrow> h_size s' a = h_size s a) \<and>
     base s' = base s \<and> brk s' = brk s \<and> brk_limit s' = brk_limit s"

lemma take_whole:
  assumes "heap_ok s rest" "n \<in> set (base s # rest)" "h_ptr s n = p" "p \<noteq> base s"
  shows "\<exists>rest'. taken_from s rest (h_size s p) p ((set_ptr n (h_ptr s p) s)\<lparr>freep := n\<rparr>) rest'"
proof -
  let ?s = "(set_ptr n (h_ptr s p) s)\<lparr>freep := n\<rparr>"
  have h: "chain (h_ptr s) (base s) rest (base s)" "layout (h_size s) (base s + 16) rest (brk s)"
    using assms(1) by (simp_all add: heap_ok_def)
  have d: "distinct (base s # rest)" using layout_distinct [OF h(2)] layout_mem [OF h(2), of "base s"] by auto
  obtain us ws where "base s # rest = us @ n # ws" using assms(2) by (meson split_list)
  moreover have "hd (ws @ [base s]) = p" using chain_next [OF h(1) calculation] assms(3) by simp
  ultimately obtain vs where e: "base s # rest = us @ n # p # vs" using assms(4) by (cases ws) auto
  obtain xs where x: "rest = xs @ p # vs" "tl (us @ n # vs) = xs @ vs" using e by (cases us) auto
  have l: "layout (h_size s) (base s + 16) (xs @ vs) (brk s)"
  proof -
    have "layout (h_size s) (base s + 16) xs p" "layout (h_size s) p vs (brk s)"
      using h(2) layout_mono [of "h_size s" "plus_units p (h_size s p)" vs "brk s" p "brk s"] by (auto simp: x layout_append plus_units_def)
    then show ?thesis by (rule layout_join)
  qed
  have "n \<in> set (base s # xs @ vs)" using e x(2) by (cases us) auto
  then have ok: "heap_ok ?s (xs @ vs)"
    using assms(1) l chain_remove [OF h(1) d e] by (simp add: heap_ok_def x)
  have ar: "free_area ?s (xs @ vs) = (\<Union>m\<in>set (xs @ vs). area s m)" by (simp add: free_area_def area_def)
  have "area s p \<inter> (\<Union>m\<in>set (xs @ vs). area s m) = {}"
    using layout_disjoint [of "h_size s" _ xs p vs] h(2) unfolding x area_def by blast
  moreover have "(\<Union>m\<in>set (xs @ vs). area s m) \<union> area s p = free_area s rest" by (auto simp: free_area_def x)
  moreover have "base s + 16 \<le> p" using layout_mem [OF h(2), of p] x by simp
  ultimately have "taken_from s rest (h_size s p) p ?s (xs @ vs)" using ok ar by (simp add: taken_from_def area_def)
  then show ?thesis by blast
qed

lemma split_units:
  assumes "nunits < (k :: u32)"
  shows "0 < k - nunits" "plus_units (plus_units p (k - nunits)) nunits = plus_units p k"
proof -
  have "unat (k - nunits) = unat k - unat nunits" using assms by (intro unat_sub) simp
  moreover have "unat nunits < unat k" using assms by (simp add: word_less_nat_alt)
  ultimately show "0 < k - nunits" "plus_units (plus_units p (k - nunits)) nunits = plus_units p k"
    by (simp_all add: plus_units_def word_less_nat_alt)
qed

lemma take_part:
  assumes "heap_ok s rest" "n \<in> set (base s # rest)" "p \<in> set rest" "0 < nunits" "nunits < h_size s p"
      and q: "q = plus_units p (h_size s p - nunits)"
  shows "taken_from s rest nunits q ((set_size q nunits (set_size p (h_size s p - nunits) s))\<lparr>freep := n\<rparr>) rest"
proof -
  let ?k = "h_size s p - nunits"
  let ?s = "(set_size q nunits (set_size p ?k s))\<lparr>freep := n\<rparr>"
  have l: "layout (h_size s) (base s + 16) rest (brk s)" using assms(1) by (simp add: heap_ok_def)
  obtain us vs where e: "rest = us @ p # vs" using assms(3) by (meson split_list)
  note u = split_units [OF assms(5)]
  have pq: "p < q" "q < plus_units q nunits" "plus_units q nunits = plus_units p (h_size s p)" "base s + 16 \<le> p"
    using u(1) u(2) [of p] plus_units_gt [of ?k p] plus_units_gt [OF assms(4), of q] layout_mem [OF l assms(3)] by (auto simp: q)
  have dj: "area s m \<inter> area s p = {}" if "m \<in> set (us @ vs)" for m
    using layout_disjoint [OF l [unfolded e] that] by (simp add: area_def)
  have ne: "m \<noteq> p \<and> m \<noteq> q" if m: "m \<in> set (us @ vs)" for m
  proof -
    have "m < plus_units m (h_size s m)" using plus_units_gt [of "h_size s m" m] layout_mem [OF l, of m] m by (auto simp: e)
    then have "m \<in> area s m" by (simp add: area_def)
    then have "m \<notin> area s p" using dj [OF m] by blast
    then show ?thesis using pq by (auto simp: area_def)
  qed
  have am: "area ?s m = area s m" if "m \<in> set (us @ vs)" for m using ne [OF that] by (simp add: area_def)
  have ap: "area ?s p = {p..<q}" using pq(1) q by (simp add: area_def)
  have lu: "layout (h_size ?s) a us b = layout (h_size s) a us b" "layout (h_size ?s) a vs b = layout (h_size s) a vs b" for a b
    using ne by (auto intro!: layout_cong)
  have "layout (h_size s) (base s + 16) us p" "layout (h_size s) (plus_units p (h_size s p)) vs (brk s)"
    using l by (simp_all add: e layout_append)
  moreover have "q \<le> plus_units p (h_size s p)" using pq by simp
  ultimately have "layout (h_size ?s) (base s + 16) rest (brk s)"
    unfolding e layout_append layout.simps lu using pq(1) u(1) layout_mono q by (fastforce simp: fun_upd_def)
  then have ok: "heap_ok ?s rest" using assms(1,2) pq by (auto simp: heap_ok_def)
  have fa: "free_area ?s rest = (\<Union>m\<in>set (us @ vs). area s m) \<union> {p..<q}" "free_area s rest = (\<Union>m\<in>set (us @ vs). area s m) \<union> area s p"
    using am ap by (auto simp: free_area_def e)
  have "area s p = {p..<q} \<union> {q..<plus_units q nunits}" using pq by (auto simp: area_def)
  moreover have "{q..<plus_units q nunits} \<inter> (\<Union>m\<in>set (us @ vs). area s m) = {}" using dj calculation by blast
  moreover have "p \<in> area s p" "q \<in> area s p" using pq by (auto simp: area_def)
  ultimately show ?thesis using ok pq by (auto simp: taken_from_def fa)
qed

lemma take_block_ok:
  assumes "heap_ok s rest" "n \<in> set (base s # rest)" "h_ptr s n = p" "p \<in> set rest" "0 < nunits" "nunits \<le> h_size s p"
  obtains q s' rest' where "take_block nunits n p s = (q + 16, s')" "taken_from s rest nunits q s' rest'"
proof (cases "h_size s p = nunits")
  case True
  have "layout (h_size s) (base s + 16) rest (brk s)" using assms(1) by (simp add: heap_ok_def)
  then have "p \<noteq> base s" using layout_mem [of "h_size s" "base s + 16" rest "brk s" p] assms(4) by auto
  then obtain rest' where "taken_from s rest nunits p ((set_ptr n (h_ptr s p) s)\<lparr>freep := n\<rparr>) rest'"
    using take_whole [OF assms(1-3)] True by blast
  then show ?thesis using that True by (simp add: take_block_def)
next
  case False
  let ?q = "plus_units p (h_size s p - nunits)"
  have "nunits < h_size s p" using False assms(6) by simp
  then have "taken_from s rest nunits ?q ((set_size ?q nunits (set_size p (h_size s p - nunits) s))\<lparr>freep := n\<rparr>) rest"
    using take_part [OF assms(1,2,4,5)] by blast
  then show ?thesis using that False by (simp add: take_block_def Let_def)
qed


text \<open>The search of \<open>malloc\<close> goes once round the list.\<close>

lemma malloc_loop_small:
  assumes "h_size s p < nunits"
  shows "malloc_loop nunits n p s =
    (if p = freep s then
       Option.bind (morecore nunits s) (\<lambda>(p, s). if p = 0 then Some (0, s) else malloc_loop nunits p (h_ptr s p) s)
     else malloc_loop nunits p (h_ptr s p) s)"
proof -
  have "\<not> nunits \<le> h_size s p" using assms by (simp only: not_le)
  then show ?thesis by (subst malloc_loop.simps) (simp only: if_False)
qed

lemma malloc_loop_walk:
  "chain (h_ptr s) a xs z \<Longrightarrow> \<forall>n\<in>set xs. h_size s n < nunits \<and> n \<noteq> freep s \<Longrightarrow>
   malloc_loop nunits a (h_ptr s a) s = malloc_loop nunits (List.last (a # xs)) z s"
proof (induction xs arbitrary: a)
  case (Cons x xs)
  then have "malloc_loop nunits a x s = malloc_loop nunits x (h_ptr s x) s" by (simp add: malloc_loop_small)
  moreover have "malloc_loop nunits x (h_ptr s x) s = malloc_loop nunits (List.last (x # xs)) z s"
    using Cons.prems by (intro Cons.IH) auto
  ultimately show ?case using Cons.prems(1) by simp
qed simp

lemma chain_rotate:
  assumes "chain f a xs a" "a # xs = us @ n # vs"
  shows "chain f n (vs @ us) n"
proof (cases us)
  case Nil
  then show ?thesis using assms by simp
next
  case (Cons u ws)
  then have "chain f a ws n" "chain f n vs a" using assms by (auto simp: chain_append)
  then show ?thesis using Cons assms(2) by (simp add: chain_append)
qed

lemma heap_ring:
  assumes "heap_ok s rest"
  obtains ns where "chain (h_ptr s) (freep s) ns (freep s)" "distinct (freep s # ns)" "set (freep s # ns) = set (base s # rest)"
proof -
  have h: "chain (h_ptr s) (base s) rest (base s)" "layout (h_size s) (base s + 16) rest (brk s)" "freep s \<in> set (base s # rest)"
    using assms by (simp_all add: heap_ok_def)
  obtain us vs where e: "base s # rest = us @ freep s # vs" using h(3) by (meson split_list)
  have d: "distinct (base s # rest)" using layout_distinct [OF h(2)] layout_mem [OF h(2), of "base s"] by auto
  have "distinct (freep s # vs @ us)" "set (freep s # vs @ us) = set (base s # rest)" using d unfolding e by auto
  then show ?thesis using that chain_rotate [OF h(1) e] by blast
qed

lemma malloc_loop_found:
  assumes "heap_ok s rest" "m \<in> set rest" "nunits \<le> h_size s m" "0 < nunits"
  obtains n p where "malloc_loop nunits (freep s) (h_ptr s (freep s)) s = Some (take_block nunits n p s)"
    "n \<in> set (base s # rest)" "h_ptr s n = p" "p \<in> set rest" "nunits \<le> h_size s p"
proof -
  obtain ns where r: "chain (h_ptr s) (freep s) ns (freep s)" "distinct (freep s # ns)" "set (freep s # ns) = set (base s # rest)"
    using heap_ring [OF assms(1)] .
  have "m \<in> set (ns @ [freep s])" using assms(2) r(3) by auto
  then obtain us p vs where u: "ns @ [freep s] = us @ p # vs" "nunits \<le> h_size s p" "\<forall>n\<in>set us. \<not> nunits \<le> h_size s n"
    using assms(3) split_list_first_prop [of "ns @ [freep s]" "\<lambda>n. nunits \<le> h_size s n"] by blast
  have c: "chain (h_ptr s) (freep s) us p" "set us \<subseteq> set ns"
  proof -
    show "chain (h_ptr s) (freep s) us p" using r(1) u(1) by (cases vs rule: rev_cases) (auto simp: chain_append)
    show "set us \<subseteq> set ns" using u(1) by (cases vs rule: rev_cases) auto
  qed
  then have w: "malloc_loop nunits (freep s) (h_ptr s (freep s)) s = malloc_loop nunits (List.last (freep s # us)) p s"
    using u(3) r(2) by (intro malloc_loop_walk) (auto simp: not_le)
  have f: "malloc_loop nunits (List.last (freep s # us)) p s = Some (take_block nunits (List.last (freep s # us)) p s)"
    using u(2) by (subst malloc_loop.simps) simp
  have "List.last (freep s # us) \<in> set (freep s # us)" by (rule last_in_set) simp
  moreover have "set (freep s # us) \<subseteq> set (base s # rest)" unfolding r(3) [symmetric] using c(2) by auto
  ultimately have "List.last (freep s # us) \<in> set (base s # rest)" by (rule rev_subsetD)
  moreover have "h_ptr s (List.last (freep s # us)) = p" using chain_last [OF c(1)] .
  moreover have "p \<in> set rest"
  proof -
    have "p \<noteq> base s" using u(2) assms(1,4) by (auto simp: heap_ok_def)
    moreover have "p \<in> set (ns @ [freep s])" unfolding u(1) by simp
    ultimately show ?thesis using r(3) by auto
  qed
  ultimately show ?thesis using that u(2) w f by metis
qed

lemma malloc_loop_none:
  assumes "heap_ok s rest" "\<forall>m\<in>set rest. h_size s m < nunits" "0 < nunits"
  shows "malloc_loop nunits (freep s) (h_ptr s (freep s)) s =
    Option.bind (morecore nunits s) (\<lambda>(p, s). if p = 0 then Some (0, s) else malloc_loop nunits p (h_ptr s p) s)"
proof -
  obtain ns where r: "chain (h_ptr s) (freep s) ns (freep s)" "distinct (freep s # ns)" "set (freep s # ns) = set (base s # rest)"
    using heap_ring [OF assms(1)] .
  have small: "h_size s n < nunits" if "n \<in> set (freep s # ns)" for n
    using that assms(1-3) unfolding r(3) by (auto simp: heap_ok_def)
  have "malloc_loop nunits (freep s) (h_ptr s (freep s)) s = malloc_loop nunits (List.last (freep s # ns)) (freep s) s"
    using r(1,2) small by (intro malloc_loop_walk) auto
  also have "\<dots> = Option.bind (morecore nunits s) (\<lambda>(p, s). if p = 0 then Some (0, s) else malloc_loop nunits p (h_ptr s p) s)"
    using small [of "freep s"] by (simp only: malloc_loop_small list.set_intros if_True refl)
  finally show ?thesis .
qed

text \<open>\<open>morecore\<close> adds the memory between the old break and the new one.\<close>

definition grown :: "heap \<Rightarrow> nat list \<Rightarrow> heap \<Rightarrow> nat list \<Rightarrow> bool" where
  "grown s rest s' rest' \<longleftrightarrow> heap_ok s' rest' \<and> brk s \<le> brk s' \<and> free_area s' rest' = free_area s rest \<union> {brk s..<brk s'} \<and>
     (\<forall>a. a \<notin> free_area s' rest' \<longrightarrow> h_size s' a = h_size s a) \<and> base s' = base s"

lemma free_area_mem: "heap_ok s rest \<Longrightarrow> n \<in> set rest \<Longrightarrow> n \<in> free_area s rest"
  using layout_mem [of "h_size s" "base s + 16" rest "brk s" n] plus_units_gt [of "h_size s n" n]
  by (auto simp: heap_ok_def free_area_def area_def)

lemma morecore_ok:
  assumes "heap_ok s rest" "0 < nunits" "nunits < 2 ^ 27"
  shows "morecore nunits s = Some (0, s) \<or>
    (\<exists>s' rest'. morecore nunits s = Some (freep s', s') \<and> freep s' \<noteq> 0 \<and> grown s rest s' rest' \<and> (\<exists>m\<in>set rest'. nunits \<le> h_size s' m))"
proof -
  define nu :: u32 where "nu = (if nunits < 4096 then 4096 else nunits)"
  have nu: "0 < nu" "nunits \<le> nu" "nu < 2 ^ 27" using assms(2,3) by (auto simp: nu_def)
  have "uint nu < 134217728" using nu(3) by (simp add: word_less_def)
  moreover have "0 \<le> uint nu" by simp
  ultimately have "- 2147483648 \<le> 16 * uint nu" "16 * uint nu < 2147483648" by linarith+
  then have sb: "s32 (16 * uint nu) = 16 * uint nu" by (intro s32_id) simp_all
  have n: "nat (16 * uint nu) = 16 * unat nu" by (simp add: nat_mult_distrib)
  show ?thesis
  proof (cases "brk s + 16 * unat nu \<le> brk_limit s")
    case False
    then have "morecore nunits s = Some (0, s)"
      using n by (simp add: morecore_def nu_def [symmetric] Let_def sb sbrk_def)
    then show ?thesis ..
  next
    case True
    define t where "t = set_size (brk s) nu (s\<lparr>brk := brk s + 16 * unat nu\<rparr>)"
    have m: "morecore nunits s = map_option (\<lambda>s. (freep s, s)) (free (brk s + 16) t)"
      using n True by (simp add: morecore_def nu_def [symmetric] Let_def sb sbrk_def t_def)
    have l: "layout (h_size s) (base s + 16) rest (brk s)" using assms(1) by (simp add: heap_ok_def)
    have lt: "n < brk s" if "n \<in> set rest" for n
      using layout_mem [OF l that] plus_units_gt [of "h_size s n" n] by auto
    have b: "base s + 16 \<le> brk s" using layout_bound [OF l] .
    have at: "area t n = area s n" "area s n \<subseteq> {..<brk s}" if "n \<in> set rest" for n
      using lt [OF that] layout_mem [OF l that] by (auto simp: area_def t_def)
    have fa: "free_area t rest = free_area s rest" "free_area s rest \<subseteq> {..<brk s}"
      using at by (auto simp: free_area_def)
    have br: "area t (brk s) = {brk s..<brk t}" by (simp add: area_def t_def plus_units_def)
    have "layout (h_size t) (base s + 16) rest (brk s)"
      using l layout_cong [of rest "h_size t" "h_size s" "base s + 16" "brk s"] lt by (fastforce simp: t_def)
    then have "layout (h_size t) (base s + 16) rest (brk t)" by (rule layout_mono) (simp_all add: t_def)
    then have "heap_ok t rest" using assms(1) b True by (auto simp: heap_ok_def t_def)
    moreover have "returnable t rest (brk s)"
      unfolding returnable_def br fa(1) using b nu(1) fa(2) by (auto simp: t_def plus_units_def)
    ultimately obtain s' rest' where f: "free (brk s + 16) t = Some s'" "heap_ok s' rest'" "covers t (brk s # rest) s' rest'"
      "base s' = base t" "brk s' = brk t" "brk_limit s' = brk_limit t" using free_ok by blast
    have fa': "free_area s' rest' = free_area s rest \<union> {brk s..<brk s'}"
      using f(3,5) fa(1) br by (auto simp: covers_def free_area_def)
    have "brk s < brk s'" using nu(1) f(5) by (simp add: t_def word_less_nat_alt)
    have "h_size s' a = h_size s a" if "a \<notin> free_area s' rest'" for a
    proof -
      have "a \<noteq> brk s" "a \<notin> set rest" using that fa' free_area_mem [OF assms(1)] \<open>brk s < brk s'\<close> by auto
      then show ?thesis using f(3) by (simp add: covers_def t_def)
    qed
    then have "grown s rest s' rest'" using f(2,4,5) fa' by (simp add: grown_def t_def)
    moreover have "\<exists>m\<in>set rest'. h_size t (brk s) \<le> h_size s' m" using f(3) by (simp add: covers_def)
    then have "\<exists>m\<in>set rest'. nunits \<le> h_size s' m" using order_trans [OF nu(2)] by (auto simp: t_def)
    moreover have "freep s' \<noteq> 0"
      using f(2) layout_mem [of "h_size s'" "base s' + 16" rest' "brk s'" "freep s'"] by (auto simp: heap_ok_def)
    ultimately show ?thesis using m f(1) by auto
  qed
qed


lemma malloc_loop_ok:
  assumes "heap_ok s rest" "0 < nunits" "nunits < 2 ^ 27"
  shows "malloc_loop nunits (freep s) (h_ptr s (freep s)) s = Some (0, s) \<or>
    (\<exists>t ts q s' rest'. malloc_loop nunits (freep s) (h_ptr s (freep s)) s = Some (q + 16, s') \<and>
      grown s rest t ts \<and> taken_from t ts nunits q s' rest')"
proof -
  have found: "\<exists>q t' ts'. malloc_loop nunits (freep t) (h_ptr t (freep t)) t = Some (q + 16, t') \<and> taken_from t ts nunits q t' ts'"
    if w: "heap_ok t ts" "m \<in> set ts" "nunits \<le> h_size t m" for t ts m
  proof -
    obtain n p where n: "malloc_loop nunits (freep t) (h_ptr t (freep t)) t = Some (take_block nunits n p t)"
      "n \<in> set (base t # ts)" "h_ptr t n = p" "p \<in> set ts" "nunits \<le> h_size t p"
      using malloc_loop_found [OF w assms(2)] .
    then show ?thesis using take_block_ok [OF w(1) n(2-4) assms(2) n(5)] by metis
  qed
  have self: "grown s rest s rest" using assms(1) by (simp add: grown_def)
  show ?thesis
  proof (cases "\<exists>m\<in>set rest. nunits \<le> h_size s m")
    case True
    then show ?thesis using found [OF assms(1)] self by blast
  next
    case False
    then have none: "malloc_loop nunits (freep s) (h_ptr s (freep s)) s =
        Option.bind (morecore nunits s) (\<lambda>(p, s). if p = 0 then Some (0, s) else malloc_loop nunits p (h_ptr s p) s)"
      using malloc_loop_none [OF assms(1) _ assms(2)] not_le by blast
    from morecore_ok [OF assms] consider "morecore nunits s = Some (0, s)"
      | t ts m where "morecore nunits s = Some (freep t, t)" "freep t \<noteq> 0" "grown s rest t ts" "m \<in> set ts" "nunits \<le> h_size t m"
      by blast
    then show ?thesis
    proof cases
      case 1
      then show ?thesis using none by simp
    next
      case 2
      then have "heap_ok t ts" by (simp add: grown_def)
      then show ?thesis using found [of t ts m] 2 none by auto
    qed
  qed
qed

lemma units_value:
  assumes "nbytes < 2 ^ 31 - 64"
  shows "0 < units nbytes" "units nbytes < 2 ^ 27" "unat nbytes \<le> 16 * (unat (units nbytes) - 1)"
proof -
  have n: "unat nbytes < 2 ^ 31 - 64" using assms by (simp add: word_less_nat_alt)
  let ?k = "(unat nbytes + 15) div 16 + 1"
  have k: "?k < 2 ^ 27" "unat nbytes \<le> 16 * (?k - 1)" using n by simp_all
  have "unat nbytes + 16 - 1 = unat nbytes + 15" by simp
  then have "units nbytes = of_nat ?k" by (simp only: units_def)
  then have "unat (units nbytes) = ?k mod 2 ^ LENGTH(32)" by (simp only: unat_of_nat)
  moreover have "?k mod 2 ^ LENGTH(32) = ?k" using k(1) by (intro mod_less) simp
  ultimately have u: "unat (units nbytes) = ?k" by (rule trans)
  show "0 < units nbytes" "units nbytes < 2 ^ 27" using u k(1) by (simp_all add: word_less_nat_alt)
  show "unat nbytes \<le> 16 * (unat (units nbytes) - 1)" using u k(2) by simp
qed

text \<open>Beyond that bound the number of bytes \<open>morecore\<close> asks for does not fit the \<open>int\<close> of \<open>sbrk\<close>: the process shrinks.\<close>

lemma morecore_negative: "s32 (16 * uint (units 0x80000000)) < 0"
  by (simp add: units_def s32_def signed_take_bit_int_eq_self signed_take_bit_eq_take_bit_minus)

section \<open>Properties\<close>

text \<open>
  C34: \<open>malloc\<close> always returns. With a well-formed heap it either reports that there is no memory and leaves the heap alone,
  or returns a block that holds the bytes asked for: the block and the free blocks that remain are disjoint and together make
  up exactly the old free memory and what \<open>sbrk\<close> added, and the header of every block that was in use is unchanged.
\<close>

theorem malloc_safe:
  assumes "heap_ok (init_heap s) rest" "nbytes < 2 ^ 31 - 64"
  shows "malloc nbytes s = Some (0, init_heap s) \<or>
    (\<exists>q s' rest'. malloc nbytes s = Some (q + 16, s') \<and> heap_ok s' rest' \<and> h_size s' q = units nbytes \<and>
      q + 16 + unat nbytes \<le> plus_units q (units nbytes) \<and>
      area s' q \<inter> free_area s' rest' = {} \<and>
      area s' q \<union> free_area s' rest' = free_area (init_heap s) rest \<union> {brk s..<brk s'} \<and>
      (\<forall>a. a \<notin> area s' q \<union> free_area s' rest' \<longrightarrow> h_size s' a = h_size (init_heap s) a))"
proof -
  let ?s = "init_heap s" and ?n = "units nbytes"
  note u = units_value [OF assms(2)]
  have b: "brk ?s = brk s" by (simp add: init_heap_def)
  consider "malloc nbytes s = Some (0, ?s)"
    | t ts q s' rest' where "malloc nbytes s = Some (q + 16, s')" "grown ?s rest t ts" "taken_from t ts ?n q s' rest'"
    using malloc_loop_ok [OF assms(1) u(1,2)] unfolding malloc_def Let_def by blast
  then show ?thesis
  proof cases
    case 2
    have t: "heap_ok s' rest'" "h_size s' q = ?n" "{q..<plus_units q ?n} \<inter> free_area s' rest' = {}"
      "free_area s' rest' \<union> {q..<plus_units q ?n} = free_area t ts" "\<forall>a. a \<notin> free_area t ts \<longrightarrow> h_size s' a = h_size t a" "brk s' = brk t"
      using 2(3) by (simp_all add: taken_from_def)
    have g: "free_area t ts = free_area ?s rest \<union> {brk s..<brk t}" "\<forall>a. a \<notin> free_area t ts \<longrightarrow> h_size t a = h_size ?s a"
      using 2(2) b by (simp_all add: grown_def)
    have q: "area s' q = {q..<plus_units q ?n}" using t(2) by (simp add: area_def)
    have c: "area s' q \<union> free_area s' rest' = free_area t ts" using t(4) q by (simp only: Un_commute)
    have "q + 16 + unat nbytes \<le> plus_units q ?n"
      using u(1,3) by (simp add: plus_units_def word_less_nat_alt)
    moreover have "\<forall>a. a \<notin> area s' q \<union> free_area s' rest' \<longrightarrow> h_size s' a = h_size ?s a" using t(5) g(2) unfolding c by simp
    moreover have "area s' q \<union> free_area s' rest' = free_area ?s rest \<union> {brk s..<brk s'}" using c g(1) t(6) by simp
    moreover have "area s' q \<inter> free_area s' rest' = {}" using t(3) q by simp
    ultimately show ?thesis using 2(1) t(1,2) by blast
  qed simp
qed

text \<open>A heap of one free block of 10 units, and the same heap with the last 3 of them in use.\<close>

definition heap1 :: heap where
  "heap1 = \<lparr>h_ptr = (\<lambda>_. 4096)(4096 := 8192), h_size = (\<lambda>_. 0)(8192 := 10), freep = 4096, base = 4096, brk = 8352, brk_limit = 100000\<rparr>"

definition heap2 :: heap where
  "heap2 = set_size 8304 3 (set_size 8192 7 heap1)"

lemma heap1_malloc: "\<exists>s'. malloc 20 heap1 = Some (8320, s')"
  by (simp add: malloc_def init_heap_def heap1_def units_def malloc_loop.simps [of _ _ 8192] take_block_def plus_units_def Let_def)

theorem malloc_safe_witness:
  "heap_ok (init_heap heap1) [8192] \<and>
   (\<exists>s' rest'. malloc 20 heap1 = Some (8320, s') \<and> heap_ok s' rest' \<and> h_size s' 8304 = 3 \<and>
     area s' 8304 \<inter> free_area s' rest' = {} \<and> area s' 8304 \<union> free_area s' rest' = {8192..<8352} \<union> {8352..<brk s'})"
proof -
  have ok: "heap_ok (init_heap heap1) [8192]" by (simp add: heap_ok_def init_heap_def heap1_def plus_units_def)
  have v: "units 20 = 3" "brk heap1 = 8352" "free_area (init_heap heap1) [8192] = {8192..<8352}"
    by (simp_all add: units_def heap1_def init_heap_def free_area_def area_def plus_units_def)
  have "(20 :: u32) < 2 ^ 31 - 64" by simp
  from malloc_safe [OF ok this] obtain q s' rest' where m: "malloc 20 heap1 = Some (q + 16, s')" "heap_ok s' rest'" "h_size s' q = 3"
      "area s' q \<inter> free_area s' rest' = {}" "area s' q \<union> free_area s' rest' = {8192..<8352} \<union> {8352..<brk s'}"
    unfolding v using heap1_malloc by auto
  have "q = 8304" using m(1) heap1_malloc by auto
  then show ?thesis using ok m by auto
qed




end
