(* ===== verification/Spec2Isabelle.thy ===== *)
theory Spec2Isabelle
  imports Asm_Frames Sched Log_Safe Fs_Files Streams Trap Grep Sh Umalloc
begin

text \<open>
  A verification library for xv6 on RISC-V with completely fair and priority scheduling and exit messages:
  the kernel (\<^verbatim>\<open>src/kernel\<close>), its assembly included, and the user programs of \<^verbatim>\<open>src/user\<close> that have logic of their own.

  \<^bold>\<open>The program and how its parts interact.\<close> A hart starts in machine mode (\<^verbatim>\<open>entry.S\<close>, \<^verbatim>\<open>start.c\<close>) and enters
  \<^verbatim>\<open>main.c\<close>, which initialises the page allocator (\<^verbatim>\<open>kalloc.c\<close>), page tables (\<^verbatim>\<open>vm.c\<close>), the process table
  (\<^verbatim>\<open>proc.c\<close>), traps and interrupts (\<^verbatim>\<open>trap.c\<close>, \<^verbatim>\<open>plic.c\<close>), the buffer cache (\<^verbatim>\<open>bio.c\<close>), inodes and files (\<^verbatim>\<open>fs.c\<close>,
  \<^verbatim>\<open>file.c\<close>) and the disk (\<^verbatim>\<open>virtio_disk.c\<close>), and then schedules. A process enters the kernel through
  \<^verbatim>\<open>trampoline.S\<close> and \<open>usertrap\<close>; \<open>syscall\<close> fetches the arguments from its trapframe and calls the handlers of
  \<^verbatim>\<open>sysproc.c\<close> and \<^verbatim>\<open>sysfile.c\<close>. These use the process operations, pipes, the console and the file system; the file
  system changes the disk only through the write-ahead log (\<^verbatim>\<open>log.c\<close>) on top of the buffer cache.

  \<^bold>\<open>Modelling conventions.\<close> A C function is a HOL function from its arguments and the state to an outcome: \<open>Ret\<close> a value
  and the new state, \<open>Panic\<close>, or \<open>Sleep\<close> on a channel with the state left behind (\<^verbatim>\<open>Prelude.thy\<close>). \<open>Panic\<close> also names the
  ways in which C goes wrong: \<open>''kerneltrap''\<close> is a null dereference, \<open>''ub''\<close> an access outside an array or to an argument
  that is not there, \<open>''hang''\<close> a loop that does not end. The state is a chain of extensible records, each
  component adding its own fields: \<open>kmem\<close> (memory and free list), \<open>pstate\<close> (processes), \<open>bstate\<close> (buffers and disk), \<open>vstate\<close>
  (driver), \<open>lstate\<close> (log), \<open>fstate\<close> (inodes), \<open>ustate\<close> (UART), \<open>cstate\<close> (console), \<open>kernel\<close> (files and pipes), \<open>hstate\<close> (registers
  of the hart); a function on an earlier record applies unchanged to the later ones. Unsigned integers are words, a C \<open>int\<close>
  is an \<open>int\<close> kept in range by \<open>s32\<close>. Physical memory is a function from addresses to bytes, and free pages, page tables and
  trapframes lie in it; processes, buffers, inodes and open files are known by their slots. A section protected by a lock
  runs as one step; \<^verbatim>\<open>Spinlock.thy\<close> and \<^verbatim>\<open>Sched.thy\<close> treat the locks themselves.

  \<^bold>\<open>Theories, in the order of the layers.\<close>

  \<^item> \<^verbatim>\<open>Prelude\<close>: integers, outcomes, memory and byte arrays. \<^verbatim>\<open>Hw\<close>: \<^verbatim>\<open>param.h\<close>, \<^verbatim>\<open>memlayout.h\<close>, \<^verbatim>\<open>riscv.h\<close>.
    \<^verbatim>\<open>Cstring\<close>: \<^verbatim>\<open>string.c\<close> and the string functions of \<^verbatim>\<open>user/ulib.c\<close>, with \<open>memmove\<close> correct for overlapping ranges.
  \<^item> \<^verbatim>\<open>Kalloc\<close>: \<^verbatim>\<open>kalloc.c\<close>. The free list in memory is a list of distinct pages; allocation never hands out a page twice.
    The locale \<open>page_allocator\<close> is the contract the page tables rely on.
  \<^item> \<^verbatim>\<open>Asm\<close>, \<^verbatim>\<open>Asm_Frames\<close>: \<^verbatim>\<open>trampoline.S\<close>, \<^verbatim>\<open>swtch.S\<close>, \<^verbatim>\<open>kernelvec.S\<close>, \<^verbatim>\<open>entry.S\<close>, \<^verbatim>\<open>start.c\<close>, instruction by
    instruction, and that each of them saves and gives back the registers it must.
  \<^item> \<^verbatim>\<open>Vm\<close>: \<^verbatim>\<open>vm.c\<close>. \<^verbatim>\<open>Vm_Tables\<close>: a page table refines a function from virtual pages to entries, of which mapping and
    unmapping are point updates. \<^verbatim>\<open>Vm_Copy\<close>: copies between kernel and user follow the translation byte by byte.
  \<^item> \<^verbatim>\<open>Spinlock\<close>: \<^verbatim>\<open>spinlock.c\<close>, sequentially and as a transition system of several harts with mutual exclusion.
    \<^verbatim>\<open>Proc\<close>: \<^verbatim>\<open>proc.c\<close> without the operations that need files; scheduling, sleeping and waking. \<^verbatim>\<open>Sched\<close>: the locking around
    \<open>sched\<close>, \<open>yield\<close> and \<open>sleep\<close>, under the contract \<open>context_switch\<close> that the scheduler keeps.
  \<^item> \<^verbatim>\<open>Bio\<close>: \<^verbatim>\<open>sleeplock.c\<close> and \<^verbatim>\<open>bio.c\<close>. \<^verbatim>\<open>Bio_Cache\<close> and \<^verbatim>\<open>Block_Cache\<close>: the linked buffers refine a partial copy of the
    disk in order of use. \<^verbatim>\<open>Virtio\<close>: \<^verbatim>\<open>virtio_disk.c\<close> against a device.
  \<^item> \<^verbatim>\<open>Log\<close>: \<^verbatim>\<open>log.c\<close>. \<^verbatim>\<open>Log_Safe\<close>: whatever prefix of the writes of a commit reaches the disk, recovery gives the old or the
    new contents, also when it is itself interrupted.
  \<^item> \<^verbatim>\<open>Fs\<close>: \<^verbatim>\<open>fs.c\<close>. \<^verbatim>\<open>Fs_Alloc\<close>: \<open>balloc\<close> and \<open>bfree\<close> inside a transaction. \<^verbatim>\<open>Fs_Files\<close>: \<open>bmap\<close>, \<open>readi\<close> and
    \<open>dirlookup\<close> against the bytes of a file.
  \<^item> \<^verbatim>\<open>Ring\<close>: the locale \<open>ring_buffer\<close> for arrays indexed by free-running counters, interpreted for the transmit buffer, the input line
    and the pipe. \<^verbatim>\<open>Uart\<close>: \<^verbatim>\<open>uart.c\<close>. \<^verbatim>\<open>Console\<close>: \<^verbatim>\<open>console.c\<close>, \<^verbatim>\<open>printf.c\<close>. \<^verbatim>\<open>File\<close>: \<^verbatim>\<open>file.c\<close>, \<^verbatim>\<open>pipe.c\<close>.
    \<^verbatim>\<open>Streams\<close>: bytes arrive in order and none is lost, lines are edited as typed, printed numbers read back.
  \<^item> \<^verbatim>\<open>Procops\<close>: \<open>fork\<close>, \<open>exit\<close>, \<open>wait\<close> and the life of a process. \<^verbatim>\<open>Exec\<close>: \<^verbatim>\<open>exec.c\<close> and the argument functions of
    \<^verbatim>\<open>syscall.c\<close>. \<^verbatim>\<open>Sysfile\<close>, \<^verbatim>\<open>Syscall\<close>: the system calls. \<^verbatim>\<open>Trap\<close>: \<^verbatim>\<open>trap.c\<close>, \<^verbatim>\<open>plic.c\<close>, \<^verbatim>\<open>main.c\<close>.
  \<^item> \<^verbatim>\<open>User_Io\<close>: \<^verbatim>\<open>user/printf.c\<close>, \<^verbatim>\<open>cat.c\<close>, \<^verbatim>\<open>wc.c\<close>, \<^verbatim>\<open>echo.c\<close> and \<open>gets\<close>. \<^verbatim>\<open>Grep\<close>: \<^verbatim>\<open>user/grep.c\<close>, its matcher against the
    language of the expression. \<^verbatim>\<open>Sh\<close>: \<^verbatim>\<open>user/sh.c\<close>; parsing always ends, words are exactly what was typed, pipelines
    are wired as written. \<^verbatim>\<open>Umalloc\<close>: \<^verbatim>\<open>user/umalloc.c\<close>; blocks are disjoint and freeing gives back exactly the block.
  \<^item> This theory: the path of a byte from one process through \<open>sys_write\<close>, a pipe, a context switch and \<open>sys_read\<close> to another.

  \<^bold>\<open>Bounds and fuel.\<close> Loops are recursive functions with a termination proof wherever they always end. The scans for the end of
  a string and the free list of \<open>malloc\<close>, which may not end, are partial functions whose return is proved for well-formed
  arguments. The search of the buffer cache has fuel \<open>Suc NBUF\<close>, more than the length of the list; the parser of the shell
  \<open>4 * length b + 4\<close>, more than the calls it can make on \<open>b\<close> bytes; the interrupt handlers of the disk and the UART the number
  of completions and of bytes that wait; \<open>freewalk\<close> the three levels of a page table. Running out is an outcome of its own,
  which the theorems exclude.

  \<^bold>\<open>Parameters.\<close> What the code does not define is an argument: the translation of addresses in \<^verbatim>\<open>Asm\<close>, the rest of the system
  between a \<open>yield\<close> and the return to the process in \<^verbatim>\<open>Trap\<close>, the schedules of reads and writes in \<^verbatim>\<open>User_Io\<close>, the end of
  the kernel image \<open>kend\<close>, and uninitialised bytes \<open>junk\<close>.

  \<^bold>\<open>Not modelled.\<close>
  \<^item> \<^verbatim>\<open>kernel/ramdisk.c\<close> is not part of the build: it uses fields that \<open>struct buf\<close> no longer has.
  \<^item> \<^verbatim>\<open>user/usertests.c\<close>, \<^verbatim>\<open>grind.c\<close>, \<^verbatim>\<open>forktest.c\<close>, \<^verbatim>\<open>stressfs.c\<close> are tests of the kernel and have no contract of their own.
  \<^item> \<^verbatim>\<open>mkfs/mkfs.c\<close> runs on the host and only writes the first disk image.
  \<^item> The remaining user programs make a few system calls in sequence; of the shell, the loop that reads lines is left out.
  \<^item> One-line register accessors of \<^verbatim>\<open>riscv.h\<close> that the modelled code does not use; \<open>stat\<close> of \<^verbatim>\<open>ulib.c\<close>, which wraps three calls.
  \<^item> Weak memory: the fences of \<^verbatim>\<open>spinlock.c\<close> and \<^verbatim>\<open>virtio_disk.c\<close> are taken to give sequentially consistent sections.
\<close>

section \<open>A write in one process and a read in another\<close>

text \<open>
  The scheduler gives the CPU to process \<open>p\<close> (the first half of a dispatch), and a process that has
  trapped with the arguments of \<open>read\<close> and \<open>write\<close>.
\<close>

definition switch_to :: "nat \<Rightarrow> kernel \<Rightarrow> kernel" where
  "switch_to p s = (modp p (\<lambda>q. q\<lparr>p_state := RUNNING\<rparr>) s)\<lparr>curproc := Some p\<rparr>"

definition calls_with :: "nat \<Rightarrow> nat \<Rightarrow> u64 \<Rightarrow> nat \<Rightarrow> kernel \<Rightarrow> bool" where
  "calls_with p fd addr n s \<longleftrightarrow> p < length (procs s) \<and> fd < NOFILE \<and> s32 (uint (tf_get p (tf_a 0) s)) = int fd \<and>
     tf_get p (tf_a 1) s = addr \<and> s32 (uint (tf_get p (tf_a 2) s)) = int n"

lemma arguments:
  assumes "calls_with p fd addr n s" "myproc s = Some p" "p_ofile (getp p s) ! fd = Some f"
  shows "argaddr 1 s = Ret addr s" "argint 2 s = Ret (int n) s" "argfd 0 s = Ret (Some (fd, f)) s"
  using assms by (simp_all add: calls_with_def argaddr_def argint_def argraw_def argfd_def with_myproc_def)

lemma sys_write_pipe:
  assumes "calls_with p fd addr n s" "myproc s = Some p" "p_ofile (getp p s) ! fd = Some f"
    and "f_writable (getf f s)" "f_type (getf f s) = FD_PIPE" "pipewrite (f_pipe (getf f s)) addr (int n) s = Ret r s'"
  shows "sys_write s = Ret (of_int r) s'"
  using arguments [OF assms(1-3)] assms(4-6) by (simp add: sys_write_def filewrite_def)

lemma sys_read_pipe:
  assumes "calls_with p fd addr n s" "myproc s = Some p" "p_ofile (getp p s) ! fd = Some f"
    and "f_readable (getf f s)" "f_type (getf f s) = FD_PIPE" "piperead (f_pipe (getf f s)) addr (int n) s = Ret r s'"
  shows "sys_read s = Ret (of_int r) s'"
  using arguments [OF assms(1-3)] assms(4-6) by (simp add: sys_read_def fileread_def)

text \<open>What another process sees after a write to a pipe and a switch: its own arguments, files and memory.\<close>

lemma switched:
  assumes "s' = switch_to r (wakeup ch (modpipe a (\<lambda>_. x) s))" "r < length (procs s)"
  shows "myproc s' = Some r" "memory s' = memory s" "pipes s' a = x" "getf f s' = getf f s"
    "p_pagetable (getp r s') = p_pagetable (getp r s)" "p_ofile (getp r s') = p_ofile (getp r s)"
    "calls_with r fd addr n s' = calls_with r fd addr n s" "vm_wf s' fl \<Gamma> = vm_wf s fl \<Gamma>"
proof -
  let ?t = "modpipe a (\<lambda>_. x) s"
  have g: "p_pagetable (getp r (wakeup ch ?t)) = p_pagetable (getp r s)" "p_ofile (getp r (wakeup ch ?t)) = p_ofile (getp r s)"
    "p_trapframe (getp r (wakeup ch ?t)) = p_trapframe (getp r s)"
    using getp_wakeup_frame [of r ?t ch] assms(2) by (simp_all add: modpipe_def getp_def)
  obtain ps where w: "wakeup ch ?t = ?t\<lparr>procs := ps\<rparr>" using wakeup_eq by blast
  have l: "length ps = length (procs s)" using wakeup_simps(1) [of ch ?t] unfolding w by (simp add: modpipe_def)
  have s': "s' = s\<lparr>pipes := (pipes s)(a := x), procs := ps[r := (ps ! r)\<lparr>p_state := RUNNING\<rparr>], curproc := Some r\<rparr>"
    unfolding assms(1) switch_to_def w by (simp add: modpipe_def modp_def)
  show "myproc s' = Some r" "memory s' = memory s" "pipes s' a = x" "getf f s' = getf f s"
    by (simp_all add: s' myproc_def getf_def)
  show p: "p_pagetable (getp r s') = p_pagetable (getp r s)" "p_ofile (getp r s') = p_ofile (getp r s)"
    using g(1,2) w l assms(2) by (simp_all add: s' getp_def)
  have "p_trapframe (getp r s') = p_trapframe (getp r s)" using g(3) w l assms(2) by (simp add: s' getp_def)
  then show "calls_with r fd addr n s' = calls_with r fd addr n s"
    using l by (simp add: calls_with_def tf_get_def) (simp add: s')
  have "kpage s' = kpage s" by (rule ext) (simp add: kpage_def s')
  then show "vm_wf s' fl \<Gamma> = vm_wf s fl \<Gamma>" by (simp add: s' vm_wf_def kmem_wf_def)
qed

text \<open>
  C3: what one process writes another reads. A \<open>write\<close> to a pipe with room for the bytes returns their number;
  a \<open>read\<close> of the same pipe in the process that the scheduler runs next returns, in order, the bytes that were waiting
  and then those of the writer's buffer, as many as it asked for, and stores them in the reader's buffer and nowhere else.
\<close>

theorem pipe_between_processes:
  assumes "vm_wf s fl \<Gamma>"
    and writer: "calls_with w fd addr n s" "myproc s = Some w" "p_ofile (getp w s) ! fd = Some f" "\<not> killed w s"
      "p_pagetable (getp w s) = rw" "\<Gamma> rw = Some (rw, [])" "mapped (memory s) rw addr n"
      "f_writable (getf f s)" "f_type (getf f s) = FD_PIPE" "f_pipe (getf f s) = a"
    and reader: "calls_with r fd' addr' m s" "p_ofile (getp r s) ! fd' = Some g"
      "p_pagetable (getp r s) = rr" "\<Gamma> rr = Some (rr, [])" "mapped (memory s) rr addr' m" "user_pages_ok (memory s) fl \<Gamma> rr"
      "f_readable (getf g s)" "f_type (getf g s) = FD_PIPE" "f_pipe (getf g s) = a"
    and pipe: "pi_readopen (pipes s a)" "pipe_ok (pipes s a)" "length (pipe_bytes (pipes s a)) + n \<le> PIPESIZE" "0 < n"
    and bytes: "bytes = pipe_bytes (pipes s a) @ user_bytes (memory s) rw addr n"
  shows "\<exists>s1 s2. sys_write s = Ret (of_nat n) s1 \<and>
    sys_read (switch_to r s1) = Ret (of_nat (min m (length bytes))) s2 \<and>
    user_store (memory s) rr addr' (take m bytes) (memory s2) \<and> pipe_bytes (pipes s2 a) = drop m bytes"
proof -
  obtain x where x: "pipewrite a addr (int n) s = Ret (int n) (wakeup (ChanPipeRead a) (modpipe a (\<lambda>_. x) s))" "pipe_ok x"
    "pipe_bytes x = bytes"
    using pipewrite_fits [OF assms(1) writer(6,2,5,4) pipe(1,2) writer(7) pipe(3)] unfolding bytes .
  let ?s1 = "wakeup (ChanPipeRead a) (modpipe a (\<lambda>_. x) s)"
  have wr: "sys_write s = Ret (of_int (int n)) ?s1"
    using sys_write_pipe [OF writer(1-3,8,9)] writer(10) x(1) by simp
  have r: "r < length (procs s)" "m < 2 ^ 31" using reader(1) s32_range [of "uint (tf_get r (tf_a 2) s)"] by (auto simp: calls_with_def)
  note sw = switched [OF refl r(1)]
  have "bytes \<noteq> []" using pipe(4) by (simp add: bytes user_bytes_def)
  then obtain s2 where s2: "piperead a addr' (int m) (switch_to r ?s1) = Ret (int (min m (length bytes))) s2"
      "pipe_bytes (pipes s2 a) = drop m bytes" "user_store (memory s) rr addr' (take m bytes) (memory s2)"
    using piperead_bytes [of "switch_to r ?s1" fl \<Gamma> rr r a addr' m] assms(1) reader(3-6) x(2,3) r(2) by (auto simp: sw)
  have "sys_read (switch_to r ?s1) = Ret (of_int (int (min m (length bytes)))) s2"
    by (rule sys_read_pipe [of r fd' addr' m _ g]) (use reader(1,2,7-9) s2(1) in \<open>simp_all add: sw\<close>)
  then show ?thesis using wr s2(2,3) by (intro exI conjI) simp_all
qed


text \<open>
  Two processes of one address space with their own trapframes. The first has trapped to write 2 bytes from address 0 to
  descriptor 3, the second to read up to 10 bytes from descriptor 4 to address 16.
\<close>

definition kernel1 :: kernel where
  "kernel1 = kernel0\<lparr>
     memory := (memory machine1)(0x87ff8070 := 3, 0x87ff8080 := 2, 0x87ff7070 := 4, 0x87ff7078 := 16, 0x87ff7080 := 10,
       0x87ffb000 := 104, 0x87ffb001 := 105),
     procs := (procs kernel0)[
       0 := (procs kernel0 ! 0)\<lparr>p_trapframe := 0x87ff8000, p_ofile := (replicate NOFILE None)[3 := Some 0]\<rparr>,
       1 := (procs kernel0 ! 0)\<lparr>p_trapframe := 0x87ff7000, p_ofile := (replicate NOFILE None)[4 := Some 1], p_pid := 2\<rparr>],
     ftable := (ftable kernel0)[
       0 := (ftable kernel0 ! 0)\<lparr>f_type := FD_PIPE, f_writable := True, f_pipe := 0x87ffa000\<rparr>,
       1 := (ftable kernel0 ! 1)\<lparr>f_type := FD_PIPE, f_readable := True, f_pipe := 0x87ffa000\<rparr>]\<rparr>"

lemma kernel1_agree: "agree typing1 (memory machine1) (memory kernel1)"
  by (auto simp: agree_def kernel1_def typing1_def PGROUNDDOWN_def)

lemma kernel1_args:
  "load64 (memory kernel1) 0x87ff8070 = 3" "load64 (memory kernel1) 0x87ff8078 = 0" "load64 (memory kernel1) 0x87ff8080 = 2"
  "load64 (memory kernel1) 0x87ff7070 = 4" "load64 (memory kernel1) 0x87ff7078 = 16" "load64 (memory kernel1) 0x87ff7080 = 10"
  by (simp_all add: load64_def le_get_def upt_rec kernel1_def machine1_def store64_def pte_addr_def)


lemma kernel1_leaf: "leaf_pte (memory kernel1) 0x87ffe000 va = leaf_pte (memory machine1) 0x87ffe000 va"
  using agree_slot(2) [OF _ kernel1_agree typing1_root] machine1_wf by (simp add: vm_wf_def)

lemma kernel1_user: "user_leaf (memory kernel1) 0x87ffe000 va = user_leaf (memory machine1) 0x87ffe000 va"
  "xlate (memory kernel1) 0x87ffe000 va = xlate (memory machine1) 0x87ffe000 va"
  by (simp_all add: user_leaf_def xlate_def kernel1_leaf)

lemma kernel1_wf: "vm_wf kernel1 [] typing1" "user_pages_ok (memory kernel1) [] typing1 0x87ffe000"
  "mapped (memory kernel1) 0x87ffe000 0 2" "mapped (memory kernel1) 0x87ffe000 16 10"
  "user_bytes (memory kernel1) 0x87ffe000 0 2 = [104, 105]"
proof -
  have "kpage kernel1 = kpage machine1" by (rule ext) (simp add: kpage_def kernel1_def kernel0_def machine1_def)
  moreover have "kend kernel1 = kend machine1" "freelist kernel1 = freelist machine1"
    by (simp_all add: kernel1_def kernel0_def machine1_def)
  moreover have "free_chain (memory kernel1) (freelist kernel1) []" by (simp add: kernel1_def kernel0_def)
  ultimately show "vm_wf kernel1 [] typing1"
    using machine1_wf agree_pt_typed [OF _ kernel1_agree] by (simp add: vm_wf_def kmem_wf_def)
  show "user_pages_ok (memory kernel1) [] typing1 0x87ffe000"
    using machine1_user_ok by (simp only: user_pages_ok_def kernel1_user kernel1_leaf)
  show "mapped (memory kernel1) 0x87ffe000 0 2" using machine1_mapped [of 2] by (simp only: mapped_def kernel1_user) simp
  have "xlate (memory machine1) 0x87ffe000 (16 + of_nat i) \<noteq> None" if "i < 10" for i
  proof -
    have m: "j < 26 \<Longrightarrow> xlate (memory machine1) 0x87ffe000 (0 + of_nat j) \<noteq> None" for j
      using machine1_mapped [of 26] unfolding mapped_def by simp
    have "xlate (memory machine1) 0x87ffe000 (0 + of_nat (16 + i)) \<noteq> None" by (rule m) (use that in simp)
    then show ?thesis by simp
  qed
  then show "mapped (memory kernel1) 0x87ffe000 16 10" by (simp add: mapped_def kernel1_user)
  have g: "PGROUNDDOWN 0 = 0" "PGROUNDDOWN 1 = 0" by (simp_all add: PGROUNDDOWN_def)
  then have "leaf_pte (memory machine1) 0x87ffe000 1 = 0x21ffec17"
    using machine1_leaf leaf_pte_page [of "memory machine1" "0x87ffe000" 1] by simp
  then have "xlate (memory kernel1) 0x87ffe000 0 = Some 0x87ffb000" "xlate (memory kernel1) 0x87ffe000 1 = Some 0x87ffb001"
    unfolding kernel1_user(2) unfolding xlate_def machine1_user g machine1_leaf by (simp_all add: PTE2PA_def)
  then show "user_bytes (memory kernel1) 0x87ffe000 0 2 = [104, 105]"
    by (simp add: user_bytes_def upt_rec) (simp add: kernel1_def)
qed

theorem pipe_between_processes_witness:
  "\<exists>s1 s2. sys_write kernel1 = Ret 2 s1 \<and> sys_read (switch_to 1 s1) = Ret 3 s2 \<and>
    user_store (memory kernel1) 0x87ffe000 16 [120, 104, 105] (memory s2) \<and> pipe_bytes (pipes s2 0x87ffa000) = []"
proof -
  have k: "pipes kernel1 = pipes kernel0" "myproc kernel1 = Some 0" "p_pagetable (getp 0 kernel1) = 0x87ffe000" "\<not> killed 0 kernel1"
    "p_pagetable (getp 1 kernel1) = 0x87ffe000" "p_ofile (getp 0 kernel1) ! 3 = Some 0" "p_ofile (getp 1 kernel1) ! 4 = Some 1"
    "f_writable (getf 0 kernel1)" "f_type (getf 0 kernel1) = FD_PIPE" "f_pipe (getf 0 kernel1) = 0x87ffa000"
    "f_readable (getf 1 kernel1)" "f_type (getf 1 kernel1) = FD_PIPE" "f_pipe (getf 1 kernel1) = 0x87ffa000"
    "pi_readopen (pipes kernel1 0x87ffa000)"
    by (simp_all add: kernel1_def kernel0_def myproc_def getp_def getf_def killed_def proc0_def)
  have c: "calls_with 0 3 0 2 kernel1" "calls_with 1 4 16 10 kernel1"
  proof -
    have "p_trapframe (getp 0 kernel1) = 0x87ff8000" "p_trapframe (getp 1 kernel1) = 0x87ff7000" "length (procs kernel1) = 64"
      by (simp_all add: kernel1_def kernel0_def getp_def)
    then show "calls_with 0 3 0 2 kernel1" "calls_with 1 4 16 10 kernel1"
      by (simp_all add: calls_with_def tf_get_def tf_a_def kernel1_args)
  qed
  have q: "pipe_ok (pipes kernel1 0x87ffa000)" "pipe_bytes (pipes kernel1 0x87ffa000) = [120]"
    using kernel0_queues(7,8) by (simp_all add: k(1))
  have "\<exists>s1 s2. sys_write kernel1 = Ret (of_nat 2) s1 \<and> sys_read (switch_to 1 s1) = Ret (of_nat (min 10 (length [120, 104, 105 :: u8]))) s2 \<and>
    user_store (memory kernel1) 0x87ffe000 16 (take 10 [120, 104, 105]) (memory s2) \<and> pipe_bytes (pipes s2 0x87ffa000) = drop 10 [120, 104, 105]"
    by (rule pipe_between_processes [OF kernel1_wf(1) c(1) k(2) k(6) k(4) k(3) typing1_root kernel1_wf(3) k(8-10) c(2) k(7)
          k(5) typing1_root kernel1_wf(4) kernel1_wf(2) k(11-14) q(1)])
      (simp_all add: q(2) kernel1_wf(5))
  then show ?thesis by simp
qed

end
